(* ===== verification/Exchange_Prelude.thy ===== *)
theory Exchange_Prelude
  imports Main "HOL-Library.Word"
begin

text \<open>
  Shared vocabulary of the development: the integer widths of the sources, the ways a C++
  operation can end (it returns, it stops the process, it has undefined behaviour, it never
  returns), sequencing of such operations, and vectors of a fixed size.
\<close>

named_theorems wf_intros
  \<comment> \<open>preservation of the invariants\<close>

section \<open>How an operation ends\<close>

text \<open>
  \<open>Assertion\<close> is \<open>exit(EXIT_FAILURE)\<close> after \<open>ASSERT\<close> or \<open>FATAL\<close> printed its message
  (only the literal part of a message is kept); \<open>Uncaught\<close> is an exception that leaves a
  \<open>noexcept\<close> function, which ends the process too. The other faults are undefined behaviour
  that the sources do not guard against: reading through a null pointer or a dangling one,
  access outside a buffer, and deleting what is not an allocated object. An outcome \<open>None\<close> is a loop that
  never ends.
\<close>

datatype fault =
    Assertion string
  | Uncaught string
  | Null_Dereference
  | Dangling_Pointer
  | Out_Of_Range
  | Invalid_Free

type_synonym 'a outcome = "(fault + 'a) option"

abbreviation ret :: "'a \<Rightarrow> 'a outcome" where
  "ret x \<equiv> Some (Inr x)"

abbreviation throw :: "fault \<Rightarrow> 'a outcome" where
  "throw e \<equiv> Some (Inl e)"

definition obind :: "'a outcome \<Rightarrow> ('a \<Rightarrow> 'b outcome) \<Rightarrow> 'b outcome" where
  "obind m f = Option.bind m (\<lambda>r. case r of Inl e \<Rightarrow> throw e | Inr x \<Rightarrow> f x)"

definition ASSERT :: "bool \<Rightarrow> string \<Rightarrow> unit outcome" where
  "ASSERT cond msg = (if \<not> cond then throw (Assertion msg) else ret ())"

definition FATAL :: "string \<Rightarrow> 'a outcome" where
  "FATAL msg = throw (Assertion msg)"

text \<open>A pointer into an array of objects is the index of the object; \<open>None\<close> is \<open>nullptr\<close>.\<close>

type_synonym ptr = "nat option"

definition deref :: "ptr \<Rightarrow> nat outcome" where
  "deref p = (case p of None \<Rightarrow> throw Null_Dereference | Some i \<Rightarrow> ret i)"

text \<open>\<open>std::vector\<close> with the size it was constructed with (no vector of the exchange core grows).\<close>

record 'a vec =
  elem :: "nat \<Rightarrow> 'a"
  size_of :: nat

definition vec_new :: "nat \<Rightarrow> 'a \<Rightarrow> 'a vec" where
  "vec_new n x = \<lparr>elem = (\<lambda>_. x), size_of = n\<rparr>"

definition vec_upd :: "nat \<Rightarrow> 'a \<Rightarrow> 'a vec \<Rightarrow> 'a vec" where
  "vec_upd i x v = v\<lparr>elem := (elem v)(i := x)\<rparr>"

section \<open>Rules for outcomes\<close>

lemma obind_simps [simp]:
  "obind (ret x) f = f x"
  "obind (throw e) f = throw e"
  "obind None f = None"
  by (simp_all add: obind_def)

lemma obind_assoc: "obind (obind m f) g = obind m (\<lambda>x. obind (f x) g)"
  by (cases m) (auto simp: obind_def split: sum.splits)

lemma obind_eq_ret: "obind m f = ret y \<longleftrightarrow> (\<exists>x. m = ret x \<and> f x = ret y)"
  by (cases m) (auto simp: obind_def split: sum.splits)

lemma obind_mono [partial_function_mono]:
  assumes "mono_option B" and "\<And>y. mono_option (\<lambda>f. C y f)"
  shows "mono_option (\<lambda>f. obind (B f) (\<lambda>y. C y f))"
  unfolding obind_def
proof (rule bind_mono [OF assms(1)])
  fix r
  show "mono_option (\<lambda>f. case r of Inl e \<Rightarrow> throw e | Inr x \<Rightarrow> C x f)"
    using assms(2) by (cases r) (auto intro: monotoneI simp: flat_ord_def)
qed

lemma ASSERT_simps [simp]:
  "ASSERT True msg = ret ()"
  "ASSERT False msg = throw (Assertion msg)"
  by (simp_all add: ASSERT_def)

lemma deref_simps [simp]:
  "deref None = throw Null_Dereference"
  "deref (Some i) = ret i"
  by (simp_all add: deref_def)

lemma vec_simps [simp]:
  "elem (vec_new n x) i = x"
  "size_of (vec_new n x) = n"
  "elem (vec_upd i x v) j = (if j = i then x else elem v j)"
  "size_of (vec_upd i x v) = size_of v"
  by (simp_all add: vec_new_def vec_upd_def)

section \<open>Reaching a goal\<close>

text \<open>If every state short of the goal has a step that leaves less to do, the goal can be reached.\<close>

lemma reaches_by_measure:
  assumes "\<And>m x. I m x \<Longrightarrow> \<not> goal x \<Longrightarrow> \<exists>m' y. step x y \<and> m' < m \<and> I m' y" and "I (m :: nat) x"
  shows "\<exists>m' y. step\<^sup>*\<^sup>* x y \<and> goal y \<and> I m' y"
  using assms(2)
proof (induction m arbitrary: x rule: less_induct)
  case (less m)
  show ?case
  proof (cases "goal x")
    case True
    then show ?thesis using less.prems by blast
  next
    case False
    then obtain m' y where "step x y" "m' < m" "I m' y" using assms(1) less.prems by blast
    then show ?thesis using less.IH by (meson converse_rtranclp_into_rtranclp)
  qed
qed

end
