(* ===== verification/Object_Pool.thy ===== *)
theory Object_Pool
  imports Exchange_Prelude
begin

text \<open>
  The pre-allocated pool of objects of \<open>include/utils/object_pool.h\<close>. An object's address
  is the index of its block in \<open>store\<close>. The locale \<open>allocator\<close> is the contract the order
  book relies on: an allocated object is fresh, holds the value it was constructed with and
  leaves every other object alone.
\<close>

section \<open>The pool\<close>

record 'a ObjectBlock =
  object :: 'a
  available :: bool

record 'a ObjectPool =
  store :: "'a ObjectBlock vec"
  next_free :: nat

definition ObjectPool_new :: "nat \<Rightarrow> 'a \<Rightarrow> 'a ObjectPool" where
  "ObjectPool_new n dflt =
     \<lparr>store = vec_new n \<lparr>object = dflt, available = True\<rparr>, next_free = 0\<rparr>"

text \<open>
  The scan for the next available block; \<open>prev_free\<close> is where it started. The scan stops the
  process when it is back at its start. Read outside the vector, the index is out of range.
\<close>

partial_function (option) updateNextFree_loop ::
  "'a ObjectPool \<Rightarrow> nat \<Rightarrow> nat \<Rightarrow> nat outcome" where
  "updateNextFree_loop p prev_free nf =
     (if \<not> nf < size_of (store p) then throw Out_Of_Range
      else if available (elem (store p) nf) then ret nf
      else (let nf' = (if Suc nf = size_of (store p) then 0 else Suc nf) in
        obind (if nf' = prev_free
               then ASSERT (nf' \<noteq> prev_free) ''Buffer is full.'' else ret ())
          (\<lambda>_. updateNextFree_loop p prev_free nf')))"

declare updateNextFree_loop.simps [code]

definition updateNextFree :: "'a ObjectPool \<Rightarrow> 'a ObjectPool outcome" where
  "updateNextFree p =
     obind (updateNextFree_loop p (next_free p) (next_free p))
       (\<lambda>nf. ret (p\<lparr>next_free := nf\<rparr>))"

text \<open>\<open>x\<close> is the object \<open>T(args...)\<close> that placement new constructs in the block.\<close>

definition getObject :: "'a \<Rightarrow> 'a ObjectPool \<Rightarrow> (nat \<times> 'a ObjectPool) outcome" where
  "getObject x p =
     (let i = next_free p in
      if \<not> i < size_of (store p) then throw Out_Of_Range
      else obind (ASSERT (available (elem (store p) i)) ''Expected free ObjectBlock at index: '')
        (\<lambda>_. obind (updateNextFree
                 (p\<lparr>store := vec_upd i \<lparr>object = x, available = False\<rparr> (store p)\<rparr>))
          (\<lambda>p'. ret (i, p'))))"

definition releaseObject :: "nat \<Rightarrow> 'a ObjectPool \<Rightarrow> 'a ObjectPool outcome" where
  "releaseObject object_index p =
     obind (ASSERT (object_index < size_of (store p))
              ''Element being freed does not belong to this object pool.'')
       (\<lambda>_. obind (ASSERT (\<not> available (elem (store p) object_index))
                ''Attempting to free an already available ObjectBlock.'')
         (\<lambda>_. ret (p\<lparr>store := vec_upd object_index
                    ((elem (store p) object_index)\<lparr>available := True\<rparr>) (store p)\<rparr>)))"

section \<open>The objects of a pool as a memory\<close>

definition objects :: "'a ObjectPool \<Rightarrow> nat \<Rightarrow> 'a" where
  "objects p i = object (elem (store p) i)"

definition set_objects :: "(nat \<Rightarrow> 'a) \<Rightarrow> 'a ObjectPool \<Rightarrow> 'a ObjectPool" where
  "set_objects h p =
     p\<lparr>store := (store p)\<lparr>elem := (\<lambda>i. (elem (store p) i)\<lparr>object := h i\<rparr>)\<rparr>\<rparr>"

definition live :: "'a ObjectPool \<Rightarrow> nat set" where
  "live p = {i. i < size_of (store p) \<and> \<not> available (elem (store p) i)}"

definition capacity :: "'a ObjectPool \<Rightarrow> nat" where
  "capacity p = size_of (store p)"

text \<open>The invariant between calls: \<open>next_free\<close> names an available block.\<close>

definition pool_ok :: "'a ObjectPool \<Rightarrow> bool" where
  "pool_ok p \<longleftrightarrow> next_free p < size_of (store p) \<and> available (elem (store p) (next_free p))"

lemma objects_set_objects [simp]: "objects (set_objects h p) = h"
  by (simp add: objects_def set_objects_def fun_eq_iff)

lemma set_objects_frame [simp]:
  "live (set_objects h p) = live p"
  "capacity (set_objects h p) = capacity p"
  "pool_ok (set_objects h p) = pool_ok p"
  by (simp_all add: live_def capacity_def pool_ok_def set_objects_def)

lemma live_finite [simp]: "finite (live p)"
  by (rule finite_subset [of _ "{..<size_of (store p)}"]) (auto simp: live_def)

lemma live_bound: "live p \<subseteq> {..<capacity p}"
  by (auto simp: live_def capacity_def)

lemma card_live_le: "card (live p) \<le> capacity p"
  using card_mono [OF _ live_bound [of p]] by simp

section \<open>The scan of \<open>updateNextFree\<close>\<close>

text \<open>
  The scan visits the blocks \<open>(prev + k) mod n\<close> in order. It returns the first available one,
  and stops the process exactly when none of the \<open>n\<close> blocks is available.
\<close>

lemma next_cyclic:
  assumes "nf = (prev + k) mod n" and "prev < n"
  shows "(if Suc nf = n then 0 else Suc nf) = (prev + Suc k) mod n"
  using assms by (simp add: mod_Suc)

lemma cyclic_back:
  fixes prev k n :: nat
  assumes "prev < n" and "Suc k < n"
  shows "(prev + Suc k) mod n \<noteq> prev"
proof (cases "prev + Suc k < n")
  case True
  then show ?thesis by simp
next
  case False
  with assms have "(prev + Suc k) mod n = prev + Suc k - n"
    by (simp add: le_mod_geq mod_if)
  with assms False show ?thesis by simp
qed

lemma updateNextFree_loop_finds:
  assumes "prev < size_of (store p)" and "k \<le> m" and "m < size_of (store p)"
    and "available (elem (store p) ((prev + m) mod size_of (store p)))"
    and "\<forall>j. k \<le> j \<and> j < m \<longrightarrow> \<not> available (elem (store p) ((prev + j) mod size_of (store p)))"
  shows "updateNextFree_loop p prev ((prev + k) mod size_of (store p))
         = ret ((prev + m) mod size_of (store p))"
  using assms(2,5)
proof (induction "m - k" arbitrary: k)
  case 0
  with assms show ?case
    by (subst updateNextFree_loop.simps) simp
next
  case (Suc d)
  let ?n = "size_of (store p)" and ?nf = "(prev + k) mod size_of (store p)"
  from Suc.hyps(2) have km: "k < m" by simp
  have nf: "?nf < ?n" using assms(1) by simp
  have step: "(if Suc ?nf = ?n then 0 else Suc ?nf) = (prev + Suc k) mod ?n"
    using next_cyclic [OF refl assms(1)] .
  have neq: "(prev + Suc k) mod ?n \<noteq> prev"
    using cyclic_back [OF assms(1)] km assms(3) by simp
  have "updateNextFree_loop p prev ?nf = updateNextFree_loop p prev ((prev + Suc k) mod ?n)"
    using Suc.prems km nf neq
    by (subst updateNextFree_loop.simps) (simp only: step Let_def, simp)
  also have "\<dots> = ret ((prev + m) mod ?n)"
    using Suc.hyps(1) [of "Suc k"] Suc.hyps(2) Suc.prems km by simp
  finally show ?case .
qed

lemma updateNextFree_loop_full:
  assumes "prev < size_of (store p)" and "k < size_of (store p)"
    and "\<forall>j < size_of (store p). \<not> available (elem (store p) j)"
  shows "updateNextFree_loop p prev ((prev + k) mod size_of (store p))
         = throw (Assertion ''Buffer is full.'')"
  using assms(2)
proof (induction "size_of (store p) - Suc k" arbitrary: k)
  case 0
  let ?n = "size_of (store p)" and ?nf = "(prev + k) mod size_of (store p)"
  have step: "(if Suc ?nf = ?n then 0 else Suc ?nf) = (prev + Suc k) mod ?n"
    using next_cyclic [OF refl assms(1)] .
  from 0 have "Suc k = ?n" by simp
  then have "(prev + Suc k) mod ?n = prev" using assms(1) by simp
  moreover have "?nf < ?n" using assms(1) by simp
  ultimately show ?case
    using assms(3) by (subst updateNextFree_loop.simps) (simp only: step Let_def, simp)
next
  case (Suc d)
  let ?n = "size_of (store p)" and ?nf = "(prev + k) mod size_of (store p)"
  have step: "(if Suc ?nf = ?n then 0 else Suc ?nf) = (prev + Suc k) mod ?n"
    using next_cyclic [OF refl assms(1)] .
  have "?nf < ?n" using assms(1) by simp
  moreover have "(prev + Suc k) mod ?n \<noteq> prev"
    using cyclic_back [OF assms(1)] Suc.hyps(2) by simp
  ultimately have "updateNextFree_loop p prev ?nf
      = updateNextFree_loop p prev ((prev + Suc k) mod ?n)"
    using assms(3) by (subst updateNextFree_loop.simps) (simp only: step Let_def, simp)
  then show ?case using Suc.hyps(1) [of "Suc k"] Suc.hyps(2) by simp
qed

section \<open>Operations under the invariant\<close>

lemma pool_ok_new [wf_intros]: "0 < n \<Longrightarrow> pool_ok (ObjectPool_new n x)"
  by (simp add: pool_ok_def ObjectPool_new_def)

lemma ObjectPool_new_simps [simp]:
  "live (ObjectPool_new n x) = {}"
  "capacity (ObjectPool_new n x) = n"
  "objects (ObjectPool_new n x) = (\<lambda>_. x)"
  by (simp_all add: live_def capacity_def objects_def ObjectPool_new_def fun_eq_iff)

text \<open>Some block beside the one about to be handed out is free, or none is.\<close>

lemma spare_block_iff:
  assumes "pool_ok p"
  shows "Suc (card (live p)) < capacity p \<longleftrightarrow>
    (\<exists>j < capacity p. j \<noteq> next_free p \<and> available (elem (store p) j))"
proof -
  let ?free = "{..<capacity p} - live p"
  have free: "?free = {j. j < capacity p \<and> available (elem (store p) j)}"
    by (auto simp: live_def capacity_def)
  have nf: "next_free p \<in> ?free"
    using assms by (auto simp: live_def capacity_def pool_ok_def)
  have "card ?free = capacity p - card (live p)"
    by (simp add: card_Diff_subset live_bound)
  moreover have "card ?free = Suc (card (?free - {next_free p}))"
    using nf by (metis card_Suc_Diff1 finite_Diff finite_lessThan)
  ultimately have "Suc (card (live p)) < capacity p \<longleftrightarrow> card (?free - {next_free p}) \<noteq> 0"
    using card_live_le [of p] by arith
  also have "\<dots> \<longleftrightarrow> ?free - {next_free p} \<noteq> {}" by (simp only: card_0_eq finite_Diff finite_lessThan)
  also have "\<dots> \<longleftrightarrow> (\<exists>j < capacity p. j \<noteq> next_free p \<and> available (elem (store p) j))"
    unfolding free by blast
  finally show ?thesis .
qed

lemma first_available:
  fixes prev n :: nat
  assumes "prev < n" and "j < n" and "P j"
  obtains m where "m < n" and "P ((prev + m) mod n)" and "\<forall>k < m. \<not> P ((prev + k) mod n)"
proof -
  let ?Q = "\<lambda>m. P ((prev + m) mod n)" and ?w = "(j + n - prev) mod n"
  have "(prev + ?w) mod n = (prev + (j + n - prev)) mod n" by (rule mod_add_right_eq)
  also have "\<dots> = j" using assms(1,2) by simp
  finally have w: "?Q ?w" using assms(3) by simp
  have "?w < n" using assms(1) by simp
  with w have "(LEAST m. ?Q m) < n" by (meson Least_le order_le_less_trans)
  with w show ?thesis
    using that [of "LEAST m. ?Q m"] LeastI [of ?Q ?w] not_less_Least [of _ ?Q] by blast
qed

lemma getObject_spare:
  assumes "pool_ok p" and "j < capacity p" and "j \<noteq> next_free p"
    and "available (elem (store p) j)"
  shows "\<exists>p'. getObject x p = ret (next_free p, p') \<and> pool_ok p'
    \<and> objects p' = (objects p)(next_free p := x)
    \<and> live p' = insert (next_free p) (live p) \<and> capacity p' = capacity p"
proof -
  let ?i = "next_free p"
  let ?q = "p\<lparr>store := vec_upd ?i \<lparr>object = x, available = False\<rparr> (store p)\<rparr>"
  let ?av = "\<lambda>k. available (elem (store ?q) k)"
  have i: "?i < size_of (store p)" "available (elem (store p) ?i)"
    using assms(1) by (auto simp: pool_ok_def)
  have "?av j" and "j < size_of (store p)" using assms by (auto simp: capacity_def)
  then obtain m where m: "m < size_of (store p)"
    "?av ((?i + m) mod size_of (store p))" "\<forall>k < m. \<not> ?av ((?i + k) mod size_of (store p))"
    using first_available [OF i(1), of j ?av] by blast
  have "updateNextFree_loop ?q ?i ((?i + 0) mod size_of (store ?q))
      = ret ((?i + m) mod size_of (store ?q))"
    by (rule updateNextFree_loop_finds) (use i m in auto)
  then have "updateNextFree_loop ?q ?i ?i = ret ((?i + m) mod size_of (store p))"
    using i(1) by simp
  then have "getObject x p = ret (?i, ?q\<lparr>next_free := (?i + m) mod size_of (store p)\<rparr>)"
    using i by (simp add: getObject_def updateNextFree_def Let_def)
  then show ?thesis
    using i m by (auto simp: pool_ok_def objects_def live_def capacity_def fun_eq_iff)
qed

lemma getObject_full:
  assumes "pool_ok p" and "\<forall>j < capacity p. j \<noteq> next_free p \<longrightarrow> \<not> available (elem (store p) j)"
  shows "getObject x p = throw (Assertion ''Buffer is full.'')"
proof -
  let ?i = "next_free p"
  let ?q = "p\<lparr>store := vec_upd ?i \<lparr>object = x, available = False\<rparr> (store p)\<rparr>"
  have i: "?i < size_of (store p)" "available (elem (store p) ?i)"
    using assms(1) by (auto simp: pool_ok_def)
  have "updateNextFree_loop ?q ?i ((?i + 0) mod size_of (store ?q))
      = throw (Assertion ''Buffer is full.'')"
    by (rule updateNextFree_loop_full) (use i assms(2) in \<open>auto simp: capacity_def\<close>)
  then show ?thesis
    using i by (simp add: getObject_def updateNextFree_def Let_def)
qed

lemma getObject_room:
  assumes "pool_ok p" and "Suc (card (live p)) < capacity p"
  shows "\<exists>i p'. getObject x p = ret (i, p')"
  using assms spare_block_iff getObject_spare by metis

lemma getObject_ret:
  assumes "pool_ok p" and "getObject x p = ret (i, p')"
  shows "pool_ok p' \<and> i \<notin> live p \<and> live p' = insert i (live p)
    \<and> objects p' = (objects p)(i := x) \<and> capacity p' = capacity p"
proof (cases "\<exists>j < capacity p. j \<noteq> next_free p \<and> available (elem (store p) j)")
  case True
  then show ?thesis
    using assms getObject_spare [OF assms(1), of _ x] by (fastforce simp: live_def pool_ok_def)
next
  case False
  then have "getObject x p = throw (Assertion ''Buffer is full.'')"
    using getObject_full [OF assms(1)] by blast
  then show ?thesis using assms(2) by simp
qed

lemma releaseObject_live:
  assumes "pool_ok p" and "i \<in> live p"
  shows "\<exists>p'. releaseObject i p = ret p' \<and> pool_ok p' \<and> live p' = live p - {i}
    \<and> objects p' = objects p \<and> capacity p' = capacity p"
  using assms
  by (auto simp: releaseObject_def live_def pool_ok_def objects_def capacity_def fun_eq_iff)

section \<open>The allocator contract\<close>

text \<open>A client that constructs several objects one after the other.\<close>

fun get_all :: "('a \<Rightarrow> 'p \<Rightarrow> (nat \<times> 'p) outcome) \<Rightarrow> 'a list \<Rightarrow> 'p \<Rightarrow> (nat list \<times> 'p) outcome" where
  "get_all get [] p = ret ([], p)"
| "get_all get (x # xs) p =
     obind (get x p) (\<lambda>(i, p'). obind (get_all get xs p') (\<lambda>(is, p''). ret (i # is, p'')))"

locale allocator =
  fixes get :: "'a \<Rightarrow> 'p \<Rightarrow> (nat \<times> 'p) outcome"
    and release :: "nat \<Rightarrow> 'p \<Rightarrow> 'p outcome"
    and mem :: "'p \<Rightarrow> nat \<Rightarrow> 'a"
    and used :: "'p \<Rightarrow> nat set"
    and cap :: "'p \<Rightarrow> nat"
    and ok :: "'p \<Rightarrow> bool"
  assumes used_finite: "finite (used p)"
    and get_returns: "ok p \<Longrightarrow> Suc (card (used p)) < cap p \<Longrightarrow> \<exists>i p'. get x p = ret (i, p')"
    and get_effect: "ok p \<Longrightarrow> get x p = ret (i, p') \<Longrightarrow>
      ok p' \<and> i \<notin> used p \<and> used p' = insert i (used p) \<and> mem p' = (mem p)(i := x) \<and> cap p' = cap p"
    and release_effect: "ok p \<Longrightarrow> i \<in> used p \<Longrightarrow>
      \<exists>p'. release i p = ret p' \<and> ok p' \<and> used p' = used p - {i} \<and> mem p' = mem p \<and> cap p' = cap p"
begin

lemma get_all_effect:
  assumes "ok p" and "card (used p) + length xs < cap p"
  shows "\<exists>is p'. get_all get xs p = ret (is, p') \<and> ok p' \<and> distinct is
    \<and> set is \<inter> used p = {} \<and> used p' = used p \<union> set is \<and> map (mem p') is = xs
    \<and> (\<forall>j. j \<notin> set is \<longrightarrow> mem p' j = mem p j) \<and> cap p' = cap p"
  using assms
proof (induction xs arbitrary: p)
  case Nil
  then show ?case by simp
next
  case (Cons x xs)
  from Cons.prems obtain i q where g: "get x p = ret (i, q)"
    using get_returns [of p x] by auto
  have q: "ok q" "i \<notin> used p" "used q = insert i (used p)" "mem q = (mem p)(i := x)" "cap q = cap p"
    using get_effect [OF Cons.prems(1) g] by auto
  have "card (used q) + length xs < cap q"
    using Cons.prems(2) q used_finite by simp
  then obtain "is" p' where r: "get_all get xs q = ret (is, p')" "ok p'" "distinct is"
    "set is \<inter> used q = {}" "used p' = used q \<union> set is" "map (mem p') is = xs"
    "\<forall>j. j \<notin> set is \<longrightarrow> mem p' j = mem q j" "cap p' = cap q"
    using Cons.IH [OF q(1)] by blast
  have "i \<notin> set is" using r(4) q(3) by auto
  with r q g show ?case by auto
qed

lemma get_release:
  assumes "ok p" and "get x p = ret (i, p')"
  shows "\<exists>p''. release i p' = ret p'' \<and> ok p'' \<and> used p'' = used p \<and> cap p'' = cap p"
proof -
  note g = get_effect [OF assms]
  then obtain p'' where "release i p' = ret p'' \<and> ok p'' \<and> used p'' = used p' - {i} \<and> cap p'' = cap p'"
    using release_effect [of p' i] by auto
  with g show ?thesis by (intro exI [of _ p'']) auto
qed

end

interpretation pool: allocator getObject releaseObject objects live capacity pool_ok
  by unfold_locales (simp, rule getObject_room, assumption+, erule (1) getObject_ret,
    erule (1) releaseObject_live)

section \<open>Properties\<close>

text \<open>
  C17. Objects constructed one after the other are distinct, were not in use before, hold the values
  they were constructed with and leave every other object of the pool alone, as long as at
  least one block stays free.
\<close>

theorem pool_objects_distinct:
  assumes "pool_ok p" and "card (live p) + length xs < capacity p"
  shows "\<exists>is p'. get_all getObject xs p = ret (is, p') \<and> pool_ok p' \<and> distinct is
    \<and> set is \<inter> live p = {} \<and> live p' = live p \<union> set is \<and> map (objects p') is = xs
    \<and> (\<forall>j. j \<notin> set is \<longrightarrow> objects p' j = objects p j) \<and> capacity p' = capacity p"
  by (rule pool.get_all_effect [OF assms])

theorem pool_objects_distinct_witness:
  "\<exists>is p'. get_all getObject [10, 20 :: nat] (ObjectPool_new 3 0) = ret (is, p') \<and> distinct is
     \<and> map (objects p') is = [10, 20]"
  using pool_objects_distinct [of "ObjectPool_new 3 (0 :: nat)" "[10, 20]"] pool_ok_new [of 3 "0 :: nat"] by auto

text \<open>
  C18. A pool of \<open>n\<close> blocks serves \<open>n - 1\<close> objects: handing out the last free block stops the
  process, because the search for the next free block then finds none. \<open>getObject\<close> always
  ends, one way or the other.
\<close>

theorem pool_last_block_refused:
  assumes "pool_ok p"
  shows "(Suc (card (live p)) < capacity p \<longrightarrow> (\<exists>i p'. getObject x p = ret (i, p')))
    \<and> (Suc (card (live p)) = capacity p \<longrightarrow> getObject x p = throw (Assertion ''Buffer is full.''))"
  using getObject_room [OF assms] getObject_full [OF assms, of x] spare_block_iff [OF assms]
  by (metis less_irrefl)

theorem pool_last_block_refused_witness:
  "getObject 5 (ObjectPool_new 1 (0 :: nat)) = throw (Assertion ''Buffer is full.'')"
  using pool_last_block_refused [OF pool_ok_new [of 1 "0 :: nat"]] by simp

text \<open>
  Releasing an object just obtained gives the pool its blocks back; releasing it twice is
  caught by the assertion.
\<close>

theorem pool_release_returns_block:
  assumes "pool_ok p" and "getObject x p = ret (i, p')"
  shows "\<exists>p''. releaseObject i p' = ret p'' \<and> pool_ok p'' \<and> live p'' = live p
    \<and> releaseObject i p'' = throw (Assertion ''Attempting to free an already available ObjectBlock.'')"
proof -
  obtain p'' where p'': "releaseObject i p' = ret p''" "pool_ok p''" "live p'' = live p" "capacity p'' = capacity p"
    using pool.get_release [OF assms] by blast
  have i: "i \<in> live p'" "i \<notin> live p" "capacity p' = capacity p"
    using pool.get_effect [OF assms] by simp_all
  then have "i < size_of (store p'')"
    using p''(4) live_bound [of p'] unfolding capacity_def by fastforce
  moreover from this have "available (elem (store p'') i)"
    using i(2) p''(3) unfolding live_def by blast
  ultimately show ?thesis using p'' by (simp add: releaseObject_def)
qed

theorem pool_release_returns_block_witness:
  "\<exists>i p' p''. getObject (5 :: nat) (ObjectPool_new 3 0) = ret (i, p') \<and> releaseObject i p' = ret p'' \<and> live p'' = {}"
proof -
  have ok: "pool_ok (ObjectPool_new 3 (0 :: nat))" by (rule pool_ok_new) simp
  have "Suc (card (live (ObjectPool_new 3 (0 :: nat)))) < capacity (ObjectPool_new 3 (0 :: nat))" by simp
  then obtain i p' where g: "getObject (5 :: nat) (ObjectPool_new 3 0) = ret (i, p')"
    using getObject_room [OF ok, of 5] by blast
  from pool_release_returns_block [OF ok g] obtain p'' where
    "releaseObject i p' = ret p''" "live p'' = live (ObjectPool_new 3 (0 :: nat))" by blast
  with g show ?thesis by (intro exI [of _ i] exI [of _ p'] exI [of _ p'']) simp
qed

end
