(* ===== verification/Exchange_Types.thy ===== *)
theory Exchange_Types
  imports Exchange_Prelude
begin

text \<open>
  The integer types, the invalid values and the size constants of
  \<open>include/cppexchange/typedefs.h\<close>, \<open>include/cppexchange/constants.h\<close> and
  \<open>include/utils/time_utils.h\<close>. Identifiers and quantities are 32-bit words, prices 64-bit
  words; a time stamp (\<open>long long\<close>) is only read and compared, and is an \<open>int\<close>.
\<close>

type_synonym TickerIdT = "32 word"
type_synonym OrderIdT = "32 word"
type_synonym TradeIdT = "32 word"
type_synonym ClientIdT = "32 word"
type_synonym QuantityT = "32 word"
type_synonym PriceT = "64 word"
type_synonym NsTimestampT = int

definition TickerId_INVALID :: TickerIdT where "TickerId_INVALID = 4294967295"
definition OrderId_INVALID :: OrderIdT where "OrderId_INVALID = 4294967295"
definition TradeId_INVALID :: TradeIdT where "TradeId_INVALID = 4294967295"
definition ClientId_INVALID :: ClientIdT where "ClientId_INVALID = 4294967295"
definition NsTimestamp_INVALID :: NsTimestampT where "NsTimestamp_INVALID = 2 ^ 63 - 1"
definition Quantity_INVALID :: QuantityT where "Quantity_INVALID = 4294967295"
definition Price_INVALID :: PriceT where "Price_INVALID = 18446744073709551615"

definition MAX_NUM_CLIENTS :: nat where "MAX_NUM_CLIENTS = 256"
definition MAX_TICKERS :: nat where "MAX_TICKERS = 16"
definition MAX_ORDER_IDS :: nat where "MAX_ORDER_IDS = 2 ^ 23"
definition MAX_PRICE_LEVELS :: nat where "MAX_PRICE_LEVELS = 128 * 1024"
definition UPDATES_QUEUE_SIZE :: nat where "UPDATES_QUEUE_SIZE = 2 ^ 23"
definition REQUESTS_QUEUE_SIZE :: nat where "REQUESTS_QUEUE_SIZE = 2 ^ 23"

lemmas constants =
  MAX_NUM_CLIENTS_def MAX_TICKERS_def MAX_ORDER_IDS_def MAX_PRICE_LEVELS_def
  UPDATES_QUEUE_SIZE_def REQUESTS_QUEUE_SIZE_def

end
