(* ===== verification/Orders.thy ===== *)
theory Orders
  imports Exchange_Types
begin

text \<open>
  Orders and price levels of \<open>include/cppexchange/order.h\<close>. The orders of a level form a
  circular doubly linked list through the memory \<open>h\<close> of order objects; \<open>top_order\<close> is the
  oldest. \<open>ring h xs\<close> says that the memory holds the circle \<open>xs\<close>; the two list operations of
  the class are shown to append to and to remove from \<open>xs\<close>.
\<close>

section \<open>Data\<close>

datatype OrderSide = Side_INVALID | BUY | SELL

record Order =
  o_previous :: ptr
  o_next :: ptr
  o_ticker_id :: TickerIdT
  o_order_id :: OrderIdT
  o_client_id :: ClientIdT
  o_quantity :: QuantityT
  o_executed :: QuantityT
  o_ns_timestamp :: NsTimestampT
  o_limit_price :: PriceT
  o_side :: OrderSide

definition Order_default :: Order where
  "Order_default =
     \<lparr>o_previous = None, o_next = None, o_ticker_id = TickerId_INVALID,
      o_order_id = OrderId_INVALID, o_client_id = ClientId_INVALID,
      o_quantity = Quantity_INVALID, o_executed = 0, o_ns_timestamp = NsTimestamp_INVALID,
      o_limit_price = Price_INVALID, o_side = Side_INVALID\<rparr>"

definition Order_new ::
  "TickerIdT \<Rightarrow> OrderIdT \<Rightarrow> ClientIdT \<Rightarrow> NsTimestampT \<Rightarrow> OrderSide \<Rightarrow> QuantityT \<Rightarrow> PriceT
    \<Rightarrow> Order" where
  "Order_new ticker_id order_id client_id ns_timestamp side quantity limit_price =
     Order_default\<lparr>o_ticker_id := ticker_id, o_order_id := order_id, o_client_id := client_id,
       o_quantity := quantity, o_ns_timestamp := ns_timestamp, o_limit_price := limit_price,
       o_side := side\<rparr>"

record OrdersPriceLevel =
  next_price_level :: ptr
  price_level :: PriceT
  top_order :: ptr
  l_side :: OrderSide

definition OrdersPriceLevel_default :: OrdersPriceLevel where
  "OrdersPriceLevel_default =
     \<lparr>next_price_level = None, price_level = Price_INVALID, top_order = None,
      l_side = Side_INVALID\<rparr>"

definition OrdersPriceLevel_new :: "OrderSide \<Rightarrow> PriceT \<Rightarrow> ptr \<Rightarrow> OrdersPriceLevel" where
  "OrdersPriceLevel_new side price next =
     OrdersPriceLevel_default\<lparr>next_price_level := next, price_level := price, l_side := side\<rparr>"

section \<open>Operations of a price level\<close>

type_synonym order_memory = "nat \<Rightarrow> Order"

definition upd_next :: "nat \<Rightarrow> ptr \<Rightarrow> order_memory \<Rightarrow> order_memory" where
  "upd_next i p h = h(i := (h i)\<lparr>o_next := p\<rparr>)"

definition upd_prev :: "nat \<Rightarrow> ptr \<Rightarrow> order_memory \<Rightarrow> order_memory" where
  "upd_prev i p h = h(i := (h i)\<lparr>o_previous := p\<rparr>)"

definition setPriceLevel :: "PriceT \<Rightarrow> OrdersPriceLevel \<Rightarrow> OrdersPriceLevel outcome" where
  "setPriceLevel price l =
     obind (ASSERT (top_order l = None)
              ''Attempting to change the price level for existing orders.'')
       (\<lambda>_. ret (l\<lparr>price_level := price\<rparr>))"

definition setNextPriceLevel :: "ptr \<Rightarrow> OrdersPriceLevel \<Rightarrow> OrdersPriceLevel" where
  "setNextPriceLevel new_next_price_level l = l\<lparr>next_price_level := new_next_price_level\<rparr>"

definition OrdersPriceLevel_add ::
  "nat \<Rightarrow> order_memory \<Rightarrow> OrdersPriceLevel \<Rightarrow> (order_memory \<times> OrdersPriceLevel) outcome" where
  "OrdersPriceLevel_add order h l =
     (case top_order l of
        None \<Rightarrow>
          let h1 = upd_next order (Some order) h;
              h2 = upd_prev order (Some order) h1
          in ret (h2, l\<lparr>top_order := Some order, l_side := o_side (h2 order)\<rparr>)
      | Some t \<Rightarrow>
          let h1 = upd_next order (Some t) h;
              h2 = upd_prev order (o_previous (h1 t)) h1
          in obind (deref (o_previous (h2 order))) (\<lambda>last_order.
             let h3 = upd_next last_order (Some order) h2;
                 h4 = upd_prev t (Some order) h3
             in ret (h4, l)))"

partial_function (option) cancel_walk ::
  "OrderIdT \<Rightarrow> order_memory \<Rightarrow> ptr \<Rightarrow> ptr \<Rightarrow> nat outcome" where
  "cancel_walk order_id h tp order =
     obind (deref order) (\<lambda>i.
       if o_order_id (h i) \<noteq> order_id
       then obind (deref tp) (\<lambda>t.
         if order \<noteq> o_previous (h t) then cancel_walk order_id h tp (o_next (h i)) else ret i)
       else ret i)"

declare cancel_walk.simps [code]

definition OrdersPriceLevel_cancel ::
  "OrderIdT \<Rightarrow> order_memory \<Rightarrow> OrdersPriceLevel
    \<Rightarrow> (ptr \<times> order_memory \<times> OrdersPriceLevel) outcome" where
  "OrdersPriceLevel_cancel order_id h l =
     obind (cancel_walk order_id h (top_order l) (top_order l)) (\<lambda>order.
       if o_order_id (h order) = order_id then
         obind (deref (o_previous (h order))) (\<lambda>p.
         let h1 = upd_next p (o_next (h order)) h in
         obind (deref (o_next (h1 order))) (\<lambda>n.
         let h2 = upd_prev n (o_previous (h1 order)) h1;
             l' = (if top_order l = Some order
                   then if o_next (h2 order) = Some order then l\<lparr>top_order := None\<rparr>
                        else l\<lparr>top_order := o_next (h2 order)\<rparr>
                   else l);
             h3 = upd_prev order None h2;
             h4 = upd_next order None h3
         in ret (Some order, h4, l')))
       else ret (None, h, l))"

section \<open>Circular lists in memory\<close>

text \<open>Consecutive elements of \<open>xs\<close> point at each other.\<close>

fun links :: "order_memory \<Rightarrow> nat list \<Rightarrow> bool" where
  "links h (a # b # xs) \<longleftrightarrow>
     o_next (h a) = Some b \<and> o_previous (h b) = Some a \<and> links h (b # xs)"
| "links h _ \<longleftrightarrow> True"

definition ring :: "order_memory \<Rightarrow> nat list \<Rightarrow> bool" where
  "ring h xs \<longleftrightarrow> xs \<noteq> [] \<and> distinct xs \<and> links h (xs @ [hd xs])"

definition level_rep :: "order_memory \<Rightarrow> OrdersPriceLevel \<Rightarrow> nat list \<Rightarrow> bool" where
  "level_rep h l xs \<longleftrightarrow>
     (if xs = [] then top_order l = None else top_order l = Some (hd xs) \<and> ring h xs)"

text \<open>An order without its links.\<close>

definition payload :: "Order \<Rightarrow> Order" where
  "payload ord = ord\<lparr>o_previous := None, o_next := None\<rparr>"

lemma payload_sel [simp]:
  "o_ticker_id (payload ord) = o_ticker_id ord"
  "o_order_id (payload ord) = o_order_id ord"
  "o_client_id (payload ord) = o_client_id ord"
  "o_quantity (payload ord) = o_quantity ord"
  "o_executed (payload ord) = o_executed ord"
  "o_ns_timestamp (payload ord) = o_ns_timestamp ord"
  "o_limit_price (payload ord) = o_limit_price ord"
  "o_side (payload ord) = o_side ord"
  by (simp_all add: payload_def)

lemma upd_apply [simp]:
  "upd_next i p h j = (if j = i then (h i)\<lparr>o_next := p\<rparr> else h j)"
  "upd_prev i p h j = (if j = i then (h i)\<lparr>o_previous := p\<rparr> else h j)"
  by (simp_all add: upd_next_def upd_prev_def)

lemma payload_upd [simp]:
  "payload (ord\<lparr>o_next := p\<rparr>) = payload ord"
  "payload (ord\<lparr>o_previous := p\<rparr>) = payload ord"
  "payload (upd_next i p h j) = payload (h j)"
  "payload (upd_prev i p h j) = payload (h j)"
  by (simp_all add: payload_def)

lemma payload_eqD:
  assumes "payload a = payload b"
  shows "o_order_id a = o_order_id b" "o_quantity a = o_quantity b"
    "o_limit_price a = o_limit_price b" "o_side a = o_side b" "o_client_id a = o_client_id b"
  by (metis assms payload_sel(2), metis assms payload_sel(4), metis assms payload_sel(7),
      metis assms payload_sel(8), metis assms payload_sel(3))

lemma links_append:
  "links h (xs @ a # ys) \<longleftrightarrow> links h (xs @ [a]) \<and> links h (a # ys)"
  by (induction h xs rule: links.induct) auto

lemma links_cong:
  assumes "\<And>a. a \<in> set (butlast xs) \<Longrightarrow> o_next (h' a) = o_next (h a)"
    and "\<And>a. a \<in> set (tl xs) \<Longrightarrow> o_previous (h' a) = o_previous (h a)"
  shows "links h' xs \<longleftrightarrow> links h xs"
  using assms
  by (induction h xs rule: links.induct) auto

lemma ring_rotate: "ring h (xs @ ys) \<Longrightarrow> ring h (ys @ xs)"
proof (cases xs; cases ys)
  fix a xs' b ys'
  assume "ring h (xs @ ys)" and "xs = a # xs'" and "ys = b # ys'"
  then show "ring h (ys @ xs)"
    using links_append [of h "a # xs'" b "ys' @ [a]"] links_append [of h "b # ys'" a "xs' @ [b]"]
    by (auto simp: ring_def)
qed auto

lemma ring_cong:
  assumes "\<And>a. a \<in> set xs \<Longrightarrow> o_next (h' a) = o_next (h a) \<and> o_previous (h' a) = o_previous (h a)"
  shows "ring h' xs \<longleftrightarrow> ring h xs"
proof (cases xs)
  case (Cons x ys)
  have "links h' (xs @ [hd xs]) \<longleftrightarrow> links h (xs @ [hd xs])"
    by (rule links_cong) (use assms Cons in auto)
  then show ?thesis by (simp add: ring_def)
qed (simp add: ring_def)

lemma level_rep_cong:
  assumes "\<And>a. a \<in> set xs \<Longrightarrow> o_next (h' a) = o_next (h a) \<and> o_previous (h' a) = o_previous (h a)"
    and "top_order l' = top_order l"
  shows "level_rep h' l' xs \<longleftrightarrow> level_rep h l xs"
  using ring_cong [of xs h' h] assms by (simp add: level_rep_def)

section \<open>Adding an order appends it\<close>

lemma ring_neighbours:
  assumes "ring h (a # xs)"
  shows "o_previous (h a) = Some (last (a # xs))"
    and "o_next (h a) = Some (hd (xs @ [a]))"
proof -
  show "o_next (h a) = Some (hd (xs @ [a]))"
    using assms by (cases xs) (auto simp: ring_def)
  show "o_previous (h a) = Some (last (a # xs))"
  proof (cases xs rule: rev_cases)
    case Nil
    then show ?thesis using assms by (simp add: ring_def)
  next
    case (snoc ys b)
    then show ?thesis
      using assms links_append [of h "a # ys" b "[a]"] by (simp add: ring_def)
  qed
qed

lemma ring_insert:
  assumes "ring h (t # xs)" and "i \<notin> set (t # xs)" and "b = last (t # xs)"
    and "o_next (h' i) = Some t" and "o_previous (h' i) = Some b"
    and "o_next (h' b) = Some i" and "o_previous (h' t) = Some i"
    and "\<And>a. a \<in> set (t # xs) \<Longrightarrow> a \<noteq> b \<Longrightarrow> o_next (h' a) = o_next (h a)"
    and "\<And>a. a \<in> set (t # xs) \<Longrightarrow> a \<noteq> t \<Longrightarrow> o_previous (h' a) = o_previous (h a)"
  shows "ring h' (t # xs @ [i])"
proof (cases xs rule: rev_cases)
  case Nil
  then show ?thesis using assms by (auto simp: ring_def)
next
  case (snoc ys c)
  with assms(3) have bc: "b = c" by simp
  have "links h (t # ys @ [c])"
    using assms(1) snoc links_append [of h "t # ys" c "[t]"] by (simp add: ring_def)
  moreover have "links h' (t # ys @ [c]) \<longleftrightarrow> links h (t # ys @ [c])"
    by (rule links_cong) (use assms(1,8,9) snoc bc in \<open>auto simp: ring_def\<close>)
  ultimately have "links h' (t # ys @ [c])" by simp
  then show ?thesis
    using assms snoc bc links_append [of h' "t # ys" c "[i, t]"] by (auto simp: ring_def)
qed

lemma OrdersPriceLevel_add_rep:
  assumes "level_rep h l xs" and "i \<notin> set xs"
  shows "\<exists>h' l'. OrdersPriceLevel_add i h l = ret (h', l') \<and> level_rep h' l' (xs @ [i])
    \<and> (\<forall>j. payload (h' j) = payload (h j)) \<and> (\<forall>j. j \<notin> set xs \<and> j \<noteq> i \<longrightarrow> h' j = h j)
    \<and> l' = (if xs = [] then l\<lparr>top_order := Some i, l_side := o_side (h i)\<rparr> else l)"
proof (cases xs)
  case Nil
  then show ?thesis
    using assms by (auto simp: OrdersPriceLevel_add_def level_rep_def ring_def Let_def)
next
  case (Cons t ys)
  let ?b = "last (t # ys)"
  have top: "top_order l = Some t" and r: "ring h (t # ys)"
    using assms(1) Cons by (auto simp: level_rep_def)
  have it: "i \<noteq> t" and ib: "i \<noteq> ?b" using assms(2) Cons last_in_set [of "t # ys"] by auto
  let ?h = "upd_prev t (Some i) (upd_next ?b (Some i)
              (upd_prev i (Some ?b) (upd_next i (Some t) h)))"
  have prev: "o_previous (h t) = Some ?b" using ring_neighbours(1) [OF r] .
  have add: "OrdersPriceLevel_add i h l = ret (?h, l)"
    using it prev by (simp add: OrdersPriceLevel_add_def top Let_def)
  have "ring ?h (t # ys @ [i])"
    by (rule ring_insert [OF r _ refl]) (use assms(2) Cons it ib in auto)
  moreover have "?b \<in> set xs" and "t \<in> set xs" using Cons last_in_set [of "t # ys"] by auto
  ultimately show ?thesis
    using add Cons top by (auto simp: level_rep_def)
qed

section \<open>Cancelling removes the first order with the identifier\<close>

lemma cancel_walk_finds:
  assumes "ring h xs" and "xs = ys @ zs" and "zs \<noteq> []"
  shows "cancel_walk oid h (Some (hd xs)) (Some (hd zs))
    = ret (case List.find (\<lambda>i. o_order_id (h i) = oid) zs of Some i \<Rightarrow> i | None \<Rightarrow> last zs)"
  using assms(2,3)
proof (induction zs arbitrary: ys)
  case (Cons a zs)
  have prev: "o_previous (h (hd xs)) = Some (last xs)"
    using assms(1) ring_neighbours(1) [of h "hd xs" "tl xs"] Cons.prems by (cases xs) auto
  show ?case
  proof (cases "o_order_id (h a) = oid")
    case True
    then show ?thesis by (simp add: cancel_walk.simps)
  next
    case neq: False
    show ?thesis
    proof (cases zs)
      case Nil
      with Cons.prems have "last xs = a" by simp
      with neq Nil prev show ?thesis by (subst cancel_walk.simps) simp
    next
      case (Cons b cs)
      have "a \<noteq> last xs"
        using assms(1) \<open>xs = ys @ a # zs\<close> Cons by (auto simp: ring_def)
      moreover have "o_next (h a) = Some b"
        using ring_neighbours(2) [of h a "zs @ ys"] ring_rotate [of h ys "a # zs"] assms(1)
          \<open>xs = ys @ a # zs\<close> Cons by simp
      ultimately have "cancel_walk oid h (Some (hd xs)) (Some a)
          = cancel_walk oid h (Some (hd xs)) (Some b)"
        using neq prev by (subst cancel_walk.simps) simp
      with Cons.IH [of "ys @ [a]"] Cons.prems Cons neq show ?thesis
        by (simp split: option.split)
    qed
  qed
qed simp

lemma ring_delete_head:
  assumes "ring h (a # xs)" and "xs \<noteq> []"
    and "\<And>i. o_next (h' i) = (if i = a then None else if i = last xs then Some (hd xs) else o_next (h i))"
    and "\<And>i. o_previous (h' i) = (if i = a then None else if i = hd xs then Some (last xs) else o_previous (h i))"
  shows "ring h' xs"
proof (cases xs rule: rev_cases)
  case (snoc ys c)
  have ne: "last xs \<noteq> a" "hd xs \<noteq> a" "a \<notin> set xs" "distinct xs"
    using assms(1,2) by (auto simp: ring_def)
  have "links h (xs @ [a])"
    using assms(1,2) by (cases xs) (auto simp: ring_def)
  then have "links h (ys @ [c])"
    using snoc links_append [of h ys c "[a]"] by simp
  moreover have "links h' (ys @ [c]) \<longleftrightarrow> links h (ys @ [c])"
  proof (rule links_cong)
    fix b assume "b \<in> set (butlast (ys @ [c]))"
    then show "o_next (h' b) = o_next (h b)" using ne snoc assms(3) by auto
  next
    fix b assume "b \<in> set (tl (ys @ [c]))"
    then show "o_previous (h' b) = o_previous (h b)"
      using ne snoc assms(4) by (cases ys) auto
  qed
  ultimately have "links h' (ys @ [c])" by simp
  moreover have "o_next (h' c) = Some (hd xs)" "o_previous (h' (hd xs)) = Some c"
    using assms(3,4) ne snoc by auto
  ultimately have "links h' (xs @ [hd xs])"
    using snoc links_append [of h' ys c "[hd xs]"] by simp
  then show ?thesis using ne assms(2) by (simp add: ring_def)
qed (use assms in simp)

text \<open>The circle after \<open>cancel\<close> unlinked \<open>a\<close>, and what happens to the level's top.\<close>

lemma cancel_unlinks:
  assumes "level_rep h l (ys @ a # zs)" and "o_order_id (h a) = oid"
    and "cancel_walk oid h (top_order l) (top_order l) = ret a"
  shows "\<exists>h' l'. OrdersPriceLevel_cancel oid h l = ret (Some a, h', l') \<and> level_rep h' l' (ys @ zs)
    \<and> (\<forall>j. payload (h' j) = payload (h j)) \<and> (\<forall>j. j \<notin> set (ys @ a # zs) \<longrightarrow> h' j = h j)
    \<and> l' = l\<lparr>top_order := top_order l'\<rparr>"
proof -
  let ?xs = "ys @ a # zs" and ?r = "zs @ ys"
  have r: "ring h ?xs" and top: "top_order l = Some (hd ?xs)"
    using assms(1) by (auto simp: level_rep_def)
  have rot: "ring h (a # ?r)" using ring_rotate [OF r] by simp
  have prev: "o_previous (h a) = Some (last (a # ?r))" and nxt: "o_next (h a) = Some (hd (?r @ [a]))"
    using ring_neighbours [OF rot] by auto
  have dist: "a \<notin> set ?r" using rot by (simp add: ring_def)
  show ?thesis
  proof (cases "?r = []")
    case True
    then show ?thesis
      using assms(2,3) prev nxt top
      by (auto simp: OrdersPriceLevel_cancel_def level_rep_def Let_def)
  next
    case False
    define p where "p = last ?r"
    define n where "n = hd ?r"
    have pn: "p \<in> set ?r" "n \<in> set ?r"
      unfolding p_def n_def by (rule last_in_set [OF False], rule hd_in_set [OF False])
    have "last (a # ?r) = p" "hd (?r @ [a]) = n"
      unfolding p_def n_def by (simp_all only: last_ConsR [OF False] hd_append if_not_P [OF False])
    with prev nxt have ends: "o_previous (h a) = Some p" "o_next (h a) = Some n" by simp_all
    let ?h = "upd_next a None (upd_prev a None (upd_prev n (Some p) (upd_next p (Some n) h)))"
    let ?l = "if top_order l = Some a then l\<lparr>top_order := Some n\<rparr> else l"
    have ap: "a \<noteq> p" "a \<noteq> n" using pn dist by auto
    have "OrdersPriceLevel_cancel oid h l = ret (Some a, ?h, ?l)"
      using assms(2,3) ends ap by (simp add: OrdersPriceLevel_cancel_def Let_def)
    moreover have "ring ?h ?r"
      by (rule ring_delete_head [OF rot False]) (use ap in \<open>auto simp: p_def n_def\<close>)
    then have "ring ?h (ys @ zs)" by (rule ring_rotate)
    then have "level_rep ?h ?l (ys @ zs)"
      using top False dist n_def by (cases ys) (auto simp: level_rep_def)
    moreover have "\<forall>j. j \<notin> set ?xs \<longrightarrow> ?h j = h j" using pn by auto
    ultimately show ?thesis by (intro exI [of _ ?h] exI [of _ ?l]) simp
  qed
qed

lemma OrdersPriceLevel_cancel_found:
  assumes "level_rep h l (ys @ a # zs)" and "o_order_id (h a) = oid"
    and "\<forall>y \<in> set ys. o_order_id (h y) \<noteq> oid"
  shows "\<exists>h' l'. OrdersPriceLevel_cancel oid h l = ret (Some a, h', l') \<and> level_rep h' l' (ys @ zs)
    \<and> (\<forall>j. payload (h' j) = payload (h j)) \<and> (\<forall>j. j \<notin> set (ys @ a # zs) \<longrightarrow> h' j = h j)
    \<and> l' = l\<lparr>top_order := top_order l'\<rparr>"
proof (rule cancel_unlinks [OF assms(1,2)])
  have r: "ring h (ys @ a # zs)" and top: "top_order l = Some (hd (ys @ a # zs))"
    using assms(1) by (auto simp: level_rep_def)
  have "List.find (\<lambda>i. o_order_id (h i) = oid) (ys @ a # zs) = Some a"
    using assms(2,3) by (induction ys) auto
  then show "cancel_walk oid h (top_order l) (top_order l) = ret a"
    using cancel_walk_finds [OF r, of "[]" "ys @ a # zs" oid] top by simp
qed

lemma OrdersPriceLevel_cancel_missing:
  assumes "level_rep h l xs" and "xs \<noteq> []" and "\<forall>y \<in> set xs. o_order_id (h y) \<noteq> oid"
  shows "OrdersPriceLevel_cancel oid h l = ret (None, h, l)"
proof -
  have r: "ring h xs" and top: "top_order l = Some (hd xs)"
    using assms(1,2) by (auto simp: level_rep_def)
  have "List.find (\<lambda>i. o_order_id (h i) = oid) xs = None"
    using assms(3) by (simp add: find_None_iff)
  then have "cancel_walk oid h (top_order l) (top_order l) = ret (last xs)"
    using cancel_walk_finds [OF r, of "[]" xs oid] top assms(2) by simp
  moreover have "last xs \<in> set xs" using assms(2) by simp
  ultimately show ?thesis
    using assms(3) by (simp add: OrdersPriceLevel_cancel_def)
qed

lemma OrdersPriceLevel_cancel_empty:
  "top_order l = None \<Longrightarrow> OrdersPriceLevel_cancel oid h l = throw Null_Dereference"
  by (simp add: OrdersPriceLevel_cancel_def cancel_walk.simps)

section \<open>Properties\<close>

text \<open>
  Adding an order to a price level appends it to the level's circle of orders and changes no
  order apart from its links; the first order also gives the level its side.
\<close>

theorem price_level_add_appends:
  assumes "level_rep h l xs" and "i \<notin> set xs"
  shows "\<exists>h' l'. OrdersPriceLevel_add i h l = ret (h', l') \<and> level_rep h' l' (xs @ [i])
    \<and> (\<forall>j. payload (h' j) = payload (h j)) \<and> (\<forall>j. j \<notin> set xs \<and> j \<noteq> i \<longrightarrow> h' j = h j)
    \<and> l' = (if xs = [] then l\<lparr>top_order := Some i, l_side := o_side (h i)\<rparr> else l)"
  by (rule OrdersPriceLevel_add_rep [OF assms])

theorem price_level_add_appends_witness:
  "\<exists>h' l'. OrdersPriceLevel_add 3 (\<lambda>_. Order_default) OrdersPriceLevel_default = ret (h', l')
     \<and> level_rep h' l' [3]"
  using price_level_add_appends [of "\<lambda>_. Order_default" OrdersPriceLevel_default "[]" 3]
  by (auto simp: level_rep_def OrdersPriceLevel_default_def)

text \<open>
  Cancelling an identifier at a price level takes the oldest order with that identifier out of
  the circle, keeps the order of the others and changes no order apart from its links.
\<close>

theorem price_level_cancel_removes:
  assumes "level_rep h l (ys @ a # zs)" and "o_order_id (h a) = oid"
    and "\<forall>y \<in> set ys. o_order_id (h y) \<noteq> oid"
  shows "\<exists>h' l'. OrdersPriceLevel_cancel oid h l = ret (Some a, h', l') \<and> level_rep h' l' (ys @ zs)
    \<and> (\<forall>j. payload (h' j) = payload (h j)) \<and> (\<forall>j. j \<notin> set (ys @ a # zs) \<longrightarrow> h' j = h j)
    \<and> l' = l\<lparr>top_order := top_order l'\<rparr>"
  by (rule OrdersPriceLevel_cancel_found [OF assms])

theorem price_level_cancel_removes_witness:
  "\<exists>h' l'. OrdersPriceLevel_cancel 8
       ((\<lambda>_. Order_default)(0 := Order_default\<lparr>o_next := Some 1, o_previous := Some 1, o_order_id := 7\<rparr>,
          1 := Order_default\<lparr>o_next := Some 0, o_previous := Some 0, o_order_id := 8\<rparr>))
       (OrdersPriceLevel_default\<lparr>top_order := Some 0\<rparr>) = ret (Some 1, h', l') \<and> level_rep h' l' [0]"
proof -
  let ?h = "(\<lambda>_. Order_default)(0 := Order_default\<lparr>o_next := Some 1, o_previous := Some 1, o_order_id := 7\<rparr>,
      1 := Order_default\<lparr>o_next := Some 0, o_previous := Some 0, o_order_id := 8\<rparr>)"
  let ?l = "OrdersPriceLevel_default\<lparr>top_order := Some 0\<rparr>"
  have "level_rep ?h ?l ([0] @ 1 # [])" by (simp add: level_rep_def ring_def)
  from price_level_cancel_removes [OF this, of 8] show ?thesis by auto
qed

text \<open>
  The search of \<open>cancel\<close> ends: an identifier that the level does not hold leaves orders and
  level as they were. On a level without orders the search reads through a null pointer.
\<close>

theorem price_level_cancel_missing:
  assumes "level_rep h l xs" and "\<forall>y \<in> set xs. o_order_id (h y) \<noteq> oid"
  shows "OrdersPriceLevel_cancel oid h l = (if xs = [] then throw Null_Dereference else ret (None, h, l))"
  using OrdersPriceLevel_cancel_missing [OF assms(1) _ assms(2)] OrdersPriceLevel_cancel_empty [of l oid h] assms(1)
  by (auto simp: level_rep_def)

theorem price_level_cancel_missing_witness:
  "OrdersPriceLevel_cancel 8 (\<lambda>_. Order_default) OrdersPriceLevel_default = throw Null_Dereference"
  using price_level_cancel_missing [of "\<lambda>_. Order_default" OrdersPriceLevel_default "[]" 8]
  by (simp add: level_rep_def OrdersPriceLevel_default_def)

end
