(* ===== verification/LF_Queue.thy ===== *)
theory LF_Queue
  imports Exchange_Prelude
begin

text \<open>
  The single-producer single-consumer ring of \<open>include/communication/lf_queue.h\<close>, each call
  taken as a whole. The ring of \<open>n\<close> slots holds the list \<open>contents\<close>; the locale
  \<open>bounded_fifo\<close> is the queue contract that the book, the exchange and the sequencer rely on,
  with room for \<open>n - 1\<close> items.
\<close>

section \<open>The ring\<close>

record 'a LFQueue =
  data_vec :: "'a vec"
  next_write_index :: nat
  next_read_index :: nat

definition LFQueue_new :: "nat \<Rightarrow> 'a \<Rightarrow> 'a LFQueue" where
  "LFQueue_new n dflt =
     \<lparr>data_vec = vec_new n dflt, next_write_index = 0, next_read_index = 0\<rparr>"

definition lf_empty :: "'a LFQueue \<Rightarrow> bool" where
  "lf_empty q \<longleftrightarrow> next_read_index q = next_write_index q"

text \<open>The two stores of \<open>push\<close>: the item into its slot, then the index.\<close>

definition push_slot :: "'a \<Rightarrow> 'a LFQueue \<Rightarrow> 'a LFQueue" where
  "push_slot item q =
     q\<lparr>data_vec := vec_upd (next_write_index q) item (data_vec q),
       next_write_index := (next_write_index q + 1) mod size_of (data_vec q)\<rparr>"

definition push :: "'a \<Rightarrow> 'a LFQueue \<Rightarrow> 'a LFQueue outcome" where
  "push item q =
     (if next_write_index q < size_of (data_vec q) then ret (push_slot item q)
      else throw Out_Of_Range)"

text \<open>\<open>pop\<close> returns the address of the slot, not a copy of the item.\<close>

definition pop :: "'a LFQueue \<Rightarrow> ptr \<times> 'a LFQueue" where
  "pop q =
     (let item = (if \<not> lf_empty q then Some (next_read_index q) else None) in
      if item \<noteq> None
      then (item, q\<lparr>next_read_index := (next_read_index q + 1) mod size_of (data_vec q)\<rparr>)
      else (item, q))"

section \<open>The list a ring holds\<close>

definition lf_size :: "'a LFQueue \<Rightarrow> nat" where
  "lf_size q = size_of (data_vec q)"

definition lf_length :: "'a LFQueue \<Rightarrow> nat" where
  "lf_length q = (next_write_index q + lf_size q - next_read_index q) mod lf_size q"

definition slot :: "'a LFQueue \<Rightarrow> nat \<Rightarrow> 'a" where
  "slot q i = elem (data_vec q) i"

definition contents :: "'a LFQueue \<Rightarrow> 'a list" where
  "contents q = map (\<lambda>k. slot q ((next_read_index q + k) mod lf_size q)) [0..<lf_length q]"

definition lf_ok :: "'a LFQueue \<Rightarrow> bool" where
  "lf_ok q \<longleftrightarrow> next_read_index q < lf_size q \<and> next_write_index q < lf_size q"

definition room :: "'a LFQueue \<Rightarrow> nat" where
  "room q = lf_size q - 1"

section \<open>Index arithmetic\<close>

lemma offset_inj_less:
  fixes r a b n :: nat
  assumes "a < b" and "b < n"
  shows "(r + a) mod n \<noteq> (r + b) mod n"
proof
  assume "(r + a) mod n = (r + b) mod n"
  then have "n dvd (r + b) - (r + a)"
    using assms(1) by (metis add_left_mono less_imp_le mod_eq_dvd_iff_nat)
  then show False using assms by (simp add: nat_dvd_not_less)
qed

lemma offset_inj:
  fixes r k l n :: nat
  assumes "k < n" and "l < n" and "(r + k) mod n = (r + l) mod n"
  shows "k = l"
  using assms offset_inj_less [of k l n r] offset_inj_less [of l k n r]
  by (metis linorder_neqE_nat)

lemma offset_unique:
  fixes r w l n :: nat
  assumes "r < n" and "w < n"
  shows "(w + n - r) mod n = l \<longleftrightarrow> l < n \<and> w = (r + l) mod n"
proof -
  let ?d = "(w + n - r) mod n"
  have "(r + ?d) mod n = (r + (w + n - r)) mod n" by (rule mod_add_right_eq)
  also have "\<dots> = w" using assms by simp
  finally have d: "(r + ?d) mod n = w" .
  have "?d < n" using assms by simp
  with d show ?thesis using offset_inj [of ?d n l r] by auto
qed

lemma lf_length_eq_iff:
  "lf_ok q \<Longrightarrow> lf_length q = l \<longleftrightarrow>
     l < lf_size q \<and> next_write_index q = (next_read_index q + l) mod lf_size q"
  by (simp add: lf_ok_def lf_length_def offset_unique)

lemma lf_length_less: "lf_ok q \<Longrightarrow> lf_length q < lf_size q"
  using lf_length_eq_iff by blast

lemma write_index_eq:
  "lf_ok q \<Longrightarrow> next_write_index q = (next_read_index q + lf_length q) mod lf_size q"
  using lf_length_eq_iff by blast

lemma lf_empty_iff: "lf_ok q \<Longrightarrow> lf_empty q \<longleftrightarrow> contents q = []"
  using lf_length_eq_iff [of q 0] by (auto simp: lf_empty_def contents_def lf_ok_def)

lemma length_contents [simp]: "length (contents q) = lf_length q"
  by (simp add: contents_def)

section \<open>Calls under the invariant\<close>

lemma lf_new_simps [simp]:
  "contents (LFQueue_new n x) = []"
  "lf_size (LFQueue_new n x) = n"
  "room (LFQueue_new n x) = n - 1"
  "lf_length (LFQueue_new n x) = 0"
  by (simp_all add: contents_def lf_length_def lf_size_def room_def LFQueue_new_def)

lemma lf_ok_new [wf_intros]: "0 < n \<Longrightarrow> lf_ok (LFQueue_new n x)"
  by (simp add: lf_ok_def lf_size_def LFQueue_new_def)

lemma push_slot_frame [simp]:
  "lf_size (push_slot x q) = lf_size q"
  "next_read_index (push_slot x q) = next_read_index q"
  "room (push_slot x q) = room q"
  by (simp_all add: push_slot_def lf_size_def room_def)

lemma lf_ok_push_slot [simp, wf_intros]: "lf_ok q \<Longrightarrow> lf_ok (push_slot x q)"
  by (simp add: lf_ok_def push_slot_def lf_size_def)

lemma push_ok [simp]: "lf_ok q \<Longrightarrow> push x q = ret (push_slot x q)"
  by (simp add: push_def lf_ok_def lf_size_def)

lemma lf_length_push:
  assumes "lf_ok q"
  shows "lf_length (push_slot x q) = Suc (lf_length q) mod lf_size q"
proof -
  have "next_write_index (push_slot x q) = (next_write_index q + 1) mod lf_size q"
    by (simp add: push_slot_def lf_size_def)
  also have "\<dots> = (next_read_index q + Suc (lf_length q) mod lf_size q) mod lf_size q"
    by (simp add: write_index_eq [OF assms] mod_Suc_eq mod_add_right_eq)
  finally show ?thesis
    using assms by (subst lf_length_eq_iff) (auto simp: lf_ok_def)
qed

lemma slot_push_slot: "slot (push_slot x q) i = (if i = next_write_index q then x else slot q i)"
  by (simp add: slot_def push_slot_def)

lemma contents_push:
  assumes "lf_ok q" and "lf_length q < room q"
  shows "contents (push_slot x q) = contents q @ [x]"
proof -
  let ?r = "next_read_index q" and ?n = "lf_size q" and ?l = "lf_length q"
  have l: "Suc ?l < ?n" using assms(2) by (simp add: room_def)
  have "(?r + k) mod ?n \<noteq> next_write_index q" if "k < ?l" for k
    using offset_inj [of k ?n ?l ?r] that l by (auto simp: write_index_eq [OF assms(1)])
  then show ?thesis
    using l by (simp add: contents_def lf_length_push [OF assms(1)] slot_push_slot
        write_index_eq [OF assms(1), symmetric])
qed

text \<open>One push too many makes the ring look empty: every pending item is lost.\<close>

lemma contents_push_full:
  assumes "lf_ok q" and "lf_length q = room q"
  shows "contents (push_slot x q) = []"
proof -
  have "Suc (lf_length q) = lf_size q"
    using assms lf_length_less [OF assms(1)] by (simp add: room_def)
  then show ?thesis by (simp add: contents_def lf_length_push [OF assms(1)])
qed

lemma pop_empty: "lf_ok q \<Longrightarrow> contents q = [] \<Longrightarrow> pop q = (None, q)"
  using lf_empty_iff [of q] by (simp add: pop_def)

lemma pop_nonempty:
  assumes "lf_ok q" and "contents q = x # xs"
  shows "\<exists>q'. pop q = (Some (next_read_index q), q') \<and> lf_ok q' \<and> contents q' = xs
    \<and> slot q' = slot q \<and> slot q' (next_read_index q) = x \<and> lf_size q' = lf_size q
    \<and> lf_length q' < room q' \<and> next_read_index q' = Suc (next_read_index q) mod lf_size q"
proof -
  let ?r = "next_read_index q" and ?n = "lf_size q"
  let ?q = "q\<lparr>next_read_index := (?r + 1) mod size_of (data_vec q)\<rparr>"
  have fr: "lf_size ?q = ?n" "slot ?q = slot q" "next_write_index ?q = next_write_index q"
    "next_read_index ?q = Suc ?r mod ?n" "room ?q = room q"
    by (simp_all add: lf_size_def slot_def fun_eq_iff room_def)
  have ok: "lf_ok ?q" using assms(1) fr by (simp add: lf_ok_def)
  have len: "lf_length q = Suc (length xs)"
    using assms(2) length_contents [of q] by simp
  then have lt: "Suc (length xs) < ?n" using lf_length_less [OF assms(1)] by simp
  have "next_write_index ?q = (Suc ?r mod ?n + length xs) mod ?n"
    using write_index_eq [OF assms(1)] len by (simp add: fr mod_add_left_eq)
  then have len': "lf_length ?q = length xs"
    using lt by (subst lf_length_eq_iff [OF ok]) (simp add: lf_size_def)
  have x: "x = slot q ?r" and xs: "xs = map (\<lambda>k. slot q ((?r + Suc k) mod ?n)) [0..<length xs]"
    using assms unfolding contents_def len upt_conv_Cons [OF zero_less_Suc]
    by (auto simp: lf_ok_def comp_def map_Suc_upt [symmetric] simp del: upt_Suc)
  have "contents ?q = xs"
    unfolding contents_def len' fr by (subst xs, simp add: mod_add_left_eq)
  moreover have "pop q = (Some ?r, ?q)"
    using assms lf_empty_iff [OF assms(1)] by (simp add: pop_def)
  ultimately show ?thesis using ok fr x len' lt by (simp add: room_def)
qed

lemma popped_slot_outside:
  assumes "lf_ok q" and "contents q \<noteq> []" and "pop q = (Some i, q')" and "lf_length q' < room q'"
  shows "next_write_index q' \<noteq> i"
proof -
  obtain x xs where "contents q = x # xs" using assms(2) by (cases "contents q") auto
  note p = pop_nonempty [OF assms(1) this]
  let ?r = "next_read_index q" and ?n = "lf_size q"
  have i: "i = ?r" and ok: "lf_ok q'" and n: "lf_size q' = ?n"
    and r': "next_read_index q' = Suc ?r mod ?n" using p assms(3) by auto
  have lt: "Suc (lf_length q') < ?n" using assms(4) n by (simp add: room_def)
  have w: "next_write_index q' = (?r + Suc (lf_length q')) mod ?n"
    using write_index_eq [OF ok] n r' by (simp add: mod_add_left_eq)
  show ?thesis
    using offset_inj_less [of 0 "Suc (lf_length q')" ?n ?r] lt w i assms(1)
    by (auto simp: lf_ok_def)
qed

section \<open>The queue contract\<close>

text \<open>Clients that push a list, and that pop and copy a number of items.\<close>

fun push_all :: "('a \<Rightarrow> 'q \<Rightarrow> 'q outcome) \<Rightarrow> 'a list \<Rightarrow> 'q \<Rightarrow> 'q outcome" where
  "push_all psh [] q = ret q"
| "push_all psh (x # xs) q = obind (psh x q) (push_all psh xs)"

fun drain :: "('q \<Rightarrow> ptr \<times> 'q) \<Rightarrow> ('q \<Rightarrow> nat \<Rightarrow> 'a) \<Rightarrow> nat \<Rightarrow> 'q \<Rightarrow> 'a list \<times> 'q" where
  "drain pp rd 0 q = ([], q)"
| "drain pp rd (Suc n) q =
     (case pp q of
        (None, q') \<Rightarrow> ([], q')
      | (Some i, q') \<Rightarrow> (let (xs, q'') = drain pp rd n q' in (rd q' i # xs, q'')))"

locale bounded_fifo =
  fixes psh :: "'a \<Rightarrow> 'q \<Rightarrow> 'q outcome"
    and pp :: "'q \<Rightarrow> ptr \<times> 'q"
    and rd :: "'q \<Rightarrow> nat \<Rightarrow> 'a"
    and items :: "'q \<Rightarrow> 'a list"
    and bound :: "'q \<Rightarrow> nat"
    and ok :: "'q \<Rightarrow> bool"
  assumes push_effect: "ok q \<Longrightarrow> length (items q) < bound q \<Longrightarrow>
      \<exists>q'. psh x q = ret q' \<and> ok q' \<and> items q' = items q @ [x] \<and> bound q' = bound q"
    and pop_none: "ok q \<Longrightarrow> items q = [] \<Longrightarrow> pp q = (None, q)"
    and pop_some: "ok q \<Longrightarrow> items q = x # xs \<Longrightarrow>
      \<exists>i q'. pp q = (Some i, q') \<and> ok q' \<and> items q' = xs \<and> rd q' i = x \<and> bound q' = bound q"
begin

lemma push_all_effect:
  assumes "ok q" and "length (items q) + length xs \<le> bound q"
  shows "\<exists>q'. push_all psh xs q = ret q' \<and> ok q' \<and> items q' = items q @ xs \<and> bound q' = bound q"
  using assms
proof (induction xs arbitrary: q)
  case Nil
  then show ?case by simp
next
  case (Cons x xs)
  then obtain q1 where q1: "psh x q = ret q1" "ok q1" "items q1 = items q @ [x]" "bound q1 = bound q"
    using push_effect [of q x] by auto
  then have "length (items q1) + length xs \<le> bound q1" using Cons.prems(2) by simp
  from Cons.IH [OF q1(2) this] q1 show ?case by auto
qed

lemma drain_effect:
  assumes "ok q"
  shows "\<exists>q'. drain pp rd n q = (take n (items q), q') \<and> ok q' \<and> items q' = drop n (items q)
    \<and> bound q' = bound q"
  using assms
proof (induction n arbitrary: q)
  case 0
  then show ?case by simp
next
  case (Suc n)
  show ?case
  proof (cases "items q")
    case Nil
    then show ?thesis using pop_none [OF Suc.prems] Suc.prems by simp
  next
    case (Cons x xs)
    then obtain i q1 where q1: "pp q = (Some i, q1)" "ok q1" "items q1 = xs" "rd q1 i = x"
      "bound q1 = bound q"
      using pop_some [OF Suc.prems Cons] by blast
    then show ?thesis using Suc.IH [OF q1(2)] Cons by auto
  qed
qed

lemma fifo:
  assumes "ok q" and "items q = []" and "length xs \<le> bound q" and "push_all psh xs q = ret q'"
  shows "fst (drain pp rd (length xs) q') = xs \<and> items (snd (drain pp rd (length xs) q')) = []"
proof -
  have "ok q'" and "items q' = xs"
    using push_all_effect [OF assms(1), of xs] assms by auto
  then show ?thesis using drain_effect [of q' "length xs"] by auto
qed

end

interpretation lfq: bounded_fifo push pop slot contents room lf_ok
proof unfold_locales
  fix q :: "'a LFQueue" and x :: 'a
  assume "lf_ok q" and "length (contents q) < room q"
  then show "\<exists>q'. push x q = ret q' \<and> lf_ok q' \<and> contents q' = contents q @ [x] \<and> room q' = room q"
    by (simp add: contents_push)
next
  fix q :: "'a LFQueue"
  assume "lf_ok q" and "contents q = []"
  then show "pop q = (None, q)" by (rule pop_empty)
next
  fix q :: "'a LFQueue" and x xs
  assume "lf_ok q" and "contents q = x # xs"
  then show "\<exists>i q'. pop q = (Some i, q') \<and> lf_ok q' \<and> contents q' = xs \<and> slot q' i = x
      \<and> room q' = room q"
    using pop_nonempty [of q x xs] by (auto simp: room_def)
qed

text \<open>A sequence of pushes as one update of the ring, and what it does when the items fit.\<close>

lemma lf_ok_fold_push [simp, wf_intros]: "lf_ok q \<Longrightarrow> lf_ok (fold push_slot xs q)"
  by (induction xs arbitrary: q) simp_all

lemma fold_push_frame [simp]:
  "lf_size (fold push_slot xs q) = lf_size q"
  "room (fold push_slot xs q) = room q"
  by (induction xs arbitrary: q) simp_all

lemma contents_fold_push:
  "lf_ok q \<Longrightarrow> lf_length q + length xs \<le> room q \<Longrightarrow>
     contents (fold push_slot xs q) = contents q @ xs"
proof (induction xs arbitrary: q)
  case (Cons x xs)
  then have "contents (push_slot x q) = contents q @ [x]" by (simp add: contents_push)
  moreover from this have "lf_length (push_slot x q) = Suc (lf_length q)"
    by (metis length_append_singleton length_contents)
  ultimately show ?case using Cons by simp
qed simp

section \<open>Properties\<close>

text \<open>
  C19. First in, first out: what is pushed into an empty ring, up to one item less than its size,
  is popped in the same order, and the ring is empty again.
\<close>

theorem queue_is_fifo:
  assumes "lf_ok q" and "contents q = []" and "length xs \<le> room q"
  shows "\<exists>q'. push_all push xs q = ret q' \<and> fst (drain pop slot (length xs) q') = xs
    \<and> contents (snd (drain pop slot (length xs) q')) = []"
  using lfq.push_all_effect [OF assms(1), of xs] lfq.fifo [OF assms(1,2,3)] assms(2,3) by auto

theorem queue_is_fifo_witness:
  "\<exists>q'. push_all push [1, 2, 3 :: nat] (LFQueue_new 4 0) = ret q' \<and> fst (drain pop slot 3 q') = [1, 2, 3]"
  using queue_is_fifo [of "LFQueue_new 4 (0 :: nat)" "[1, 2, 3]"] lf_ok_new [of 4 "0 :: nat"]
  by (auto simp: numeral_3_eq_3)

text \<open>
  C20. A ring of \<open>n\<close> slots holds at most \<open>n - 1\<close> items, and one push too many loses all of them:
  the indices coincide and the ring looks empty.
\<close>

theorem queue_overflow_loses_all:
  assumes "lf_ok q" and "lf_length q = room q"
  shows "\<exists>q'. push x q = ret q' \<and> lf_empty q' \<and> pop q' = (None, q')"
proof -
  have "contents (push_slot x q) = []" by (rule contents_push_full [OF assms])
  then show ?thesis using assms(1) lf_empty_iff [of "push_slot x q"] pop_empty [of "push_slot x q"] by simp
qed

theorem queue_overflow_loses_all_witness:
  "\<exists>q'. push 9 (push_slot 7 (LFQueue_new 2 (0 :: nat))) = ret q' \<and> pop q' = (None, q')"
proof -
  let ?q = "LFQueue_new 2 (0 :: nat)"
  have ok: "lf_ok ?q" by (rule lf_ok_new) simp
  have "lf_length (push_slot 7 ?q) = room (push_slot 7 ?q)"
    using lf_length_push [OF ok, of 7] by simp
  from queue_overflow_loses_all [OF lf_ok_push_slot [OF ok] this, of 9] show ?thesis by blast
qed

text \<open>
  The slot whose address \<open>pop\<close> returned keeps its item while fewer than \<open>n - 2\<close> further items
  wait: the next push writes elsewhere. The reader may therefore use the address until then.
\<close>

theorem popped_item_survives_push:
  assumes "lf_ok q" and "contents q = x # xs" and "pop q = (Some i, q')" and "lf_length q' < room q'"
  shows "slot q' i = x \<and> (\<exists>q''. push y q' = ret q'' \<and> slot q'' i = x)"
proof -
  have "contents q \<noteq> []" using assms(2) by simp
  from popped_slot_outside [OF assms(1) this assms(3,4)] have "next_write_index q' \<noteq> i" .
  moreover have "lf_ok q'" "slot q' i = x" using pop_nonempty [OF assms(1,2)] assms(3) by auto
  ultimately show ?thesis by (simp add: slot_push_slot)
qed

theorem popped_item_survives_push_witness:
  "\<exists>i q'. pop (push_slot 7 (LFQueue_new 4 (0 :: nat))) = (Some i, q') \<and> slot q' i = 7"
proof -
  let ?q = "push_slot 7 (LFQueue_new 4 (0 :: nat))"
  have ok: "lf_ok ?q" by (intro lf_ok_push_slot lf_ok_new) simp
  have c: "contents ?q = 7 # []"
    using contents_push [of "LFQueue_new 4 (0 :: nat)" 7] lf_ok_new [of 4 "0 :: nat"] by simp
  from pop_nonempty [OF ok c] obtain i q' where p: "pop ?q = (Some i, q')" "lf_length q' < room q'" by blast
  from popped_item_survives_push [OF ok c p] p(1) show ?thesis by blast
qed

end
