(* ===== verification/Messages.thy ===== *)
theory Messages
  imports Orders LF_Queue
begin

text \<open>
  The messages of \<open>include/cppexchange/messages.h\<close>. Each structure is a record whose fields
  are in the order of the source, so that \<open>.make\<close> is the aggregate initialisation of the
  code; \<open>_default\<close> is the value of the member initialisers.
\<close>

datatype RequestType = RequestType_INVALID | RequestType_ADD | RequestType_CANCEL

record ClientRequest =
  rq_type :: RequestType
  rq_ticker_id :: TickerIdT
  rq_client_id :: ClientIdT
  rq_order_id :: OrderIdT
  rq_side :: OrderSide
  rq_quantity :: QuantityT
  rq_limit_price :: PriceT

definition ClientRequest_default :: ClientRequest where
  "ClientRequest_default =
     ClientRequest.make RequestType_INVALID TickerId_INVALID ClientId_INVALID OrderId_INVALID
       Side_INVALID Quantity_INVALID Price_INVALID"

record MDPClientRequest =
  rq_sequence_number :: nat
  client_request :: ClientRequest

datatype ResponseType =
    ResponseType_INVALID | ResponseType_ACCEPTED | ResponseType_FILLED
  | ResponseType_CANCELED | ResponseType_CANCEL_REJECTED | ResponseType_ERROR

record ClientResponse =
  rs_type :: ResponseType
  rs_ticker_id :: TickerIdT
  rs_client_id :: ClientIdT
  rs_order_id :: OrderIdT
  rs_side :: OrderSide
  rs_quantity :: QuantityT
  rs_price :: PriceT
  rs_ns_timestamp :: NsTimestampT

definition ClientResponse_default :: ClientResponse where
  "ClientResponse_default =
     ClientResponse.make ResponseType_INVALID TickerId_INVALID ClientId_INVALID OrderId_INVALID
       Side_INVALID Quantity_INVALID Price_INVALID NsTimestamp_INVALID"

record MDPClientResponse =
  rs_sequence_number :: nat
  client_response :: ptr

datatype UpdateType =
    UpdateType_INVALID | UpdateType_ADD | UpdateType_MODIFY | UpdateType_REMOVE
  | UpdateType_TRADE

record MarketUpdate =
  mu_type :: UpdateType
  mu_ticker_id :: TickerIdT
  mu_order_id :: OrderIdT
  mu_trade_id :: TradeIdT
  mu_side :: OrderSide
  mu_quantity :: QuantityT
  mu_price :: PriceT
  mu_ns_timestamp :: NsTimestampT

definition MarketUpdate_default :: MarketUpdate where
  "MarketUpdate_default =
     MarketUpdate.make UpdateType_INVALID TickerId_INVALID OrderId_INVALID TradeId_INVALID
       Side_INVALID Quantity_INVALID Price_INVALID NsTimestamp_INVALID"

record MDPMarketUpdate =
  mu_sequence_number :: nat
  market_update :: MarketUpdate

type_synonym ClientRequestLFQueue = "ClientRequest LFQueue"
type_synonym ClientResponseLFQueue = "ClientResponse LFQueue"
type_synonym MarketUpdateLFQueue = "MarketUpdate LFQueue"
type_synonym MDPMarketUpdateLFQueue = "MDPMarketUpdate LFQueue"

end
