(* ===== verification/Order_Book.thy ===== *)
theory Order_Book
  imports Object_Pool Messages
begin

text \<open>
  The order book of \<open>include/cppexchange/orderbook.h\<close>, operation by operation. A \<open>BookState\<close>
  is a book together with what its operations reach through pointers and references: the two
  outgoing queues, the exchange's trade counter and the clock (the \<open>n\<close>-th reading of the
  system clock is \<open>clock n\<close>). This theory holds the model only; the theories that follow it
  relate it to lists.
\<close>

section \<open>State\<close>

record OrderBook =
  ob_ticker_id :: TickerIdT
  order_pool :: "Order ObjectPool"
  price_level_pool :: "OrdersPriceLevel ObjectPool"
  price_levels :: "PriceT \<rightharpoonup> ptr"
  best_bids :: ptr
  best_asks :: ptr

definition OrderBook_new :: "TickerIdT \<Rightarrow> OrderBook" where
  "OrderBook_new ticker_id =
     \<lparr>ob_ticker_id = ticker_id,
      order_pool = ObjectPool_new MAX_ORDER_IDS Order_default,
      price_level_pool = ObjectPool_new MAX_PRICE_LEVELS OrdersPriceLevel_default,
      price_levels = Map.empty, best_bids = None, best_asks = None\<rparr>"

record BookState =
  book :: OrderBook
  client_response_queue :: ClientResponseLFQueue
  market_update_queue :: MarketUpdateLFQueue
  next_trade_id :: TradeIdT
  clock :: "nat \<Rightarrow> NsTimestampT"
  ticks :: nat

section \<open>Clock and queues\<close>

definition getCurrentNsTimestamp :: "BookState \<Rightarrow> NsTimestampT \<times> BookState" where
  "getCurrentNsTimestamp s = (clock s (ticks s), s\<lparr>ticks := Suc (ticks s)\<rparr>)"

definition push_response :: "ClientResponse \<Rightarrow> BookState \<Rightarrow> BookState outcome" where
  "push_response r s =
     obind (push r (client_response_queue s)) (\<lambda>q. ret (s\<lparr>client_response_queue := q\<rparr>))"

definition push_update :: "MarketUpdate \<Rightarrow> BookState \<Rightarrow> BookState outcome" where
  "push_update u s =
     obind (push u (market_update_queue s)) (\<lambda>q. ret (s\<lparr>market_update_queue := q\<rparr>))"

text \<open>A message whose last field is \<open>Utils::getCurrentNsTimestamp()\<close>.\<close>

definition emit_response :: "(NsTimestampT \<Rightarrow> ClientResponse) \<Rightarrow> BookState \<Rightarrow> BookState outcome" where
  "emit_response mk s = (let (ts, s') = getCurrentNsTimestamp s in push_response (mk ts) s')"

definition emit_update :: "(NsTimestampT \<Rightarrow> MarketUpdate) \<Rightarrow> BookState \<Rightarrow> BookState outcome" where
  "emit_update mk s = (let (ts, s') = getCurrentNsTimestamp s in push_update (mk ts) s')"

section \<open>Memory of the book\<close>

definition orders :: "BookState \<Rightarrow> order_memory" where
  "orders s = objects (order_pool (book s))"

definition set_orders :: "order_memory \<Rightarrow> BookState \<Rightarrow> BookState" where
  "set_orders h s = s\<lparr>book := (book s)\<lparr>order_pool := set_objects h (order_pool (book s))\<rparr>\<rparr>"

definition levels :: "BookState \<Rightarrow> nat \<Rightarrow> OrdersPriceLevel" where
  "levels s = objects (price_level_pool (book s))"

definition set_level :: "nat \<Rightarrow> OrdersPriceLevel \<Rightarrow> BookState \<Rightarrow> BookState" where
  "set_level i l s =
     s\<lparr>book := (book s)\<lparr>price_level_pool :=
         set_objects ((levels s)(i := l)) (price_level_pool (book s))\<rparr>\<rparr>"

definition best :: "OrderSide \<Rightarrow> BookState \<Rightarrow> ptr" where
  "best side s = (if side = BUY then best_bids (book s) else best_asks (book s))"

definition set_best :: "OrderSide \<Rightarrow> ptr \<Rightarrow> BookState \<Rightarrow> BookState" where
  "set_best side p s =
     (if side = BUY then s\<lparr>book := (book s)\<lparr>best_bids := p\<rparr>\<rparr>
      else s\<lparr>book := (book s)\<lparr>best_asks := p\<rparr>\<rparr>)"

definition set_price_level :: "PriceT \<Rightarrow> ptr \<Rightarrow> BookState \<Rightarrow> BookState" where
  "set_price_level idx p s =
     s\<lparr>book := (book s)\<lparr>price_levels := (price_levels (book s))(idx \<mapsto> p)\<rparr>\<rparr>"

definition set_level_pool :: "OrdersPriceLevel ObjectPool \<Rightarrow> BookState \<Rightarrow> BookState" where
  "set_level_pool pool s = s\<lparr>book := (book s)\<lparr>price_level_pool := pool\<rparr>\<rparr>"

definition set_order_pool :: "Order ObjectPool \<Rightarrow> BookState \<Rightarrow> BookState" where
  "set_order_pool pool s = s\<lparr>book := (book s)\<lparr>order_pool := pool\<rparr>\<rparr>"

section \<open>Price levels\<close>

definition getPriceLevelIndex :: "PriceT \<Rightarrow> PriceT" where
  "getPriceLevelIndex price = price"

text \<open>\<open>price_levels[idx]\<close> stores a null pointer under a key that is not yet in the map.\<close>

definition index_price_levels :: "PriceT \<Rightarrow> BookState \<Rightarrow> ptr \<times> BookState" where
  "index_price_levels idx s =
     (case price_levels (book s) idx of
        Some p \<Rightarrow> (p, s)
      | None \<Rightarrow> (None, set_price_level idx None s))"

partial_function (option) insert_walk ::
  "OrderSide \<Rightarrow> PriceT \<Rightarrow> (nat \<Rightarrow> OrdersPriceLevel) \<Rightarrow> ptr \<Rightarrow> ptr outcome" where
  "insert_walk side price lh next_level =
     (case next_level of
        None \<Rightarrow> ret None
      | Some i \<Rightarrow>
          if (if side = BUY then price_level (lh i) > price else price_level (lh i) < price)
          then insert_walk side price lh (next_price_level (lh i)) else ret next_level)"

declare insert_walk.simps [code]

definition insertPriceLevel ::
  "PriceT \<Rightarrow> OrderSide \<Rightarrow> PriceT \<Rightarrow> BookState \<Rightarrow> (nat \<times> BookState) outcome" where
  "insertPriceLevel price side price_level_index s =
     (let best_price_level = best side s in
      obind (insert_walk side price (levels s) best_price_level) (\<lambda>next_level.
      obind (getObject (OrdersPriceLevel_new side price next_level) (price_level_pool (book s)))
        (\<lambda>(i, pool').
        let s1 = set_level_pool pool' s;
            s2 = set_price_level price_level_index (Some i) s1;
            s3 = (if next_level = best_price_level then set_best side (Some i) s2 else s2)
        in ret (i, s3))))"

definition getPriceLevel ::
  "PriceT \<Rightarrow> OrderSide \<Rightarrow> bool \<Rightarrow> BookState \<Rightarrow> (ptr \<times> BookState) outcome" where
  "getPriceLevel price side create_if_missing s =
     (let price_level_index = getPriceLevelIndex price;
          (pl, s1) = index_price_levels price_level_index s
      in if pl = None \<and> create_if_missing
         then obind (insertPriceLevel price side price_level_index s1)
                (\<lambda>(i, s2). ret (Some i, s2))
         else ret (pl, s1))"

partial_function (option) remove_walk ::
  "PriceT \<Rightarrow> (nat \<Rightarrow> OrdersPriceLevel) \<Rightarrow> nat \<Rightarrow> nat outcome" where
  "remove_walk price lh prev =
     obind (deref (next_price_level (lh prev))) (\<lambda>n.
       if price_level (lh n) \<noteq> price then remove_walk price lh n else ret prev)"

declare remove_walk.simps [code]

definition removePriceLevel :: "nat \<Rightarrow> BookState \<Rightarrow> BookState outcome" where
  "removePriceLevel i s =
     (let lh = levels s; side = l_side (lh i);
          prev = (if Some i \<noteq> best side s then best side s else None)
      in obind (case prev of
                  None \<Rightarrow> ret (set_best side (next_price_level (lh i)) s)
                | Some p \<Rightarrow>
                    obind (remove_walk (price_level (lh i)) lh p) (\<lambda>p'.
                      ret (set_level p' (setNextPriceLevel (next_price_level (lh i)) (lh p')) s)))
           (\<lambda>s1.
             let s2 = set_price_level (getPriceLevelIndex (price_level (levels s1 i))) None s1
             in obind (releaseObject i (price_level_pool (book s2)))
                  (\<lambda>pool'. ret (set_level_pool pool' s2))))"

section \<open>Matching\<close>

definition cancel_at ::
  "nat \<Rightarrow> OrderIdT \<Rightarrow> BookState \<Rightarrow> (ptr \<times> BookState) outcome" where
  "cancel_at i order_id s =
     obind (OrdersPriceLevel_cancel order_id (orders s) (levels s i))
       (\<lambda>(order, h, l). ret (order, set_level i l (set_orders h s)))"

definition OrderBook_match ::
  "OrderIdT \<Rightarrow> ClientIdT \<Rightarrow> OrderSide \<Rightarrow> QuantityT \<Rightarrow> nat \<Rightarrow> BookState
    \<Rightarrow> (QuantityT \<times> BookState) outcome" where
  "OrderBook_match order_id client_id side quantity opp s =
     (let ticker = ob_ticker_id (book s);
          fill_quantity = min quantity (o_quantity (orders s opp));
          trade_id = next_trade_id s
      in obind (emit_update (MarketUpdate.make UpdateType_TRADE ticker OrderId_INVALID trade_id
                  side fill_quantity (o_limit_price (orders s opp)))
                (s\<lparr>next_trade_id := trade_id + 1\<rparr>)) (\<lambda>s1.
         let s2 = set_orders ((orders s1)(opp := (orders s1 opp)
                    \<lparr>o_quantity := o_quantity (orders s1 opp) - fill_quantity\<rparr>)) s1;
             ord = orders s2 opp
         in obind
              (if o_quantity ord = 0 then
                 obind (emit_update (MarketUpdate.make UpdateType_REMOVE ticker (o_order_id ord)
                          TradeId_INVALID (o_side ord) fill_quantity (o_limit_price ord)) s2)
                   (\<lambda>s3. obind (getPriceLevel (o_limit_price ord) side False s3) (\<lambda>(pl, s4).
                     obind (deref pl) (\<lambda>i.
                     obind (cancel_at i (o_order_id ord) s4) (\<lambda>(_, s5). ret s5))))
               else
                 emit_update (MarketUpdate.make UpdateType_MODIFY ticker (o_order_id ord)
                   TradeId_INVALID (o_side ord) (o_quantity ord) (o_limit_price ord)) s2)
              (\<lambda>s6. let maker = orders s6 opp in
                obind (emit_response (ClientResponse.make ResponseType_FILLED ticker
                         (o_client_id maker) (o_order_id maker) (o_side maker) fill_quantity
                         (o_limit_price maker)) s6)
                  (\<lambda>s7. obind (emit_response (ClientResponse.make ResponseType_FILLED ticker
                           client_id order_id side fill_quantity
                           (o_limit_price (orders s7 opp))) s7)
                    (\<lambda>s8. ret (quantity - fill_quantity, s8))))))"

text \<open>The side a taker trades against; any side but \<open>BUY\<close> takes the else branch of the source.\<close>

definition opposite :: "OrderSide \<Rightarrow> OrderSide" where
  "opposite side = (if side = BUY then SELL else BUY)"

definition crosses :: "OrderSide \<Rightarrow> PriceT \<Rightarrow> PriceT \<Rightarrow> bool" where
  "crosses side limit_price price =
     (if side = BUY then price \<le> limit_price else price \<ge> limit_price)"

text \<open>The two while loops of the source differ in the chain they read and in the comparison.\<close>

partial_function (option) checkForMatch ::
  "OrderIdT \<Rightarrow> ClientIdT \<Rightarrow> OrderSide \<Rightarrow> QuantityT \<Rightarrow> PriceT \<Rightarrow> BookState
    \<Rightarrow> (QuantityT \<times> BookState) outcome" where
  "checkForMatch order_id client_id side quantity limit_price s =
     (case best (opposite side) s of
        None \<Rightarrow> ret (quantity, s)
      | Some i \<Rightarrow>
          if quantity \<noteq> 0 \<and> crosses side limit_price (price_level (levels s i)) then
            obind (deref (top_order (levels s i))) (\<lambda>opp.
            obind (OrderBook_match order_id client_id side quantity opp s) (\<lambda>r.
            obind (deref (best (opposite side) (snd r))) (\<lambda>b.
            obind (if top_order (levels (snd r) b) = None then removePriceLevel b (snd r)
                   else ret (snd r)) (\<lambda>s'.
              checkForMatch order_id client_id side (fst r) limit_price s'))))
          else ret (quantity, s))"

declare checkForMatch.simps [code]

section \<open>Public operations\<close>

definition OrderBook_add ::
  "OrderIdT \<Rightarrow> ClientIdT \<Rightarrow> OrderSide \<Rightarrow> QuantityT \<Rightarrow> PriceT \<Rightarrow> BookState \<Rightarrow> BookState outcome" where
  "OrderBook_add order_id client_id side quantity limit_price s =
     (let ticker = ob_ticker_id (book s) in
      obind (emit_response (ClientResponse.make ResponseType_ACCEPTED ticker client_id order_id
               side quantity limit_price) s) (\<lambda>s1.
      obind (checkForMatch order_id client_id side quantity limit_price s1) (\<lambda>(remaining, s2).
      if remaining \<noteq> 0 then
        obind (getPriceLevel limit_price side True s2) (\<lambda>(pl, s3).
        let (ts, s4) = getCurrentNsTimestamp s3 in
        obind (getObject (Order_new ticker order_id client_id ts side remaining limit_price)
                 (order_pool (book s4))) (\<lambda>(order, pool').
        let s5 = set_order_pool pool' s4 in
        obind (deref pl) (\<lambda>i.
        obind (OrdersPriceLevel_add order (orders s5) (levels s5 i)) (\<lambda>(h, l).
        emit_update (MarketUpdate.make UpdateType_ADD ticker order_id TradeId_INVALID side
            remaining limit_price) (set_level i l (set_orders h s5))))))
      else ret s2)))"

definition OrderBook_cancel ::
  "ClientIdT \<Rightarrow> OrderIdT \<Rightarrow> OrderSide \<Rightarrow> PriceT \<Rightarrow> BookState \<Rightarrow> BookState outcome" where
  "OrderBook_cancel client_id order_id side limit_price s =
     (let ticker = ob_ticker_id (book s) in
      obind (getPriceLevel limit_price side False s) (\<lambda>(pl, s1).
      obind (case pl of
               Some i \<Rightarrow>
                 obind (cancel_at i order_id s1) (\<lambda>(order, s2).
                 obind (if top_order (levels s2 i) = None then removePriceLevel i s2 else ret s2)
                   (\<lambda>s3. ret (order, s3)))
             | None \<Rightarrow> ret (None, s1)) (\<lambda>(order, s4).
      case order of
        Some a \<Rightarrow>
          let (update_ns, s5) = getCurrentNsTimestamp s4 in
          obind (push_response (ClientResponse.make ResponseType_CANCELED ticker client_id order_id
                   side (o_quantity (orders s5 a)) limit_price update_ns) s5) (\<lambda>s6.
          push_update (MarketUpdate.make UpdateType_REMOVE ticker order_id TradeId_INVALID
            side (o_quantity (orders s6 a)) limit_price update_ns) s6)
      | None \<Rightarrow>
          emit_response (ClientResponse.make ResponseType_CANCEL_REJECTED ticker client_id order_id
            Side_INVALID Quantity_INVALID Price_INVALID) s4)))"

end
