(* ===== verification/Order_Book_State.thy ===== *)
theory Order_Book_State
  imports Order_Book
begin

text \<open>
  How the fields of a \<open>BookState\<close> change under its setters. The rules are in the simplifier,
  so that the proofs that follow compute with states.
\<close>

abbreviation opool :: "BookState \<Rightarrow> Order ObjectPool" where
  "opool s \<equiv> order_pool (book s)"

abbreviation lpool :: "BookState \<Rightarrow> OrdersPriceLevel ObjectPool" where
  "lpool s \<equiv> price_level_pool (book s)"

lemma orders_set [simp]:
  "orders (set_orders h s) = h"
  "orders (set_level i l s) = orders s"
  "orders (set_best side p s) = orders s"
  "orders (set_price_level idx p s) = orders s"
  "orders (set_level_pool lp s) = orders s"
  "orders (set_order_pool op s) = objects op"
  "orders (s\<lparr>ticks := n\<rparr>) = orders s"
  "orders (s\<lparr>client_response_queue := rq\<rparr>) = orders s"
  "orders (s\<lparr>market_update_queue := uq\<rparr>) = orders s"
  "orders (s\<lparr>next_trade_id := t\<rparr>) = orders s"
  by (simp_all add: orders_def set_orders_def set_level_def set_best_def set_price_level_def
      set_level_pool_def set_order_pool_def)

lemma levels_set [simp]:
  "levels (set_orders h s) = levels s"
  "levels (set_level i l s) = (levels s)(i := l)"
  "levels (set_best side p s) = levels s"
  "levels (set_price_level idx p s) = levels s"
  "levels (set_level_pool lp s) = objects lp"
  "levels (set_order_pool op s) = levels s"
  "levels (s\<lparr>ticks := n\<rparr>) = levels s"
  "levels (s\<lparr>client_response_queue := rq\<rparr>) = levels s"
  "levels (s\<lparr>market_update_queue := uq\<rparr>) = levels s"
  "levels (s\<lparr>next_trade_id := t\<rparr>) = levels s"
  by (simp_all add: levels_def set_orders_def set_level_def set_best_def set_price_level_def
      set_level_pool_def set_order_pool_def)

lemma best_set [simp]:
  "best side (set_orders h s) = best side s"
  "best side (set_level i l s) = best side s"
  "best side (set_best side' p s) = (if (side = BUY) = (side' = BUY) then p else best side s)"
  "best side (set_price_level idx p s) = best side s"
  "best side (set_level_pool lp s) = best side s"
  "best side (set_order_pool op s) = best side s"
  "best side (s\<lparr>ticks := n\<rparr>) = best side s"
  "best side (s\<lparr>client_response_queue := rq\<rparr>) = best side s"
  "best side (s\<lparr>market_update_queue := uq\<rparr>) = best side s"
  "best side (s\<lparr>next_trade_id := t\<rparr>) = best side s"
  by (simp_all add: best_def set_orders_def set_level_def set_best_def set_price_level_def
      set_level_pool_def set_order_pool_def)

lemma price_levels_set [simp]:
  "price_levels (book (set_orders h s)) = price_levels (book s)"
  "price_levels (book (set_level i l s)) = price_levels (book s)"
  "price_levels (book (set_best side p s)) = price_levels (book s)"
  "price_levels (book (set_price_level idx p s)) = (price_levels (book s))(idx \<mapsto> p)"
  "price_levels (book (set_level_pool lp s)) = price_levels (book s)"
  "price_levels (book (set_order_pool op s)) = price_levels (book s)"
  by (simp_all add: set_orders_def set_level_def set_best_def set_price_level_def
      set_level_pool_def set_order_pool_def)

lemma pools_set [simp]:
  "opool (set_orders h s) = set_objects h (opool s)"
  "opool (set_level i l s) = opool s"
  "opool (set_best side p s) = opool s"
  "opool (set_price_level idx p s) = opool s"
  "opool (set_level_pool lp s) = opool s"
  "opool (set_order_pool op s) = op"
  "lpool (set_orders h s) = lpool s"
  "lpool (set_level i l s) = set_objects ((levels s)(i := l)) (lpool s)"
  "lpool (set_best side p s) = lpool s"
  "lpool (set_price_level idx p s) = lpool s"
  "lpool (set_level_pool lp s) = lp"
  "lpool (set_order_pool op s) = lpool s"
  by (simp_all add: set_orders_def set_level_def set_best_def set_price_level_def
      set_level_pool_def set_order_pool_def)

lemma ticker_set [simp]:
  "ob_ticker_id (book (set_orders h s)) = ob_ticker_id (book s)"
  "ob_ticker_id (book (set_level i l s)) = ob_ticker_id (book s)"
  "ob_ticker_id (book (set_best side p s)) = ob_ticker_id (book s)"
  "ob_ticker_id (book (set_price_level idx p s)) = ob_ticker_id (book s)"
  "ob_ticker_id (book (set_level_pool lp s)) = ob_ticker_id (book s)"
  "ob_ticker_id (book (set_order_pool op s)) = ob_ticker_id (book s)"
  by (simp_all add: set_orders_def set_level_def set_best_def set_price_level_def
      set_level_pool_def set_order_pool_def)

lemma shared_set [simp]:
  "client_response_queue (set_orders h s) = client_response_queue s"
  "client_response_queue (set_level i l s) = client_response_queue s"
  "client_response_queue (set_best side p s) = client_response_queue s"
  "client_response_queue (set_price_level idx p s) = client_response_queue s"
  "client_response_queue (set_level_pool lp s) = client_response_queue s"
  "client_response_queue (set_order_pool op s) = client_response_queue s"
  "market_update_queue (set_orders h s) = market_update_queue s"
  "market_update_queue (set_level i l s) = market_update_queue s"
  "market_update_queue (set_best side p s) = market_update_queue s"
  "market_update_queue (set_price_level idx p s) = market_update_queue s"
  "market_update_queue (set_level_pool lp s) = market_update_queue s"
  "market_update_queue (set_order_pool op s) = market_update_queue s"
  "next_trade_id (set_orders h s) = next_trade_id s"
  "next_trade_id (set_level i l s) = next_trade_id s"
  "next_trade_id (set_best side p s) = next_trade_id s"
  "next_trade_id (set_price_level idx p s) = next_trade_id s"
  "next_trade_id (set_level_pool lp s) = next_trade_id s"
  "next_trade_id (set_order_pool op s) = next_trade_id s"
  "clock (set_orders h s) = clock s"
  "clock (set_level i l s) = clock s"
  "clock (set_best side p s) = clock s"
  "clock (set_price_level idx p s) = clock s"
  "clock (set_level_pool lp s) = clock s"
  "clock (set_order_pool op s) = clock s"
  "ticks (set_orders h s) = ticks s"
  "ticks (set_level i l s) = ticks s"
  "ticks (set_best side p s) = ticks s"
  "ticks (set_price_level idx p s) = ticks s"
  "ticks (set_level_pool lp s) = ticks s"
  "ticks (set_order_pool op s) = ticks s"
  by (simp_all add: set_orders_def set_level_def set_best_def set_price_level_def
      set_level_pool_def set_order_pool_def)

lemma objects_pools [simp]:
  "objects (opool s) = orders s"
  "objects (lpool s) = levels s"
  by (simp_all add: orders_def levels_def)

section \<open>Messages written\<close>

text \<open>A market update or a client response stamped with the next clock reading.\<close>

definition log_update :: "(NsTimestampT \<Rightarrow> MarketUpdate) \<Rightarrow> BookState \<Rightarrow> BookState" where
  "log_update mk s =
     s\<lparr>ticks := Suc (ticks s),
       market_update_queue := push_slot (mk (clock s (ticks s))) (market_update_queue s)\<rparr>"

definition log_response :: "(NsTimestampT \<Rightarrow> ClientResponse) \<Rightarrow> BookState \<Rightarrow> BookState" where
  "log_response mk s =
     s\<lparr>ticks := Suc (ticks s),
       client_response_queue := push_slot (mk (clock s (ticks s))) (client_response_queue s)\<rparr>"

lemma emit_ok [simp]:
  "lf_ok (market_update_queue s) \<Longrightarrow> emit_update mku s = ret (log_update mku s)"
  "lf_ok (client_response_queue s) \<Longrightarrow> emit_response mkr s = ret (log_response mkr s)"
  by (simp_all add: emit_update_def emit_response_def push_update_def push_response_def
      getCurrentNsTimestamp_def log_update_def log_response_def)

lemma log_frame [simp]:
  "book (log_update mku s) = book s"
  "book (log_response mkr s) = book s"
  "orders (log_update mku s) = orders s"
  "orders (log_response mkr s) = orders s"
  "levels (log_update mku s) = levels s"
  "levels (log_response mkr s) = levels s"
  "best side (log_update mku s) = best side s"
  "best side (log_response mkr s) = best side s"
  "client_response_queue (log_update mku s) = client_response_queue s"
  "market_update_queue (log_response mkr s) = market_update_queue s"
  "next_trade_id (log_update mku s) = next_trade_id s"
  "next_trade_id (log_response mkr s) = next_trade_id s"
  "clock (log_update mku s) = clock s"
  "clock (log_response mkr s) = clock s"
  "ticks (log_update mku s) = Suc (ticks s)"
  "ticks (log_response mkr s) = Suc (ticks s)"
  "market_update_queue (log_update mku s) =
     push_slot (mku (clock s (ticks s))) (market_update_queue s)"
  "client_response_queue (log_response mkr s) =
     push_slot (mkr (clock s (ticks s))) (client_response_queue s)"
  by (simp_all add: log_update_def log_response_def)

end
