(* ===== verification/Order_Book_Spec.thy ===== *)
theory Order_Book_Spec
  imports Order_Book
begin

text \<open>
  The specification of an order book in price-time priority. Each side is a list of orders,
  best price first and oldest first within a price. \<open>match_spec\<close> says which trades an incoming
  order makes, what they leave of the other side and which messages are sent; \<open>add_spec\<close> and
  \<open>cancel_spec\<close> are the public operations. The lemmas show that these operations keep both
  sides sorted and uncrossed and create or lose no quantity.
\<close>

section \<open>Prices\<close>

text \<open>\<open>p\<close> is the better price for a resting order: higher among bids, lower among asks.\<close>

definition better :: "bool \<Rightarrow> PriceT \<Rightarrow> PriceT \<Rightarrow> bool" where
  "better b p q = (if b then q < p else p < q)"

lemma better_irrefl [simp]: "\<not> better b p p"
  by (simp add: better_def)

lemma better_total: "p \<noteq> q \<Longrightarrow> \<not> better b q p \<longleftrightarrow> better b p q"
  by (auto simp: better_def)

lemma better_trans: "better b p q \<Longrightarrow> better b q r \<Longrightarrow> better b p r"
  by (auto simp: better_def split: if_splits)

text \<open>A price at which an order of the given side and limit may trade.\<close>

definition acceptable :: "OrderSide \<Rightarrow> PriceT \<Rightarrow> PriceT \<Rightarrow> bool" where
  "acceptable side limit price \<longleftrightarrow> (if side = BUY then price \<le> limit else limit \<le> price)"

section \<open>Specification of matching\<close>

datatype event = Response ClientResponse | Update MarketUpdate

definition responses :: "event list \<Rightarrow> ClientResponse list" where
  "responses evs = List.map_filter (\<lambda>e. case e of Response r \<Rightarrow> Some r | Update u \<Rightarrow> None) evs"

definition updates :: "event list \<Rightarrow> MarketUpdate list" where
  "updates evs = List.map_filter (\<lambda>e. case e of Update u \<Rightarrow> Some u | Response r \<Rightarrow> None) evs"

record Taker =
  tk_ticker :: TickerIdT
  tk_order_id :: OrderIdT
  tk_client_id :: ClientIdT
  tk_side :: OrderSide
  tk_limit :: PriceT

text \<open>
  The four messages of one trade, stamped with the clock readings \<open>n\<close> to \<open>n + 3\<close>; \<open>m\<close> is the
  resting order after the fill.
\<close>

definition trade_events ::
  "(nat \<Rightarrow> NsTimestampT) \<Rightarrow> Taker \<Rightarrow> TradeIdT \<Rightarrow> nat \<Rightarrow> QuantityT \<Rightarrow> Order \<Rightarrow> event list" where
  "trade_events clk t tid n fill m =
     [Update (MarketUpdate.make UpdateType_TRADE (tk_ticker t) OrderId_INVALID tid (tk_side t)
        fill (o_limit_price m) (clk n)),
      Update (if o_quantity m = 0
        then MarketUpdate.make UpdateType_REMOVE (tk_ticker t) (o_order_id m) TradeId_INVALID
               (o_side m) fill (o_limit_price m) (clk (n + 1))
        else MarketUpdate.make UpdateType_MODIFY (tk_ticker t) (o_order_id m) TradeId_INVALID
               (o_side m) (o_quantity m) (o_limit_price m) (clk (n + 1))),
      Response (ClientResponse.make ResponseType_FILLED (tk_ticker t) (o_client_id m)
        (o_order_id m) (o_side m) fill (o_limit_price m) (clk (n + 2))),
      Response (ClientResponse.make ResponseType_FILLED (tk_ticker t) (tk_client_id t)
        (tk_order_id t) (tk_side t) fill (o_limit_price m) (clk (n + 3)))]"

definition filled :: "QuantityT \<Rightarrow> Order \<Rightarrow> Order" where
  "filled q m = m\<lparr>o_quantity := o_quantity m - min q (o_quantity m)\<rparr>"

text \<open>
  Result: the quantity left, the next trade identifier, the remaining resting orders and the
  messages.
\<close>

fun match_spec ::
  "(nat \<Rightarrow> NsTimestampT) \<Rightarrow> Taker \<Rightarrow> QuantityT \<Rightarrow> TradeIdT \<Rightarrow> nat \<Rightarrow> Order list
    \<Rightarrow> QuantityT \<times> TradeIdT \<times> Order list \<times> event list" where
  "match_spec clk t q tid n [] = (q, tid, [], [])"
| "match_spec clk t q tid n (m # ms) =
     (if q \<noteq> 0 \<and> acceptable (tk_side t) (tk_limit t) (o_limit_price m) then
        let fill = min q (o_quantity m); m' = filled q m;
            evs = trade_events clk t tid n fill m'
        in if o_quantity m' = 0
           then let (q', tid', ms', evs') = match_spec clk t (q - fill) (tid + 1) (n + 4) ms
                in (q', tid', ms', evs @ evs')
           else (q - fill, tid + 1, m' # ms, evs)
      else (q, tid, m # ms, []))"

section \<open>Messages\<close>

lemma responses_simps [simp]:
  "responses [] = []"
  "responses (Response r # evs) = r # responses evs"
  "responses (Update u # evs) = responses evs"
  "responses (evs @ evs') = responses evs @ responses evs'"
  by (simp_all add: responses_def map_filter_def)

lemma updates_simps [simp]:
  "updates [] = []"
  "updates (Update u # evs) = u # updates evs"
  "updates (Response r # evs) = updates evs"
  "updates (evs @ evs') = updates evs @ updates evs'"
  by (simp_all add: updates_def map_filter_def)

section \<open>Specification of the public operations\<close>

text \<open>A new order goes behind every order of its side that is at least as good.\<close>

definition place :: "bool \<Rightarrow> Order \<Rightarrow> Order list \<Rightarrow> Order list" where
  "place b m ms =
     (let ahead = (\<lambda>x. \<not> better b (o_limit_price m) (o_limit_price x))
      in takeWhile ahead ms @ m # dropWhile ahead ms)"

definition accepted_event :: "(nat \<Rightarrow> NsTimestampT) \<Rightarrow> Taker \<Rightarrow> nat \<Rightarrow> QuantityT \<Rightarrow> event" where
  "accepted_event clk t n q = Response (ClientResponse.make ResponseType_ACCEPTED (tk_ticker t)
     (tk_client_id t) (tk_order_id t) (tk_side t) q (tk_limit t) (clk n))"

definition added_event :: "(nat \<Rightarrow> NsTimestampT) \<Rightarrow> Taker \<Rightarrow> nat \<Rightarrow> QuantityT \<Rightarrow> event" where
  "added_event clk t n q = Update (MarketUpdate.make UpdateType_ADD (tk_ticker t) (tk_order_id t)
     TradeId_INVALID (tk_side t) q (tk_limit t) (clk n))"

definition rest_of :: "(nat \<Rightarrow> NsTimestampT) \<Rightarrow> Taker \<Rightarrow> nat \<Rightarrow> QuantityT \<Rightarrow> Order" where
  "rest_of clk t n q =
     Order_new (tk_ticker t) (tk_order_id t) (tk_client_id t) (clk n) (tk_side t) q (tk_limit t)"

text \<open>
  Result: the two sides, the next trade identifier, the next clock reading and the messages.
  With \<open>shown = False\<close> the rest of the order is announced but does not enter its side; this is
  what the program does to an order behind the best price that opens a new level.
\<close>

definition add_spec ::
  "bool \<Rightarrow> (nat \<Rightarrow> NsTimestampT) \<Rightarrow> Taker \<Rightarrow> QuantityT \<Rightarrow> TradeIdT \<Rightarrow> nat \<Rightarrow> (bool \<Rightarrow> Order list)
    \<Rightarrow> (bool \<Rightarrow> Order list) \<times> TradeIdT \<times> nat \<times> event list" where
  "add_spec shown clk t q tid n bk =
     (let b = (tk_side t = BUY);
          (q', tid', ms', evs) = match_spec clk t q tid (Suc n) (bk (\<not> b));
          n' = Suc n + length evs;
          bk' = bk(\<not> b := ms')
      in if q' = 0 then (bk', tid', n', accepted_event clk t n q # evs)
         else (if shown then bk'(b := place b (rest_of clk t n' q') (bk b)) else bk',
               tid', n' + 2, accepted_event clk t n q # evs @ [added_event clk t (Suc n') q']))"

lemma add_spec_eq:
  assumes "match_spec clk t q tid (Suc n) (bk (\<not> b)) = (q', tid', ms', evs)" and "b = (tk_side t = BUY)"
  shows "add_spec shown clk t q tid n bk =
    (if q' = 0 then (bk(\<not> b := ms', b := bk b), tid', Suc n + length evs, accepted_event clk t n q # evs)
     else (bk(\<not> b := ms', b := if shown then place b (rest_of clk t (Suc n + length evs) q') (bk b) else bk b),
       tid', Suc n + length evs + 2,
       (accepted_event clk t n q # evs) @ [added_event clk t (Suc (Suc n + length evs)) q']))"
proof -
  have "bk(\<not> b := ms', b := bk b) = bk(\<not> b := ms')" by (auto simp: fun_eq_iff)
  then show ?thesis using assms by (simp add: add_spec_def Let_def)
qed

text \<open>What is left of an order that is announced but does not enter its side.\<close>

definition held_back ::
  "bool \<Rightarrow> (nat \<Rightarrow> NsTimestampT) \<Rightarrow> Taker \<Rightarrow> QuantityT \<Rightarrow> TradeIdT \<Rightarrow> nat \<Rightarrow> (bool \<Rightarrow> Order list) \<Rightarrow> Order list" where
  "held_back shown clk t q tid n bk =
     (case match_spec clk t q tid (Suc n) (bk (tk_side t \<noteq> BUY)) of (q', tid', ms', evs) \<Rightarrow>
        if shown \<or> q' = 0 then [] else [rest_of clk t (Suc n + length evs) q'])"

definition is_order :: "OrderIdT \<Rightarrow> PriceT \<Rightarrow> Order \<Rightarrow> bool" where
  "is_order oid lim m \<longleftrightarrow> o_order_id m = oid \<and> o_limit_price m = lim"

fun drop_first :: "('a \<Rightarrow> bool) \<Rightarrow> 'a list \<Rightarrow> 'a list" where
  "drop_first P [] = []"
| "drop_first P (x # xs) = (if P x then xs else x # drop_first P xs)"

text \<open>Only identifier and price say which order is meant; client and side are echoed.\<close>

definition cancel_spec ::
  "(nat \<Rightarrow> NsTimestampT) \<Rightarrow> Taker \<Rightarrow> nat \<Rightarrow> (bool \<Rightarrow> Order list)
    \<Rightarrow> (bool \<Rightarrow> Order list) \<times> event list" where
  "cancel_spec clk t n bk =
     (let hit = is_order (tk_order_id t) (tk_limit t) in
      case List.find hit (bk True @ bk False) of
        Some m \<Rightarrow> (\<lambda>b. drop_first hit (bk b),
          [Response (ClientResponse.make ResponseType_CANCELED (tk_ticker t) (tk_client_id t)
             (tk_order_id t) (tk_side t) (o_quantity m) (tk_limit t) (clk n)),
           Update (MarketUpdate.make UpdateType_REMOVE (tk_ticker t) (tk_order_id t)
             TradeId_INVALID (tk_side t) (o_quantity m) (tk_limit t) (clk n))])
      | None \<Rightarrow> (bk,
          [Response (ClientResponse.make ResponseType_CANCEL_REJECTED (tk_ticker t)
             (tk_client_id t) (tk_order_id t) Side_INVALID Quantity_INVALID Price_INVALID (clk n))]))"

section \<open>Sorted and uncrossed sides\<close>

definition priority :: "bool \<Rightarrow> Order list \<Rightarrow> bool" where
  "priority b ms \<longleftrightarrow>
     sorted_wrt (\<lambda>x y. \<not> better b (o_limit_price y) (o_limit_price x)) ms"

definition uncrossed :: "(bool \<Rightarrow> Order list) \<Rightarrow> bool" where
  "uncrossed bk \<longleftrightarrow>
     (\<forall>x \<in> set (bk True). \<forall>y \<in> set (bk False). o_limit_price x < o_limit_price y)"

definition live_book :: "(bool \<Rightarrow> Order list) \<Rightarrow> bool" where
  "live_book bk \<longleftrightarrow> (\<forall>b. priority b (bk b) \<and> (\<forall>x \<in> set (bk b). o_quantity x \<noteq> 0)) \<and> uncrossed bk"

lemma not_better_trans:
  "\<not> better b q p \<Longrightarrow> \<not> better b r q \<Longrightarrow> \<not> better b r p"
  by (auto simp: better_def split: if_splits)

lemma set_place: "set (place b m ms) = insert m (set ms)"
proof -
  have "set (takeWhile P ms) \<union> set (dropWhile P ms) = set ms" for P
    by (metis set_append takeWhile_dropWhile_id)
  then show ?thesis by (auto simp: place_def Let_def)
qed

lemma priority_place:
  assumes "priority b ms"
  shows "priority b (place b m ms)"
  using assms
proof (induction ms)
  case Nil
  then show ?case by (simp add: priority_def place_def)
next
  case (Cons x ms)
  show ?case
  proof (cases "better b (o_limit_price m) (o_limit_price x)")
    case True
    then have "place b m (x # ms) = m # x # ms" by (simp add: place_def)
    moreover have "\<not> better b (o_limit_price y) (o_limit_price m)" if "y \<in> set (x # ms)" for y
      using that True Cons.prems better_trans [of b "o_limit_price m" "o_limit_price x" "o_limit_price m"]
        not_better_trans [of b "o_limit_price x" "o_limit_price m" "o_limit_price y"]
      by (auto simp: priority_def)
    ultimately show ?thesis using Cons.prems by (simp add: priority_def)
  next
    case False
    then have "place b m (x # ms) = x # place b m ms" by (simp add: place_def Let_def)
    then show ?thesis using Cons False by (simp add: priority_def set_place)
  qed
qed

lemma place_split:
  assumes "\<forall>x \<in> set us. \<not> better b (o_limit_price m) (o_limit_price x)"
    and "\<forall>x \<in> set vs. better b (o_limit_price m) (o_limit_price x)"
  shows "place b m (us @ vs) = us @ m # vs"
  using assms by (cases vs) (auto simp: place_def Let_def takeWhile_append2 dropWhile_append2 takeWhile_eq_all_conv [THEN iffD2])

section \<open>What matching does\<close>

definition trades :: "event list \<Rightarrow> MarketUpdate list" where
  "trades evs = filter (\<lambda>u. mu_type u = UpdateType_TRADE) (updates evs)"

definition depth :: "Order list \<Rightarrow> nat" where
  "depth ms = sum_list (map (\<lambda>m. unat (o_quantity m)) ms)"

definition volume :: "MarketUpdate list \<Rightarrow> nat" where
  "volume us = sum_list (map (\<lambda>u. unat (mu_quantity u)) us)"

lemma trades_append [simp]: "trades (evs @ evs') = trades evs @ trades evs'"
  by (simp add: trades_def)

lemma trades_Nil [simp]: "trades [] = []"
  by (simp add: trades_def)

lemma trades_trade_events [simp]:
  "trades (trade_events clk t tid n fill m) =
     [MarketUpdate.make UpdateType_TRADE (tk_ticker t) OrderId_INVALID tid (tk_side t)
        fill (o_limit_price m) (clk n)]"
  by (simp add: trades_def trade_events_def MarketUpdate.defs)

lemma filled_simps [simp]:
  "o_limit_price (filled q m) = o_limit_price m" "o_order_id (filled q m) = o_order_id m"
  "o_client_id (filled q m) = o_client_id m" "o_side (filled q m) = o_side m"
  "o_quantity (filled q m) = o_quantity m - min q (o_quantity m)"
  by (simp_all add: filled_def)

lemma unat_fill:
  fixes q x :: "'a::len word"
  shows "unat (min q x) + unat (q - min q x) = unat q"
    "unat (min q x) + unat (x - min q x) = unat x"
  by (auto simp: min_def unat_sub word_le_nat_alt)

text \<open>
  \<open>match_spec\<close> by induction on the list, one case per outcome: nothing left to match, the head
  used up, the head filled in part, no match.
\<close>

lemma match_spec_induct [case_names Nil used part stop]:
  assumes "\<And>q tid n. P q tid n [] (q, tid, [], [])"
    and "\<And>q tid n m ms q' tid' ms' evs.
      q \<noteq> 0 \<Longrightarrow> acceptable (tk_side t) (tk_limit t) (o_limit_price m) \<Longrightarrow> o_quantity (filled q m) = 0 \<Longrightarrow>
      P (q - min q (o_quantity m)) (tid + 1) (n + 4) ms (q', tid', ms', evs) \<Longrightarrow>
      P q tid n (m # ms) (q', tid', ms',
        trade_events clk t tid n (min q (o_quantity m)) (filled q m) @ evs)"
    and "\<And>q tid n m ms.
      q \<noteq> 0 \<Longrightarrow> acceptable (tk_side t) (tk_limit t) (o_limit_price m) \<Longrightarrow> o_quantity (filled q m) \<noteq> 0 \<Longrightarrow>
      P q tid n (m # ms) (q - min q (o_quantity m), tid + 1, filled q m # ms,
        trade_events clk t tid n (min q (o_quantity m)) (filled q m))"
    and "\<And>q tid n m ms.
      \<not> (q \<noteq> 0 \<and> acceptable (tk_side t) (tk_limit t) (o_limit_price m)) \<Longrightarrow>
      P q tid n (m # ms) (q, tid, m # ms, [])"
  shows "P q tid n ms (match_spec clk t q tid n ms)"
proof (induction ms arbitrary: q tid n)
  case Nil
  then show ?case using assms(1) by simp
next
  case (Cons m ms)
  show ?case
  proof (cases "q \<noteq> 0 \<and> acceptable (tk_side t) (tk_limit t) (o_limit_price m)")
    case True
    obtain q' tid' ms' evs where r:
      "match_spec clk t (q - min q (o_quantity m)) (tid + 1) (n + 4) ms = (q', tid', ms', evs)"
      by (cases "match_spec clk t (q - min q (o_quantity m)) (tid + 1) (n + 4) ms") auto
    with Cons [of "q - min q (o_quantity m)" "tid + 1" "n + 4"] True
    show ?thesis
      using assms(2) [of q m "tid" n ms q' tid' ms' evs] assms(3) [of q m tid n ms]
      by (cases "o_quantity (filled q m) = 0") (simp_all add: Let_def)
  next
    case False
    then show ?thesis using assms(4) [of q m tid n ms] by auto
  qed
qed

text \<open>Quantity is neither created nor lost.\<close>

lemma match_spec_conserves:
  assumes "match_spec clk t q tid n ms = (q', tid', ms', evs)"
  shows "unat q = unat q' + volume (trades evs)" "depth ms = depth ms' + volume (trades evs)"
proof -
  have "case match_spec clk t q tid n ms of (q', tid', ms', evs) \<Rightarrow>
      unat q = unat q' + volume (trades evs) \<and> depth ms = depth ms' + volume (trades evs)"
  proof (induction rule: match_spec_induct)
    case (used q tid n m ms q' tid' ms' evs)
    then show ?case
      using unat_fill [of q "o_quantity m"]
      by (auto simp: volume_def depth_def MarketUpdate.defs)
  next
    case (part q tid n m ms)
    then show ?case
      using unat_fill [of q "o_quantity m"] by (auto simp: volume_def depth_def MarketUpdate.defs)
  qed (auto simp: volume_def depth_def)
  with assms show "unat q = unat q' + volume (trades evs)" "depth ms = depth ms' + volume (trades evs)"
    by auto
qed

text \<open>Trades are numbered on from the counter and respect the limit of the incoming order.\<close>

lemma match_spec_trades:
  assumes "match_spec clk t q tid n ms = (q', tid', ms', evs)"
  shows "map mu_trade_id (trades evs) = map (\<lambda>k. tid + of_nat k) [0..<length (trades evs)]"
    and "tid' = tid + of_nat (length (trades evs))"
    and "u \<in> set (trades evs) \<Longrightarrow> acceptable (tk_side t) (tk_limit t) (mu_price u)"
proof -
  have "case match_spec clk t q tid n ms of (q', tid', ms', evs) \<Rightarrow>
      map mu_trade_id (trades evs) = map (\<lambda>k. tid + of_nat k) [0..<length (trades evs)]
      \<and> tid' = tid + of_nat (length (trades evs))
      \<and> (\<forall>u \<in> set (trades evs). acceptable (tk_side t) (tk_limit t) (mu_price u))"
  proof (induction rule: match_spec_induct)
    case (used q tid n m ms q' tid' ms' evs)
    then show ?case
      by (simp add: MarketUpdate.defs upt_conv_Cons map_Suc_upt [symmetric] ac_simps
          del: upt_Suc)
  qed (simp_all add: MarketUpdate.defs)
  with assms show "map mu_trade_id (trades evs) = map (\<lambda>k. tid + of_nat k) [0..<length (trades evs)]"
    and "tid' = tid + of_nat (length (trades evs))"
    and "u \<in> set (trades evs) \<Longrightarrow> acceptable (tk_side t) (tk_limit t) (mu_price u)"
    by auto
qed

text \<open>
  The orders traded are a prefix of the side: the best and oldest ones go first. What is left
  is the rest of the list, the first order of it possibly reduced.
\<close>

lemma match_spec_prefix:
  assumes "match_spec clk t q tid n ms = (q', tid', ms', evs)"
  shows "\<exists>k \<le> length ms. map (o_quantity_update (\<lambda>_. 0)) ms' = map (o_quantity_update (\<lambda>_. 0)) (drop k ms)
      \<and> tl ms' = tl (drop k ms)
      \<and> map mu_price (trades evs) = map o_limit_price (take (length (trades evs)) ms)
      \<and> length (trades evs) \<in> {k, Suc k}"
proof -
  have "case match_spec clk t q tid n ms of (q', tid', ms', evs) \<Rightarrow>
    \<exists>k \<le> length ms. map (o_quantity_update (\<lambda>_. 0)) ms' = map (o_quantity_update (\<lambda>_. 0)) (drop k ms)
      \<and> tl ms' = tl (drop k ms)
      \<and> map mu_price (trades evs) = map o_limit_price (take (length (trades evs)) ms)
      \<and> length (trades evs) \<in> {k, Suc k}"
  proof (induction rule: match_spec_induct)
    case (used q tid n m ms q' tid' ms' evs)
    then obtain k where "k \<le> length ms"
      "map (o_quantity_update (\<lambda>_. 0)) ms' = map (o_quantity_update (\<lambda>_. 0)) (drop k ms)"
      "tl ms' = tl (drop k ms)"
      "map mu_price (trades evs) = map o_limit_price (take (length (trades evs)) ms)"
      "length (trades evs) \<in> {k, Suc k}" by auto
    then show ?case by (auto simp: MarketUpdate.defs intro!: exI [of _ "Suc k"])
  next
    case (part q tid n m ms)
    then show ?case by (auto simp: filled_def MarketUpdate.defs intro!: exI [of _ 0])
  qed (auto intro!: exI [of _ 0])
  with assms show ?thesis by simp
qed

text \<open>Only the rest of an order is announced, never a fill.\<close>

definition announces :: "event list \<Rightarrow> bool" where
  "announces evs \<longleftrightarrow> (\<exists>u \<in> set (updates evs). mu_type u = UpdateType_ADD)"

lemma announces_simps [simp]:
  "announces (evs @ evs') \<longleftrightarrow> announces evs \<or> announces evs'" "\<not> announces []"
  "announces (Response r # evs) \<longleftrightarrow> announces evs"
  by (auto simp: announces_def)

lemma announced [simp]: "\<not> announces [accepted_event clk t n q]" "announces [added_event clk t n q]"
  by (simp_all add: announces_def accepted_event_def added_event_def MarketUpdate.defs)

lemma match_spec_announces:
  assumes "match_spec clk t q tid n ms = (q', tid', ms', evs)"
  shows "\<not> announces evs"
proof -
  have fill: "\<not> announces (trade_events clk t tid n fill m)" for tid n fill m
    by (simp add: announces_def trade_events_def MarketUpdate.defs)
  have "case match_spec clk t q tid n ms of (q', tid', ms', evs) \<Rightarrow> \<not> announces evs"
    by (induction rule: match_spec_induct) (simp_all add: fill)
  with assms show ?thesis by simp
qed

lemma match_spec_keeps:
  assumes "match_spec clk t q tid n ms = (q', tid', ms', evs)"
    and "b = (tk_side t \<noteq> BUY)" and "priority b ms" and "\<forall>x \<in> set ms. o_quantity x \<noteq> 0"
  shows "priority b ms'" "\<forall>x \<in> set ms'. o_quantity x \<noteq> 0"
    "o_limit_price ` set ms' \<subseteq> o_limit_price ` set ms"
    "q' \<noteq> 0 \<Longrightarrow> x \<in> set ms' \<Longrightarrow> \<not> acceptable (tk_side t) (tk_limit t) (o_limit_price x)"
proof -
  have "priority b ms \<longrightarrow> (\<forall>x \<in> set ms. o_quantity x \<noteq> 0) \<longrightarrow>
      (case match_spec clk t q tid n ms of (q', tid', ms', evs) \<Rightarrow>
        priority b ms' \<and> (\<forall>x \<in> set ms'. o_quantity x \<noteq> 0)
        \<and> o_limit_price ` set ms' \<subseteq> o_limit_price ` set ms
        \<and> (q' \<noteq> 0 \<longrightarrow> (\<forall>x \<in> set ms'. \<not> acceptable (tk_side t) (tk_limit t) (o_limit_price x))))"
  proof (induction rule: match_spec_induct)
    case (used q tid n m ms q' tid' ms' evs)
    then show ?case by (auto simp: priority_def)
  next
    case (part q tid n m ms)
    then have "q - min q (o_quantity m) = 0" by (auto simp: min_def split: if_splits)
    with part show ?case by (auto simp: priority_def)
  next
    case (stop q tid n m ms)
    then show ?case using assms(2) by (auto simp: priority_def acceptable_def better_def)
  qed (auto simp: priority_def)
  with assms show "priority b ms'" "\<forall>x \<in> set ms'. o_quantity x \<noteq> 0"
    "o_limit_price ` set ms' \<subseteq> o_limit_price ` set ms"
    "q' \<noteq> 0 \<Longrightarrow> x \<in> set ms' \<Longrightarrow> \<not> acceptable (tk_side t) (tk_limit t) (o_limit_price x)"
    by auto
qed

section \<open>The operations keep a live book\<close>

lemma uncrossed_sub:
  assumes "uncrossed bk" and "\<And>b. o_limit_price ` set (bk' b) \<subseteq> o_limit_price ` set (bk b)"
  shows "uncrossed bk'"
  unfolding uncrossed_def
proof (intro ballI)
  fix x y assume "x \<in> set (bk' True)" and "y \<in> set (bk' False)"
  then obtain x' y' where "x' \<in> set (bk True)" "o_limit_price x' = o_limit_price x"
    "y' \<in> set (bk False)" "o_limit_price y' = o_limit_price y"
    using assms(2) [of True] assms(2) [of False] by fastforce
  then show "o_limit_price x < o_limit_price y" using assms(1) by (metis uncrossed_def)
qed

lemma add_spec_live:
  assumes "live_book bk" and "add_spec shown clk t q tid n bk = (bk', tid', n', evs)"
  shows "live_book bk'"
proof -
  define b where "b = (tk_side t = BUY)"
  obtain q1 tid1 ms1 evs1 where m: "match_spec clk t q tid (Suc n) (bk (\<not> b)) = (q1, tid1, ms1, evs1)"
    by (cases "match_spec clk t q tid (Suc n) (bk (\<not> b))") auto
  have pr: "priority (\<not> b) (bk (\<not> b))" "\<forall>x \<in> set (bk (\<not> b)). o_quantity x \<noteq> 0"
    using assms(1) by (auto simp: live_book_def)
  note keep = match_spec_keeps [OF m _ pr]
  let ?r = "rest_of clk t (Suc n + length evs1) q1"
  have new: "o_quantity ?r = q1" "o_limit_price ?r = tk_limit t"
    by (simp_all add: rest_of_def Order_new_def)
  have unc: "uncrossed (bk(\<not> b := ms1))"
  proof (rule uncrossed_sub)
    show "uncrossed bk" using assms(1) by (simp add: live_book_def)
    show "o_limit_price ` set ((bk(\<not> b := ms1)) d) \<subseteq> o_limit_price ` set (bk d)" for d
      using keep(3) by (cases "d = (\<not> b)") (simp_all add: b_def)
  qed
  have base: "live_book (bk(\<not> b := ms1))"
    using assms(1) keep(1,2) unc unfolding live_book_def by (simp add: b_def)
  show ?thesis
  proof (cases "q1 \<noteq> 0 \<and> shown")
    case False
    then have "bk' = bk(\<not> b := ms1)"
      using assms(2) m by (auto simp: add_spec_def b_def Let_def split: if_splits)
    with base show ?thesis by simp
  next
    case True
    then have bk': "bk' = bk(\<not> b := ms1, b := place b ?r (bk b))"
      using assms(2) m by (auto simp: add_spec_def b_def Let_def split: if_splits)
    have far: "\<not> acceptable (tk_side t) (tk_limit t) (o_limit_price x)" if "x \<in> set ms1" for x
      using keep(4) that True by (simp add: b_def)
    have "uncrossed bk'"
    proof (cases b)
      case True
      then show ?thesis
        using unc far new unfolding bk' uncrossed_def by (simp add: set_place b_def acceptable_def not_le)
    next
      case False
      then show ?thesis
        using unc far new unfolding bk' uncrossed_def by (simp add: set_place b_def acceptable_def not_le)
    qed
    then show ?thesis
      using base True new priority_place [of b "bk b" ?r] assms(1) keep(1,2)
      unfolding bk' live_book_def by (simp add: set_place b_def)
  qed
qed

lemma set_drop_first: "set (drop_first P xs) \<subseteq> set xs"
  by (induction xs) auto

lemma sorted_wrt_drop_first: "sorted_wrt R xs \<Longrightarrow> sorted_wrt R (drop_first P xs)"
proof (induction xs)
  case (Cons x xs)
  then show ?case using set_drop_first [of P xs] by auto
qed simp

lemma cancel_spec_live:
  assumes "live_book bk" and "cancel_spec clk t n bk = (bk', evs)"
  shows "live_book bk'"
proof -
  define hit where "hit = is_order (tk_order_id t) (tk_limit t)"
  have "bk' = bk \<or> bk' = (\<lambda>b. drop_first hit (bk b))"
    using assms(2) by (auto simp: cancel_spec_def hit_def Let_def split: option.splits)
  then show ?thesis
  proof
    assume bk': "bk' = (\<lambda>b. drop_first hit (bk b))"
    have sub: "set (bk' b) \<subseteq> set (bk b)" for b using set_drop_first [of hit] by (simp add: bk')
    have "uncrossed bk'"
    proof (rule uncrossed_sub)
      show "uncrossed bk" using assms(1) by (simp add: live_book_def)
      show "o_limit_price ` set (bk' b) \<subseteq> o_limit_price ` set (bk b)" for b
        by (rule image_mono [OF sub])
    qed
    moreover have "priority b (bk' b)" for b
      using assms(1) by (simp add: bk' live_book_def priority_def sorted_wrt_drop_first)
    ultimately show ?thesis using assms(1) sub unfolding live_book_def by blast
  qed (use assms(1) in simp)
qed

end
