(* ===== verification/Order_Book_Rep.thy ===== *)
theory Order_Book_Rep
  imports Order_Book_State Order_Book_Spec
begin

text \<open>
  What the memory of a book represents. \<open>c True\<close> and \<open>c False\<close> are the bid and the ask chain,
  lists of price level objects from the best price on; \<open>f i\<close> is the list of order objects of
  the level \<open>i\<close>, oldest first. \<open>book_rep s c f\<close> says that the pointers of \<open>s\<close> hold these
  lists. A level can be registered in \<open>price_levels\<close> without being on a chain: the source
  never links a new level behind an existing one (see \<open>insertPriceLevel\<close>).
\<close>

section \<open>Chains of price levels\<close>

primrec chain :: "(nat \<Rightarrow> OrdersPriceLevel) \<Rightarrow> ptr \<Rightarrow> nat list \<Rightarrow> bool" where
  "chain lh p [] \<longleftrightarrow> p = None"
| "chain lh p (i # is) \<longleftrightarrow> p = Some i \<and> chain lh (next_price_level (lh i)) is"

lemma chain_cong:
  "(\<And>i. i \<in> set is \<Longrightarrow> next_price_level (lh' i) = next_price_level (lh i)) \<Longrightarrow>
     chain lh' p is \<longleftrightarrow> chain lh p is"
  by (induction "is" arbitrary: p) auto

lemma chain_None [simp]: "chain lh None is \<longleftrightarrow> is = []"
  by (cases "is") auto

lemma chain_Some: "chain lh (Some i) is \<longleftrightarrow>
    (\<exists>js. is = i # js \<and> chain lh (next_price_level (lh i)) js)"
  by (cases "is") auto

lemma chain_delete:
  assumes "chain lh p (xs @ j # i # ys)" and "distinct (xs @ j # i # ys)"
  shows "chain (lh(j := (lh j)\<lparr>next_price_level := next_price_level (lh i)\<rparr>)) p (xs @ j # ys)"
  using assms
proof (induction xs arbitrary: p)
  case Nil
  let ?lh = "lh(j := (lh j)\<lparr>next_price_level := next_price_level (lh i)\<rparr>)"
  have "chain ?lh (next_price_level (lh i)) ys \<longleftrightarrow> chain lh (next_price_level (lh i)) ys"
    by (rule chain_cong) (use Nil in auto)
  with Nil show ?case by (simp only: append_Nil chain.simps fun_upd_same) simp
next
  case (Cons a xs)
  then show ?case by auto
qed

section \<open>The representation\<close>

definition side_of :: "bool \<Rightarrow> OrderSide" where
  "side_of b = (if b then BUY else SELL)"

definition listed :: "BookState \<Rightarrow> nat set" where
  "listed s = {i. \<exists>p. price_levels (book s) p = Some (Some i)}"

definition infra :: "BookState \<Rightarrow> bool" where
  "infra s \<longleftrightarrow> pool_ok (opool s) \<and> pool_ok (lpool s)
     \<and> lf_ok (client_response_queue s) \<and> lf_ok (market_update_queue s)"

definition side_rep :: "BookState \<Rightarrow> nat list \<Rightarrow> (nat \<Rightarrow> nat list) \<Rightarrow> bool \<Rightarrow> bool" where
  "side_rep s is f b \<longleftrightarrow>
     chain (levels s) (best (side_of b) s) is \<and> set is \<subseteq> listed s
     \<and> sorted_wrt (\<lambda>i j. better b (price_level (levels s i)) (price_level (levels s j))) is
     \<and> (\<forall>i \<in> set is. (l_side (levels s i) = BUY \<longleftrightarrow> b)
          \<and> (\<forall>a \<in> set (f i). o_side (orders s a) = BUY \<longleftrightarrow> b))"

definition level_ok :: "BookState \<Rightarrow> (nat \<Rightarrow> nat list) \<Rightarrow> nat \<Rightarrow> bool" where
  "level_ok s f i \<longleftrightarrow> i \<in> live (lpool s) \<and> level_rep (orders s) (levels s i) (f i)
     \<and> set (f i) \<subseteq> live (opool s)
     \<and> (\<forall>a \<in> set (f i). o_limit_price (orders s a) = price_level (levels s i))"

definition levels_rep :: "BookState \<Rightarrow> (nat \<Rightarrow> nat list) \<Rightarrow> bool" where
  "levels_rep s f \<longleftrightarrow>
     (\<forall>p i. price_levels (book s) p = Some (Some i) \<longrightarrow>
        price_level (levels s i) = p \<and> level_ok s f i)
     \<and> (\<forall>i \<in> listed s. \<forall>j \<in> listed s. i \<noteq> j \<longrightarrow> set (f i) \<inter> set (f j) = {})"

definition book_rep :: "BookState \<Rightarrow> (bool \<Rightarrow> nat list) \<Rightarrow> (nat \<Rightarrow> nat list) \<Rightarrow> bool" where
  "book_rep s c f \<longleftrightarrow> infra s \<and> levels_rep s f \<and> (\<forall>b. side_rep s (c b) f b)
     \<and> live (lpool s) \<subseteq> listed s"

text \<open>Between operations no registered level is empty and no resting order is used up.\<close>

definition settled :: "BookState \<Rightarrow> (nat \<Rightarrow> nat list) \<Rightarrow> bool" where
  "settled s f \<longleftrightarrow>
     (\<forall>i \<in> listed s. f i \<noteq> [] \<and> (\<forall>a \<in> set (f i). o_quantity (orders s a) \<noteq> 0))"

text \<open>The resting orders of one side in the order in which they trade.\<close>

definition resting :: "BookState \<Rightarrow> (bool \<Rightarrow> nat list) \<Rightarrow> (nat \<Rightarrow> nat list) \<Rightarrow> bool \<Rightarrow> Order list" where
  "resting s c f b = map (\<lambda>a. payload (orders s a)) (concat (map f (c b)))"

text \<open>What an operation on levels leaves alone: queues, counters, clock and order memory.\<close>

definition outside_eq :: "BookState \<Rightarrow> BookState \<Rightarrow> bool" where
  "outside_eq s s' \<longleftrightarrow>
     client_response_queue s' = client_response_queue s
     \<and> market_update_queue s' = market_update_queue s
     \<and> next_trade_id s' = next_trade_id s \<and> clock s' = clock s \<and> ticks s' = ticks s
     \<and> ob_ticker_id (book s') = ob_ticker_id (book s) \<and> capacity (lpool s') = capacity (lpool s)
     \<and> opool s' = opool s"

section \<open>Consequences\<close>

lemma side_of_simps [simp]:
  "side_of b = BUY \<longleftrightarrow> b"
  "best (side_of (side = BUY)) s = best side s"
  "opposite side = side_of (side \<noteq> BUY)"
  by (simp_all add: side_of_def best_def opposite_def)

lemma book_repD:
  assumes "book_rep s c f"
  shows "infra s" "levels_rep s f" "side_rep s (c b) f b" "live (lpool s) \<subseteq> listed s"
  using assms by (auto simp: book_rep_def)

lemma book_rep_chain:
  assumes "book_rep s c f"
  shows "chain (levels s) (best (side_of b) s) (c b)" "set (c b) \<subseteq> listed s"
    "sorted_wrt (\<lambda>i j. better b (price_level (levels s i)) (price_level (levels s j))) (c b)"
    "i \<in> set (c b) \<Longrightarrow> l_side (levels s i) = BUY \<longleftrightarrow> b"
  using book_repD(3) [OF assms, of b] by (auto simp: side_rep_def)

lemma book_rep_level:
  assumes "book_rep s c f" and "i \<in> listed s"
  shows "level_ok s f i" "price_levels (book s) (price_level (levels s i)) = Some (Some i)"
proof -
  obtain p where p: "price_levels (book s) p = Some (Some i)" using assms(2) by (auto simp: listed_def)
  with book_repD(2) [OF assms(1)] have "price_level (levels s i) = p \<and> level_ok s f i"
    by (auto simp: levels_rep_def)
  with p show "level_ok s f i" "price_levels (book s) (price_level (levels s i)) = Some (Some i)"
    by auto
qed

lemma book_rep_priced:
  "book_rep s c f \<Longrightarrow> price_levels (book s) p = Some (Some i) \<Longrightarrow>
     i \<in> listed s \<and> price_level (levels s i) = p"
  using book_repD(2) by (auto simp: levels_rep_def listed_def)

lemma book_rep_price_inj:
  assumes "book_rep s c f" and "i \<in> listed s" and "j \<in> listed s"
    and "price_level (levels s i) = price_level (levels s j)"
  shows "i = j"
  using assms book_rep_level(2) [OF assms(1)] by (metis option.inject)

lemma sorted_better_distinct:
  "sorted_wrt (\<lambda>i j. better b (g i) (g j)) is \<Longrightarrow> distinct is"
  by (induction "is") auto

lemma book_rep_distinct: "book_rep s c f \<Longrightarrow> distinct (c b)"
  by (rule sorted_better_distinct [OF book_rep_chain(3)])

lemma book_rep_disjoint_chains:
  "book_rep s c f \<Longrightarrow> set (c True) \<inter> set (c False) = {}"
  using book_rep_chain(4) [of s c f _ True] book_rep_chain(4) [of s c f _ False] by blast

lemma book_rep_other_side:
  "book_rep s c f \<Longrightarrow> i \<in> set (c b) \<Longrightarrow> i \<notin> set (c (\<not> b))"
  using book_rep_disjoint_chains [of s c f] by (cases b) auto

lemma book_rep_level_distinct:
  "book_rep s c f \<Longrightarrow> i \<in> listed s \<Longrightarrow> distinct (f i)"
  using book_rep_level(1) by (fastforce simp: level_ok_def level_rep_def ring_def split: if_splits)

lemma book_rep_orders_disjoint:
  "book_rep s c f \<Longrightarrow> i \<in> listed s \<Longrightarrow> j \<in> listed s \<Longrightarrow> i \<noteq> j \<Longrightarrow> set (f i) \<inter> set (f j) = {}"
  using book_repD(2) by (auto simp: levels_rep_def)

text \<open>The prices that have a level; the pool holds one level for each of them.\<close>

definition prices :: "BookState \<Rightarrow> PriceT set" where
  "prices s = {p. \<exists>i. price_levels (book s) p = Some (Some i)}"

lemma book_rep_prices: "book_rep s c f \<Longrightarrow> prices s = (\<lambda>i. price_level (levels s i)) ` live (lpool s)"
  using book_rep_priced [of s c f] book_rep_level [of s c f] book_repD(4) [of s c f]
  by (force simp: prices_def level_ok_def)

lemma book_rep_card_prices: "book_rep s c f \<Longrightarrow> card (live (lpool s)) = card (prices s)"
  using book_rep_price_inj [of s c f] book_repD(4) [of s c f]
  by (simp add: book_rep_prices card_image inj_on_def subset_iff)

lemma prices_mono:
  "book_rep s c f \<Longrightarrow> book_rep s' c' f' \<Longrightarrow> live (lpool s') \<subseteq> live (lpool s) \<Longrightarrow>
     (\<And>i. price_level (levels s' i) = price_level (levels s i)) \<Longrightarrow> prices s' \<subseteq> prices s"
  by (auto simp: book_rep_prices)

section \<open>Changes that keep the lists\<close>

lemma side_rep_transfer:
  assumes sr: "side_rep s is f b" and ch: "chain (levels s') (best (side_of b) s') is'" "set is' \<subseteq> listed s'"
    and sorted: "sorted_wrt (\<lambda>i j. better b (price_level (levels s i)) (price_level (levels s j))) is'"
    and lv: "\<And>i. i \<in> set is' \<Longrightarrow> i \<in> set is \<and> price_level (levels s' i) = price_level (levels s i)
      \<and> l_side (levels s' i) = l_side (levels s i)"
    and ord: "\<And>i a. i \<in> set is' \<Longrightarrow> a \<in> set (f i) \<Longrightarrow> o_side (orders s' a) = o_side (orders s a)"
  shows "side_rep s' is' f b"
proof -
  have "sorted_wrt (\<lambda>i j. better b (price_level (levels s' i)) (price_level (levels s' j))) is'"
    by (rule sorted_wrt_mono_rel [OF _ sorted]) (simp add: lv)
  then show ?thesis using sr ch lv ord unfolding side_rep_def by (auto dest: bspec)
qed

text \<open>A level whose orders did not change still holds its list.\<close>

lemma level_rep_keep:
  assumes "book_rep s c f" and "j \<in> listed s" and "\<And>a. a \<in> set (f j) \<Longrightarrow> h a = orders s a"
  shows "level_rep h (levels s j) (f j)"
proof -
  have "level_rep h (levels s j) (f j) \<longleftrightarrow> level_rep (orders s) (levels s j) (f j)"
    by (rule level_rep_cong) (simp_all add: assms(3))
  then show ?thesis using book_rep_level(1) [OF assms(1,2)] by (simp add: level_ok_def)
qed

text \<open>
  A state with the same registered levels and chains, in which the levels' own fields and the
  links, prices and sides of their orders are as before, represents the same lists.
\<close>

lemma book_rep_cong:
  assumes rep: "book_rep s c f" and "infra s'"
    and keys: "\<And>p i. price_levels (book s') p = Some (Some i) \<longleftrightarrow> price_levels (book s) p = Some (Some i)"
    and bests: "\<And>b. best (side_of b) s' = best (side_of b) s"
    and lv: "\<And>i. i \<in> listed s \<Longrightarrow> levels s' i = levels s i"
    and live: "live (opool s) \<subseteq> live (opool s')" "live (lpool s') = live (lpool s)"
    and ord: "\<And>i a. i \<in> listed s \<Longrightarrow> a \<in> set (f i) \<Longrightarrow>
      o_next (orders s' a) = o_next (orders s a) \<and> o_previous (orders s' a) = o_previous (orders s a)
      \<and> o_limit_price (orders s' a) = o_limit_price (orders s a) \<and> o_side (orders s' a) = o_side (orders s a)"
  shows "book_rep s' c f"
proof -
  have L: "listed s' = listed s" using keys by (simp add: listed_def)
  have ok: "level_ok s' f i" if "i \<in> listed s" for i
  proof -
    note k = book_rep_level(1) [OF rep that]
    have "level_rep (orders s') (levels s' i) (f i) \<longleftrightarrow> level_rep (orders s) (levels s i) (f i)"
      by (rule level_rep_cong) (use ord [OF that] lv [OF that] in auto)
    then show ?thesis using k lv [OF that] live ord [OF that] by (auto simp: level_ok_def)
  qed
  have "levels_rep s' f"
    unfolding levels_rep_def L
  proof (intro conjI allI impI)
    fix p i assume "price_levels (book s') p = Some (Some i)"
    then have "i \<in> listed s" and "price_level (levels s i) = p"
      using keys book_rep_priced [OF rep] by blast+
    then show "price_level (levels s' i) = p" and "level_ok s' f i" using ok lv by auto
  next
    show "\<forall>i \<in> listed s. \<forall>j \<in> listed s. i \<noteq> j \<longrightarrow> set (f i) \<inter> set (f j) = {}"
      using book_repD(2) [OF rep] by (simp add: levels_rep_def)
  qed
  moreover have "side_rep s' (c b) f b" for b
  proof -
    note sr = book_repD(3) [OF rep, of b]
    then have sub: "set (c b) \<subseteq> listed s" by (simp add: side_rep_def)
    have lv': "levels s' i = levels s i" if "i \<in> set (c b)" for i using that sub lv by blast
    have "chain (levels s') p (c b) \<longleftrightarrow> chain (levels s) p (c b)" for p by (rule chain_cong) (simp add: lv')
    then have "chain (levels s') (best (side_of b) s') (c b)" using book_rep_chain(1) [OF rep] bests by simp
    then show ?thesis
      by (rule side_rep_transfer [OF sr _ _ book_rep_chain(3) [OF rep]]) (use sub ord L lv' in auto)
  qed
  ultimately show ?thesis using assms(2) live(2) L book_repD(4) [OF rep] by (simp add: book_rep_def)
qed

lemma book_rep_log [simp]:
  "book_rep s c f \<Longrightarrow> book_rep (log_update mku s) c f"
  "book_rep s c f \<Longrightarrow> book_rep (log_response mkr s) c f"
  by (rule book_rep_cong; use book_repD(1) [of s c f] in \<open>auto simp: infra_def\<close>)+

lemma book_rep_shared [simp]:
  "book_rep s c f \<Longrightarrow> book_rep (s\<lparr>next_trade_id := t\<rparr>) c f"
  "book_rep s c f \<Longrightarrow> book_rep (s\<lparr>ticks := n\<rparr>) c f"
  by (rule book_rep_cong; use book_repD(1) [of s c f] in \<open>auto simp: infra_def\<close>)+

lemma book_rep_index:
  assumes "book_rep s c f" and "index_price_levels p s = (pl, s')"
  shows "book_rep s' c f \<and> (case pl of None \<Rightarrow> \<not> (\<exists>i. price_levels (book s) p = Some (Some i))
      | Some i \<Rightarrow> price_levels (book s) p = Some (Some i) \<and> s' = s)
    \<and> (s' = s \<or> s' = set_price_level p None s)"
proof (cases "price_levels (book s) p")
  case None
  then have "s' = set_price_level p None s" and "pl = None"
    using assms(2) by (auto simp: index_price_levels_def)
  moreover have "book_rep (set_price_level p None s) c f"
    using assms(1) by (rule book_rep_cong)
      (use None book_repD(1) [OF assms(1)] in \<open>auto simp: infra_def\<close>)
  ultimately show ?thesis using None by simp
next
  case (Some q)
  then show ?thesis using assms by (auto simp: index_price_levels_def split: option.splits)
qed

section \<open>Removing an order from its level\<close>

text \<open>
  A state that differs from \<open>s\<close> only in the orders of the level \<open>i\<close> and in the top of \<open>i\<close>;
  the level now holds \<open>xs\<close>, a part of what it held.
\<close>

lemma book_rep_sublevel:
  assumes rep: "book_rep s c f" and i: "i \<in> listed s"
    and xs: "level_rep h (l\<lparr>top_order := t\<rparr>) xs" "set xs \<subseteq> set (f i)" "l = levels s i"
    and pay: "\<And>a. payload (h a) = payload (orders s a)"
    and out: "\<And>a. a \<notin> set (f i) \<Longrightarrow> h a = orders s a"
  shows "book_rep (set_level i (l\<lparr>top_order := t\<rparr>) (set_orders h s)) c (f(i := xs))"
proof -
  let ?s = "set_level i (l\<lparr>top_order := t\<rparr>) (set_orders h s)"
  have L: "listed ?s = listed s" by (simp add: listed_def)
  have pr: "price_level (levels ?s j) = price_level (levels s j)"
    "l_side (levels ?s j) = l_side (levels s j)"
    "next_price_level (levels ?s j) = next_price_level (levels s j)" for j
    using xs(3) by simp_all
  note eqs = payload_eqD [OF pay]
  have other: "level_rep h (levels s j) (f j)" if "j \<in> listed s" "j \<noteq> i" for j
    using level_rep_keep [OF rep that(1), of h] out book_rep_orders_disjoint [OF rep that(1) i that(2)] by blast
  have "levels_rep ?s (f(i := xs))"
    unfolding levels_rep_def L
  proof (intro conjI allI impI ballI)
    fix p j assume "price_levels (book ?s) p = Some (Some j)"
    then have j: "j \<in> listed s" "price_level (levels s j) = p"
      using book_rep_priced [OF rep] by auto
    then show "price_level (levels ?s j) = p" using pr by simp
    note k = book_rep_level(1) [OF rep j(1)]
    show "level_ok ?s (f(i := xs)) j"
      using k other [OF j(1)] xs by (auto simp: level_ok_def eqs)
  next
    fix j k assume "j \<in> listed s" "k \<in> listed s" "j \<noteq> k"
    then show "set ((f(i := xs)) j) \<inter> set ((f(i := xs)) k) = {}"
      using book_rep_orders_disjoint [OF rep, of j k] xs(2) by auto
  qed
  moreover have "side_rep ?s (c b) (f(i := xs)) b" for b
  proof -
    note sr = book_repD(3) [OF rep, of b]
    have "chain (levels ?s) p (c b) \<longleftrightarrow> chain (levels s) p (c b)" for p
      by (rule chain_cong, rule pr(3))
    then show ?thesis
      using sr xs(2) unfolding side_rep_def L pr by (auto simp: eqs)
  qed
  ultimately show ?thesis
    using book_repD(1,4) [OF rep] L by (simp add: book_rep_def infra_def)
qed

lemma cancel_at_found:
  assumes rep: "book_rep s c f" and i: "i \<in> listed s" and fi: "f i = ys @ a # zs"
    and oid: "o_order_id (orders s a) = oid" "\<forall>y \<in> set ys. o_order_id (orders s y) \<noteq> oid"
  shows "\<exists>h t. cancel_at i oid s = ret (Some a, set_level i ((levels s i)\<lparr>top_order := t\<rparr>) (set_orders h s))
    \<and> book_rep (set_level i ((levels s i)\<lparr>top_order := t\<rparr>) (set_orders h s)) c (f(i := ys @ zs))
    \<and> (\<forall>j. payload (h j) = payload (orders s j))
    \<and> (t = None \<longleftrightarrow> ys @ zs = [])"
proof -
  have "level_rep (orders s) (levels s i) (ys @ a # zs)"
    using book_rep_level(1) [OF rep i] fi by (simp add: level_ok_def)
  from OrdersPriceLevel_cancel_found [OF this oid] obtain h l where
    c: "OrdersPriceLevel_cancel oid (orders s) (levels s i) = ret (Some a, h, l)"
    and l: "level_rep h l (ys @ zs)" and pay: "\<forall>j. payload (h j) = payload (orders s j)"
    and out: "\<forall>j. j \<notin> set (ys @ a # zs) \<longrightarrow> h j = orders s j"
    and top: "l = (levels s i)\<lparr>top_order := top_order l\<rparr>" by blast
  let ?t = "top_order l"
  have "book_rep (set_level i ((levels s i)\<lparr>top_order := ?t\<rparr>) (set_orders h s)) c (f(i := ys @ zs))"
    by (rule book_rep_sublevel [OF rep i]) (use l top pay out fi in auto)
  moreover have "cancel_at i oid s
      = ret (Some a, set_level i ((levels s i)\<lparr>top_order := ?t\<rparr>) (set_orders h s))"
    using c top by (simp add: cancel_at_def)
  moreover have "?t = None \<longleftrightarrow> ys @ zs = []"
    using l by (auto simp: level_rep_def split: if_splits)
  ultimately show ?thesis using pay by (intro exI [of _ h] exI [of _ ?t]) simp
qed

lemma cancel_at_missing:
  assumes rep: "book_rep s c f" and i: "i \<in> listed s" and "f i \<noteq> []"
    and "\<forall>a \<in> set (f i). o_order_id (orders s a) \<noteq> oid"
  shows "cancel_at i oid s = ret (None, set_level i (levels s i) (set_orders (orders s) s))"
  using OrdersPriceLevel_cancel_missing [of "orders s" "levels s i" "f i" oid]
    book_rep_level(1) [OF rep i] assms(3,4) by (simp add: cancel_at_def level_ok_def)

section \<open>The representation is unique\<close>

text \<open>
  The memory of a book determines its chains and lists: whoever says which orders rest in it
  says the same.
\<close>

lemma chain_unique: "chain lh p is \<Longrightarrow> chain lh p js \<Longrightarrow> is = js"
proof (induction "is" arbitrary: p js)
  case (Cons i "is")
  then show ?case by (cases js) auto
qed simp

lemma links_unique:
  "links h (a # us @ [t]) \<Longrightarrow> links h (a # vs @ [t]) \<Longrightarrow> t \<notin> set us \<Longrightarrow> t \<notin> set vs \<Longrightarrow> us = vs"
proof (induction us arbitrary: a vs)
  case Nil
  then show ?case by (cases vs) auto
next
  case (Cons u us)
  then obtain vs' where "vs = u # vs'" by (cases vs) auto
  with Cons.prems show ?case using Cons.IH [of u vs'] by simp
qed

lemma level_rep_unique:
  assumes "level_rep h l xs" and "level_rep h l ys"
  shows "xs = ys"
proof (cases xs)
  case Nil
  then show ?thesis using assms by (auto simp: level_rep_def split: if_splits)
next
  case (Cons t us)
  with assms obtain vs where "ys = t # vs" by (cases ys) (auto simp: level_rep_def)
  with Cons assms show ?thesis using links_unique [of h t us t vs] by (simp add: level_rep_def ring_def)
qed

lemma book_rep_unique:
  assumes "book_rep s c f" and "book_rep s c' f'"
  shows "c' = c" "i \<in> listed s \<Longrightarrow> f' i = f i" "resting s c' f' = resting s c f"
proof -
  have c: "c' b = c b" for b
    by (rule chain_unique [OF book_rep_chain(1) [OF assms(2)] book_rep_chain(1) [OF assms(1)]])
  have f: "f' i = f i" if "i \<in> listed s" for i
    by (rule level_rep_unique) (use book_rep_level(1) that assms in \<open>auto simp: level_ok_def\<close>)
  show "c' = c" using c by (rule ext)
  show "i \<in> listed s \<Longrightarrow> f' i = f i" by (rule f)
  have "map f' (c b) = map f (c b)" for b
    by (rule map_cong [OF refl f]) (use book_rep_chain(2) [OF assms(1), of b] in blast)
  then have "resting s c' f' b = resting s c f b" for b unfolding resting_def c by (simp only:)
  then show "resting s c' f' = resting s c f" by (rule ext)
qed

end
