(* ===== verification/Order_Book_Levels.thy ===== *)
theory Order_Book_Levels
  imports Order_Book_Rep
begin

text \<open>
  Removing and inserting price levels. A level on its chain is unlinked, unregistered and given
  back to the pool. A new level goes to the front of its chain when its price is the best; a
  level behind another one is registered but stays off the chain, and removing such a level
  runs past the end of the chain.
\<close>

section \<open>Walking a chain\<close>

lemma remove_walk_finds:
  assumes "chain lh (Some a) (xs @ j # i # ys)"
    and "\<forall>k \<in> set (tl (xs @ [j])). price_level (lh k) \<noteq> price_level (lh i)"
  shows "remove_walk (price_level (lh i)) lh a = ret j"
  using assms
proof (induction xs arbitrary: a)
  case Nil
  then show ?case by (simp add: remove_walk.simps)
next
  case (Cons x xs)
  then have a: "a = x" by simp
  obtain k zs where k: "xs @ [j] = k # zs" by (cases "xs @ [j]") auto
  have nxt: "next_price_level (lh x) = Some k"
    using Cons.prems(1) k by (cases xs) auto
  have "price_level (lh k) \<noteq> price_level (lh i)" using Cons.prems(2) k by simp
  then have "remove_walk (price_level (lh i)) lh a = remove_walk (price_level (lh i)) lh k"
    using nxt a by (subst remove_walk.simps) simp
  also have "\<dots> = ret j"
    using Cons.IH [of k] Cons.prems nxt k by (simp add: a)
  finally show ?case .
qed

lemma remove_walk_off_chain:
  assumes "chain lh (Some a) is" and "\<forall>k \<in> set is. price_level (lh k) \<noteq> p"
  shows "remove_walk p lh a = throw Null_Dereference"
  using assms
proof (induction "is" arbitrary: a)
  case (Cons x js)
  then have a: "a = x" by simp
  show ?case
  proof (cases js)
    case Nil
    with Cons.prems a show ?thesis by (simp add: remove_walk.simps)
  next
    case (Cons k ks)
    then have nxt: "next_price_level (lh x) = Some k" using Cons.prems(1) by auto
    then have "remove_walk p lh a = remove_walk p lh k"
      using Cons.prems(2) Cons a by (subst remove_walk.simps) simp
    then show ?thesis using Cons.IH [of k] Cons.prems nxt Cons a by simp
  qed
qed simp

lemma insert_walk_returns:
  assumes "chain lh p is"
  shows "insert_walk side price lh p = ret (case dropWhile
      (\<lambda>i. better (side = BUY) (price_level (lh i)) price) is of [] \<Rightarrow> None | i # _ \<Rightarrow> Some i)"
  using assms
proof (induction "is" arbitrary: p)
  case Nil
  then show ?case by (simp add: insert_walk.simps)
next
  case (Cons i "is")
  then show ?case
    by (subst insert_walk.simps) (auto simp: better_def)
qed

section \<open>Removing a level from its chain\<close>

lemma book_rep_unlist:
  assumes rep: "book_rep s c f" and cb: "c b = xs @ i # ys"
    and "infra s'"
    and keys: "price_levels (book s') = (price_levels (book s))(price_level (levels s i) \<mapsto> None)"
    and ord: "orders s' = orders s" "live (opool s') = live (opool s)"
    and lv: "live (lpool s') = live (lpool s) - {i}"
      "\<And>k. price_level (levels s' k) = price_level (levels s k) \<and> top_order (levels s' k) = top_order (levels s k)
         \<and> l_side (levels s' k) = l_side (levels s k)"
    and chains: "chain (levels s') (best (side_of b) s') (xs @ ys)"
      "chain (levels s') (best (side_of (\<not> b)) s') (c (\<not> b))"
  shows "book_rep s' (c(b := xs @ ys)) f" and "listed s' = listed s - {i}"
proof -
  have il: "i \<in> listed s" using book_rep_chain(2) [OF rep, of b] cb by auto
  note pi = book_rep_level(2) [OF rep il]
  have key: "price_levels (book s') p = Some (Some k) \<longleftrightarrow>
      price_levels (book s) p = Some (Some k) \<and> k \<noteq> i" for p k
    using keys pi book_rep_priced [OF rep, of p k] by auto
  then show L: "listed s' = listed s - {i}" by (auto simp: listed_def)
  have "levels_rep s' f"
    unfolding levels_rep_def L
  proof (intro conjI allI impI ballI)
    fix p k assume "price_levels (book s') p = Some (Some k)"
    then have k: "k \<in> listed s" "price_level (levels s k) = p" "k \<noteq> i"
      using key book_rep_priced [OF rep] by auto
    then show "price_level (levels s' k) = p" using lv(2) by simp
    have "level_rep (orders s') (levels s' k) (f k) \<longleftrightarrow> level_rep (orders s) (levels s k) (f k)"
      by (rule level_rep_cong) (use lv(2) ord in auto)
    then show "level_ok s' f k"
      using book_rep_level(1) [OF rep k(1)] k(3) ord lv by (auto simp: level_ok_def)
  next
    fix j k assume "j \<in> listed s - {i}" "k \<in> listed s - {i}" "j \<noteq> k"
    then show "set (f j) \<inter> set (f k) = {}" using book_rep_orders_disjoint [OF rep] by simp
  qed
  moreover have "side_rep s' ((c(b := xs @ ys)) d) f d" for d
  proof (cases "d = b")
    case True
    have "i \<notin> set (xs @ ys)" using book_rep_distinct [OF rep, of b] cb by simp
    then show ?thesis
      using book_repD(3) [OF rep, of b] cb True chains(1) L lv(2) ord
      by (auto simp: side_rep_def sorted_wrt_append)
  next
    case False
    then have d: "d = (\<not> b)" by simp
    have "i \<notin> set (c d)" using book_rep_other_side [OF rep, of i b] cb d by simp
    then show ?thesis
      using book_repD(3) [OF rep, of d] False chains(2) L lv(2) ord d
      by (auto simp: side_rep_def)
  qed
  ultimately show "book_rep s' (c(b := xs @ ys)) f"
    using assms(3) lv(1) L book_repD(4) [OF rep] by (auto simp: book_rep_def)
qed

lemma outside_eq_orders: "outside_eq s s' \<Longrightarrow> orders s' = orders s"
  by (metis objects_pools(1) outside_eq_def)

lemma chain_level:
  assumes rep: "book_rep s c f" and cb: "c b = xs @ i # ys"
  shows "i \<in> live (lpool s)" "best (l_side (levels s i)) s = best (side_of b) s"
    "l_side (levels s i) = BUY \<longleftrightarrow> b" "chain (levels s) (best (side_of b) s) (xs @ i # ys)" "distinct (xs @ i # ys)"
proof -
  have "i \<in> listed s" using book_rep_chain(2) [OF rep, of b] cb by auto
  then show "i \<in> live (lpool s)" using book_rep_level(1) [OF rep] by (simp add: level_ok_def)
  show side: "l_side (levels s i) = BUY \<longleftrightarrow> b" using book_rep_chain(4) [OF rep, of i b] cb by simp
  show "best (l_side (levels s i)) s = best (side_of b) s" using side by (simp add: best_def)
  show "chain (levels s) (best (side_of b) s) (xs @ i # ys)" using book_rep_chain(1) [OF rep, of b] cb by simp
  show "distinct (xs @ i # ys)" using book_rep_distinct [OF rep, of b] cb by simp
qed

lemma removePriceLevel_front:
  assumes rep: "book_rep s c f" and cb: "c b = i # ys"
  shows "\<exists>s'. removePriceLevel i s = ret s' \<and> book_rep s' (c(b := ys)) f
    \<and> listed s' = listed s - {i} \<and> live (lpool s') = live (lpool s) - {i} \<and> outside_eq s s'
    \<and> (\<forall>k. price_level (levels s' k) = price_level (levels s k))"
proof -
  have cb': "c b = [] @ i # ys" using cb by simp
  note at = chain_level [OF rep cb']
  have inf: "infra s" by (rule book_repD(1) [OF rep])
  obtain lp where rel: "releaseObject i (lpool s) = ret lp" "pool_ok lp"
    "live lp = live (lpool s) - {i}" "objects lp = levels s" "capacity lp = capacity (lpool s)"
    using pool.release_effect [OF _ at(1)] inf by (auto simp: infra_def)
  let ?s' = "set_level_pool lp (set_price_level (price_level (levels s i)) None
               (set_best (l_side (levels s i)) (next_price_level (levels s i)) s))"
  have "removePriceLevel i s = ret ?s'"
    using at(2,4) rel(1) by (simp add: removePriceLevel_def Let_def getPriceLevelIndex_def)
  moreover have "book_rep ?s' (c(b := [] @ ys)) f \<and> listed ?s' = listed s - {i}"
    by (intro conjI book_rep_unlist [OF rep cb'])
      (use inf rel at book_rep_chain(1) [OF rep, of "\<not> b"] in \<open>auto simp: infra_def live_def\<close>)
  ultimately show ?thesis using rel by (intro exI [of _ ?s']) (simp add: outside_eq_def)
qed

text \<open>Behind another level the walk finds the predecessor \<open>j\<close>, which is linked to the successor.\<close>

lemma removePriceLevel_walk:
  assumes rep: "book_rep s c f" and cb: "c b = zs @ j # i # ys"
  shows "\<exists>a. best (side_of b) s = Some a \<and> a \<noteq> i \<and> remove_walk (price_level (levels s i)) (levels s) a = ret j"
proof -
  have cb': "c b = (zs @ [j]) @ i # ys" using cb by simp
  note at = chain_level [OF rep cb']
  obtain a where a: "best (side_of b) s = Some a" "hd (c b) = a" using at(4) cb by (cases zs) auto
  have pr: "price_level (levels s k) \<noteq> price_level (levels s i)" if "k \<in> set (zs @ [j])" for k
    using book_rep_price_inj [OF rep, of k i] book_rep_chain(2) [OF rep, of b] cb that at(5) by auto
  have "remove_walk (price_level (levels s i)) (levels s) a = ret j"
    by (rule remove_walk_finds [of _ _ zs])
      (use at(4) a pr in \<open>auto dest: list.set_sel(2) [rotated]\<close>)
  moreover have "a \<noteq> i" using a at(5) cb by (cases zs) auto
  ultimately show ?thesis using a(1) by blast
qed

lemma removePriceLevel_behind:
  assumes rep: "book_rep s c f" and cb: "c b = zs @ j # i # ys"
  shows "\<exists>s'. removePriceLevel i s = ret s' \<and> book_rep s' (c(b := zs @ j # ys)) f
    \<and> listed s' = listed s - {i} \<and> live (lpool s') = live (lpool s) - {i} \<and> outside_eq s s'
    \<and> (\<forall>k. price_level (levels s' k) = price_level (levels s k))"
proof -
  have cb': "c b = (zs @ [j]) @ i # ys" using cb by simp
  note at = chain_level [OF rep cb']
  have inf: "infra s" by (rule book_repD(1) [OF rep])
  let ?lj = "setNextPriceLevel (next_price_level (levels s i)) (levels s j)"
  obtain lp where rel: "releaseObject i (lpool (set_level j ?lj s)) = ret lp" "pool_ok lp"
    "live lp = live (lpool s) - {i}" "objects lp = (levels s)(j := ?lj)" "capacity lp = capacity (lpool s)"
    using pool.release_effect [of "lpool (set_level j ?lj s)" i] at(1) inf by (auto simp: infra_def)
  let ?s' = "set_level_pool lp (set_price_level (price_level (levels s i)) None (set_level j ?lj s))"
  obtain a where "best (side_of b) s = Some a" "a \<noteq> i"
    "remove_walk (price_level (levels s i)) (levels s) a = ret j"
    using removePriceLevel_walk [OF rep cb] by blast
  then have "removePriceLevel i s = ret ?s'"
    using at(2,5) rel(1) by (simp add: removePriceLevel_def Let_def getPriceLevelIndex_def)
  moreover have "chain (levels ?s') (best (side_of b) s) ((zs @ [j]) @ ys)"
    using chain_delete [of "levels s" _ zs j i ys] at(4,5) rel(4) by (simp add: setNextPriceLevel_def)
  moreover have "chain (levels ?s') (best (side_of (\<not> b)) s) (c (\<not> b))"
    using book_rep_chain(1) [OF rep, of "\<not> b"] book_rep_other_side [OF rep, of j b] cb rel(4)
    by (subst chain_cong [where lh = "levels s"]) auto
  ultimately have "removePriceLevel i s = ret ?s'
      \<and> book_rep ?s' (c(b := (zs @ [j]) @ ys)) f \<and> listed ?s' = listed s - {i}"
    by (intro conjI book_rep_unlist [OF rep cb'])
      (use inf rel in \<open>auto simp: infra_def setNextPriceLevel_def\<close>)
  then show ?thesis
    using rel by (intro exI [of _ ?s']) (simp add: outside_eq_def setNextPriceLevel_def)
qed

lemma removePriceLevel_linked:
  assumes rep: "book_rep s c f" and cb: "c b = xs @ i # ys"
  shows "\<exists>s'. removePriceLevel i s = ret s' \<and> book_rep s' (c(b := xs @ ys)) f
    \<and> listed s' = listed s - {i} \<and> live (lpool s') = live (lpool s) - {i} \<and> outside_eq s s'
    \<and> (\<forall>k. price_level (levels s' k) = price_level (levels s k))"
proof (cases xs rule: rev_cases)
  case Nil
  then show ?thesis using removePriceLevel_front [OF rep, of b i ys] cb by simp
next
  case (snoc zs j)
  then show ?thesis using removePriceLevel_behind [OF rep, of b zs j i ys] cb by simp
qed

lemma removePriceLevel_unlinked:
  assumes rep: "book_rep s c f" and i: "i \<in> listed s" "i \<notin> set (c b)"
    and side: "l_side (levels s i) = BUY \<longleftrightarrow> b" and "c b \<noteq> []"
  shows "removePriceLevel i s = throw Null_Dereference"
proof -
  have ch: "chain (levels s) (best (side_of b) s) (c b)" by (rule book_rep_chain(1) [OF rep])
  then obtain a where a: "best (side_of b) s = Some a" "a \<in> set (c b)"
    using assms(5) by (cases "c b") auto
  have "\<forall>k \<in> set (c b). price_level (levels s k) \<noteq> price_level (levels s i)"
    using book_rep_price_inj [OF rep _ i(1)] book_rep_chain(2) [OF rep, of b] i(2) by blast
  then have "remove_walk (price_level (levels s i)) (levels s) a = throw Null_Dereference"
    using remove_walk_off_chain [of "levels s" a "c b"] ch a by simp
  moreover have "best (l_side (levels s i)) s = Some a" using a side by (simp add: best_def)
  ultimately show ?thesis using a i by (auto simp: removePriceLevel_def Let_def)
qed

section \<open>Inserting a level\<close>

lemma listed_enlist:
  assumes keys: "price_levels (book s') = (price_levels (book s))(p \<mapsto> Some i)"
    and fresh: "\<And>k. price_levels (book s) p \<noteq> Some (Some k)"
  shows "listed s' = insert i (listed s)"
proof -
  have "price_levels (book s') q = Some (Some k) \<longleftrightarrow>
      (if q = p then k = i else price_levels (book s) q = Some (Some k))" for q k
    using keys by auto
  then have "k \<in> listed s' \<longleftrightarrow> k = i \<or> k \<in> listed s" for k
    using fresh unfolding listed_def mem_Collect_eq by metis
  then show ?thesis by auto
qed

lemma levels_rep_enlist:
  assumes rep: "book_rep s c f" and L: "listed s' = insert i (listed s)" and il: "i \<notin> listed s"
    and keys: "price_levels (book s') = (price_levels (book s))(p \<mapsto> Some i)"
    and ord: "orders s' = orders s" "opool s' = opool s"
    and lv: "levels s' = (levels s)(i := l)" "live (lpool s') = insert i (live (lpool s))"
    and l: "price_level l = p" "top_order l = None"
  shows "levels_rep s' (f(i := []))"
  unfolding levels_rep_def L
proof (intro conjI allI impI ballI)
  fix q k assume k: "price_levels (book s') q = Some (Some k)"
  show "price_level (levels s' k) = q"
    using k keys lv(1) l(1) il book_rep_priced [OF rep, of q k] by (auto split: if_splits)
  show "level_ok s' (f(i := [])) k"
  proof (cases "k = i")
    case True
    then show ?thesis using lv l by (simp add: level_ok_def level_rep_def)
  next
    case False
    then have "k \<in> listed s" using k keys by (auto simp: listed_def split: if_splits)
    then show ?thesis
      using book_rep_level(1) [OF rep] False ord lv by (simp add: level_ok_def)
  qed
next
  fix j k assume "j \<in> insert i (listed s)" "k \<in> insert i (listed s)" "j \<noteq> k"
  then show "set ((f(i := [])) j) \<inter> set ((f(i := [])) k) = {}"
    using book_rep_orders_disjoint [OF rep] by auto
qed

lemma side_rep_enlist:
  assumes rep: "book_rep s c f" and L: "listed s' = insert i (listed s)" and il: "i \<notin> listed s"
    and ord: "orders s' = orders s" and lv: "levels s' = (levels s)(i := l)"
    and same: "js = c d \<Longrightarrow> best (side_of d) s' = best (side_of d) s"
    and front: "js \<noteq> c d \<Longrightarrow> js = i # c d \<and> next_price_level l = best (side_of d) s
      \<and> best (side_of d) s' = Some i \<and> (l_side l = BUY \<longleftrightarrow> d)
      \<and> (\<forall>k \<in> set (c d). better d (price_level l) (price_level (levels s k)))"
  shows "side_rep s' js (f(i := [])) d"
proof -
  note sr = book_repD(3) [OF rep, of d]
  then have sub: "set (c d) \<subseteq> listed s" by (simp add: side_rep_def)
  have nk: "k \<noteq> i" and lvc: "levels s' k = levels s k" if "k \<in> set (c d)" for k
    using that sub il lv by auto
  have ch: "chain (levels s') q (c d) \<longleftrightarrow> chain (levels s) q (c d)" for q
    by (rule chain_cong) (simp add: lvc)
  have srt: "sorted_wrt (\<lambda>i j. better d (price_level (levels s' i)) (price_level (levels s' j))) (c d)"
    by (rule sorted_wrt_mono_rel [OF _ book_rep_chain(3) [OF rep]]) (simp add: lvc)
  have sides: "\<forall>k \<in> set (c d). (l_side (levels s' k) = BUY \<longleftrightarrow> d)
      \<and> (\<forall>a \<in> set ((f(i := [])) k). o_side (orders s' a) = BUY \<longleftrightarrow> d)"
    using sr ord nk by (simp add: side_rep_def lvc)
  show ?thesis
  proof (cases "js = c d")
    case True
    then show ?thesis using sr same ch srt sides sub L by (auto simp: side_rep_def)
  next
    case False
    have "levels s' i = l" using lv by simp
    then show ?thesis using front [OF False] sr ch srt sides sub L by (auto simp: side_rep_def lvc)
  qed
qed

lemma book_rep_enlist:
  assumes rep: "book_rep s c f" and "infra s'"
    and keys: "price_levels (book s') = (price_levels (book s))(p \<mapsto> Some i)"
    and fresh: "\<And>k. price_levels (book s) p \<noteq> Some (Some k)" "i \<notin> live (lpool s)"
    and ord: "orders s' = orders s" "opool s' = opool s"
    and lv: "levels s' = (levels s)(i := l)" "live (lpool s') = insert i (live (lpool s))"
    and l: "price_level l = p" "top_order l = None"
    and same: "\<And>d. c' d = c d \<Longrightarrow> best (side_of d) s' = best (side_of d) s"
    and front: "\<And>d. c' d \<noteq> c d \<Longrightarrow> c' d = i # c d \<and> next_price_level l = best (side_of d) s
      \<and> best (side_of d) s' = Some i \<and> (l_side l = BUY \<longleftrightarrow> d)
      \<and> (\<forall>k \<in> set (c d). better d p (price_level (levels s k)))"
  shows "book_rep s' c' (f(i := []))" and "listed s' = insert i (listed s)"
proof -
  have il: "i \<notin> listed s"
    using fresh(2) book_rep_level(1) [OF rep] by (auto simp: level_ok_def)
  show L: "listed s' = insert i (listed s)" by (rule listed_enlist [OF keys fresh(1)])
  have "levels_rep s' (f(i := []))" by (rule levels_rep_enlist [OF rep L il keys ord lv l])
  moreover have "side_rep s' (c' d) (f(i := [])) d" for d
    by (rule side_rep_enlist [OF rep L il ord(1) lv(1) same]) (use front [of d] l(1) in simp_all)
  ultimately show "book_rep s' c' (f(i := []))"
    using assms(2) lv(2) L book_repD(4) [OF rep] by (auto simp: book_rep_def)
qed

text \<open>Where a new level at price \<open>p\<close> ends up: at the front of its chain, or off it.\<close>

definition goes_front :: "BookState \<Rightarrow> nat list \<Rightarrow> bool \<Rightarrow> PriceT \<Rightarrow> bool" where
  "goes_front s is b p \<longleftrightarrow> (case is of [] \<Rightarrow> True | k # _ \<Rightarrow> better b p (price_level (levels s k)))"

lemma goes_front_best:
  assumes "book_rep s c f" and "goes_front s (c b) b p"
  shows "\<forall>k \<in> set (c b). better b p (price_level (levels s k))"
  using assms(2) book_rep_chain(3) [OF assms(1), of b]
  by (cases "c b") (auto simp: goes_front_def intro: better_trans)

text \<open>The walk of \<open>insertPriceLevel\<close> returns the best level exactly when the new one goes before it.\<close>

definition insert_next :: "BookState \<Rightarrow> nat list \<Rightarrow> bool \<Rightarrow> PriceT \<Rightarrow> ptr" where
  "insert_next s is b p =
     (case dropWhile (\<lambda>i. better b (price_level (levels s i)) p) is of [] \<Rightarrow> None | i # _ \<Rightarrow> Some i)"

lemma insert_next_front:
  assumes rep: "book_rep s c f" and fresh: "\<And>k. price_levels (book s) p \<noteq> Some (Some k)" and b: "b = (side = BUY)"
  shows "insert_walk side p (levels s) (best side s) = ret (insert_next s (c b) b p)"
    and "insert_next s (c b) b p = best side s \<longleftrightarrow> goes_front s (c b) b p"
proof -
  let ?P = "\<lambda>i. better b (price_level (levels s i)) p"
  have ch: "chain (levels s) (best side s) (c b)" using book_rep_chain(1) [OF rep, of b] b by simp
  show "insert_walk side p (levels s) (best side s) = ret (insert_next s (c b) b p)"
    using insert_walk_returns [OF ch, of side p] b by (simp add: insert_next_def)
  have neq: "price_level (levels s k) \<noteq> p" if "k \<in> set (c b)" for k
    using that book_rep_level(2) [OF rep] book_rep_chain(2) [OF rep, of b] fresh by blast
  show "insert_next s (c b) b p = best side s \<longleftrightarrow> goes_front s (c b) b p"
  proof (cases "c b")
    case Nil
    then show ?thesis using ch by (simp add: insert_next_def goes_front_def)
  next
    case (Cons k ks)
    then have k: "best side s = Some k" "k \<notin> set ks"
      using ch book_rep_distinct [OF rep, of b] by auto
    have "insert_next s (c b) b p = Some k \<longleftrightarrow> \<not> ?P k"
      using Cons k(2) set_dropWhileD [of _ ?P ks] by (auto simp: insert_next_def split: list.splits)
    then show ?thesis using Cons k neq [of k] better_total by (simp add: goes_front_def)
  qed
qed

lemma insertPriceLevel_rep:
  assumes rep: "book_rep s c f" and fresh: "\<And>k. price_levels (book s) p \<noteq> Some (Some k)"
    and room: "Suc (card (live (lpool s))) < capacity (lpool s)"
    and b: "b = (side = BUY)"
    and c': "c' = (\<lambda>i. if goes_front s (c b) b p then c(b := i # c b) else c)"
  shows "\<exists>i s'. insertPriceLevel p side p s = ret (i, s') \<and> book_rep s' (c' i) (f(i := []))
    \<and> listed s' = insert i (listed s) \<and> i \<notin> listed s
    \<and> live (lpool s') = insert i (live (lpool s)) \<and> i \<notin> live (lpool s)
    \<and> levels s' = (levels s)(i := levels s' i) \<and> price_level (levels s' i) = p
    \<and> (l_side (levels s' i) = BUY \<longleftrightarrow> b) \<and> outside_eq s s'
    \<and> price_levels (book s') = (price_levels (book s))(p \<mapsto> Some i)"
proof -
  let ?front = "goes_front s (c b) b p" and ?nxt = "insert_next s (c b) b p"
  note walk = insert_next_front [OF rep fresh b]
  have inf: "infra s" by (rule book_repD(1) [OF rep])
  let ?l = "OrdersPriceLevel_new side p ?nxt"
  obtain i lp where get: "getObject ?l (lpool s) = ret (i, lp)"
    using pool.get_returns [OF _ room, of ?l] inf by (auto simp: infra_def)
  have eff: "pool_ok lp" "i \<notin> live (lpool s)" "live lp = insert i (live (lpool s))"
    "objects lp = (levels s)(i := ?l)" "capacity lp = capacity (lpool s)"
    using pool.get_effect [OF _ get] inf by (auto simp: infra_def)
  let ?s2 = "set_price_level p (Some i) (set_level_pool lp s)"
  let ?s3 = "if ?nxt = best side s then set_best side (Some i) ?s2 else ?s2"
  have l: "price_level ?l = p" "top_order ?l = None" "next_price_level ?l = ?nxt" "l_side ?l = side"
    by (simp_all add: OrdersPriceLevel_new_def OrdersPriceLevel_default_def)
  have bests: "best (side_of d) ?s3 = (if d = b \<and> ?front then Some i else best (side_of d) s)" for d
    using walk(2) b by auto
  have changed: "c' i d \<noteq> c d \<longleftrightarrow> d = b \<and> ?front" for d by (auto simp: c')
  have "infra ?s3" "price_levels (book ?s3) = (price_levels (book s))(p \<mapsto> Some i)"
    "orders ?s3 = orders s" "opool ?s3 = opool s" "levels ?s3 = (levels s)(i := ?l)"
    "live (lpool ?s3) = insert i (live (lpool s))"
    using inf eff by (auto simp: infra_def)
  note * = this
  have "c' i d = i # c d \<and> next_price_level ?l = best (side_of d) s \<and> best (side_of d) ?s3 = Some i
      \<and> (l_side ?l = BUY \<longleftrightarrow> d) \<and> (\<forall>k \<in> set (c d). better d p (price_level (levels s k)))"
    if "c' i d \<noteq> c d" for d
    using that goes_front_best [OF rep] walk(2) b unfolding changed bests l by (simp add: c')
  moreover have "best (side_of d) ?s3 = best (side_of d) s" if "c' i d = c d" for d
    using that changed [of d] bests [of d] by auto
  note en = book_rep_enlist [where c' = "c' i", OF rep *(1,2) fresh eff(2) *(3-6) l(1,2) this]
  ultimately have "book_rep ?s3 (c' i) (f(i := []))" and "listed ?s3 = insert i (listed s)"
    by (blast intro: en)+
  moreover have "insertPriceLevel p side p s = ret (i, ?s3)"
    using walk(1) get by (simp add: insertPriceLevel_def Let_def)
  moreover have "i \<notin> listed s" using eff(2) book_rep_level(1) [OF rep] by (auto simp: level_ok_def)
  ultimately show ?thesis
    using eff b by (intro exI [of _ i] exI [of _ ?s3])
      (auto simp: outside_eq_def OrdersPriceLevel_new_def OrdersPriceLevel_default_def)
qed

section \<open>Appending an order to a level\<close>

lemma book_rep_grow:
  assumes rep: "book_rep s c f" and i: "i \<in> listed s" and a: "a \<in> live (opool s)"
    and fresh: "\<And>j. j \<in> listed s \<Longrightarrow> a \<notin> set (f j)"
    and price: "o_limit_price (orders s a) = price_level (levels s i)"
    and side: "\<And>b. i \<in> set (c b) \<Longrightarrow> o_side (orders s a) = BUY \<longleftrightarrow> b"
    and l: "level_rep h l (f i @ [a])" "price_level l = price_level (levels s i)"
      "next_price_level l = next_price_level (levels s i)"
      "l_side l = l_side (levels s i) \<or> l_side l = o_side (orders s a)"
    and pay: "\<And>j. payload (h j) = payload (orders s j)"
    and out: "\<And>j. j \<notin> set (f i) \<Longrightarrow> j \<noteq> a \<Longrightarrow> h j = orders s j"
  shows "book_rep (set_level i l (set_orders h s)) c (f(i := f i @ [a]))"
proof -
  let ?s = "set_level i l (set_orders h s)" and ?f = "f(i := f i @ [a])"
  have L: "listed ?s = listed s" by (simp add: listed_def)
  have pr: "price_level (levels ?s j) = price_level (levels s j)"
    "next_price_level (levels ?s j) = next_price_level (levels s j)" for j
    using l by simp_all
  note eqs = payload_eqD [OF pay]
  have other: "level_rep h (levels s j) (f j)" if "j \<in> listed s" "j \<noteq> i" for j
    using level_rep_keep [OF rep that(1), of h] out fresh [OF that(1)] book_rep_orders_disjoint [OF rep that(1) i that(2)]
    by blast
  have "levels_rep ?s ?f"
    unfolding levels_rep_def L
  proof (intro conjI allI impI ballI)
    fix p j assume "price_levels (book ?s) p = Some (Some j)"
    then have j: "j \<in> listed s" "price_level (levels s j) = p"
      using book_rep_priced [OF rep] by auto
    then show "price_level (levels ?s j) = p" using pr by simp
    note k = book_rep_level(1) [OF rep j(1)]
    show "level_ok ?s ?f j"
      using k other [OF j(1)] l(1,2) a price by (auto simp: level_ok_def eqs)
  next
    fix j k assume "j \<in> listed s" "k \<in> listed s" "j \<noteq> k"
    then show "set (?f j) \<inter> set (?f k) = {}"
      using book_rep_orders_disjoint [OF rep, of j k] fresh by auto
  qed
  moreover have "side_rep ?s (c b) ?f b" for b
  proof -
    note sr = book_repD(3) [OF rep, of b]
    have "chain (levels ?s) p (c b) \<longleftrightarrow> chain (levels s) p (c b)" for p
      by (rule chain_cong, rule pr(2))
    then show ?thesis
      using sr side [of b] l(4) unfolding side_rep_def L pr by (auto simp: eqs)
  qed
  ultimately show ?thesis
    using book_repD(1,4) [OF rep] L by (simp add: book_rep_def infra_def)
qed

lemma place_order:
  assumes rep: "book_rep s c f" and i: "i \<in> listed s"
    and room: "Suc (card (live (opool s))) < capacity (opool s)"
    and price: "o_limit_price ord = price_level (levels s i)"
    and side: "\<And>b. i \<in> set (c b) \<Longrightarrow> o_side ord = BUY \<longleftrightarrow> b"
  shows "\<exists>a op h l. getObject ord (opool s) = ret (a, op)
    \<and> OrdersPriceLevel_add a (orders (set_order_pool op s)) (levels (set_order_pool op s) i) = ret (h, l)
    \<and> book_rep (set_level i l (set_orders h (set_order_pool op s))) c (f(i := f i @ [a]))
    \<and> a \<notin> live (opool s) \<and> live op = insert a (live (opool s)) \<and> capacity op = capacity (opool s)
    \<and> payload (h a) = payload ord \<and> (\<forall>j. j \<noteq> a \<longrightarrow> payload (h j) = payload (orders s j))
    \<and> price_level l = price_level (levels s i)"
proof -
  have inf: "infra s" by (rule book_repD(1) [OF rep])
  obtain a op where get: "getObject ord (opool s) = ret (a, op)"
    using pool.get_returns [OF _ room, of ord] inf by (auto simp: infra_def)
  have eff: "pool_ok op" "a \<notin> live (opool s)" "live op = insert a (live (opool s))"
    "objects op = (orders s)(a := ord)" "capacity op = capacity (opool s)"
    using pool.get_effect [OF _ get] inf by (auto simp: infra_def)
  have fresh: "a \<notin> set (f j)" if "j \<in> listed s" for j
    using eff(2) book_rep_level(1) [OF rep that] by (auto simp: level_ok_def)
  let ?s = "set_order_pool op s"
  have L: "listed ?s = listed s" by (simp add: listed_def)
  have rep': "book_rep ?s c f"
    using rep by (rule book_rep_cong) (use inf eff fresh in \<open>auto simp: infra_def\<close>)
  have "level_rep (orders ?s) (levels ?s i) (f i)"
    using book_rep_level(1) [OF rep'] i L by (simp add: level_ok_def)
  from OrdersPriceLevel_add_rep [OF this fresh [OF i]] obtain h l where
    add: "OrdersPriceLevel_add a (orders ?s) (levels ?s i) = ret (h, l)"
    and lr: "level_rep h l (f i @ [a])" and pay: "\<And>j. payload (h j) = payload (orders ?s j)"
    and out: "\<And>j. j \<notin> set (f i) \<Longrightarrow> j \<noteq> a \<Longrightarrow> h j = orders ?s j"
    and l: "l = (if f i = [] then (levels ?s i)\<lparr>top_order := Some a, l_side := o_side (orders ?s a)\<rparr>
                 else levels ?s i)" by blast
  have lf: "price_level l = price_level (levels ?s i)" "next_price_level l = next_price_level (levels ?s i)"
    "l_side l = l_side (levels ?s i) \<or> l_side l = o_side (orders ?s a)"
    by (simp_all add: l)
  have "book_rep (set_level i l (set_orders h ?s)) c (f(i := f i @ [a]))"
    by (rule book_rep_grow [OF rep' _ _ _ _ _ lr lf pay out])
      (use i L eff fresh price side in auto)
  moreover have "payload (h a) = payload ord" and "\<forall>j. j \<noteq> a \<longrightarrow> payload (h j) = payload (orders s j)"
    using pay eff(4) by auto
  moreover have "price_level l = price_level (levels s i)" using lf(1) by simp
  ultimately show ?thesis using get add eff(2,3,5) by blast
qed

end
