(* ===== verification/Order_Book_Matching.thy ===== *)
theory Order_Book_Matching
  imports Order_Book_Levels
begin

text \<open>
  Matching computes its specification: the loop of \<open>checkForMatch\<close> over the pointer structure
  does to the lists the book represents what \<open>match_spec\<close> does, sends the same messages and
  ends.
\<close>

section \<open>Messages and frames\<close>

text \<open>The loop condition of the code is the specified one.\<close>

lemma crosses_acceptable [simp]: "crosses = acceptable"
  by (simp add: crosses_def acceptable_def fun_eq_iff)

text \<open>
  From \<open>s\<close> to \<open>s'\<close> exactly the messages \<open>evs\<close> were sent; for \<open>emits\<close>, each with one clock
  reading.
\<close>

definition sends :: "BookState \<Rightarrow> BookState \<Rightarrow> event list \<Rightarrow> bool" where
  "sends s s' evs \<longleftrightarrow>
     client_response_queue s' = fold push_slot (responses evs) (client_response_queue s)
     \<and> market_update_queue s' = fold push_slot (updates evs) (market_update_queue s)
     \<and> clock s' = clock s \<and> ob_ticker_id (book s') = ob_ticker_id (book s)"

definition emits :: "BookState \<Rightarrow> BookState \<Rightarrow> event list \<Rightarrow> bool" where
  "emits s s' evs \<longleftrightarrow> sends s s' evs \<and> ticks s' = ticks s + length evs"

lemmas emit_defs = emits_def sends_def

lemma sends_trans: "sends s s1 e1 \<Longrightarrow> sends s1 s2 e2 \<Longrightarrow> sends s s2 (e1 @ e2)"
  by (simp add: sends_def)

lemma emits_trans: "emits s s1 e1 \<Longrightarrow> emits s1 s2 e2 \<Longrightarrow> emits s s2 (e1 @ e2)"
  by (simp add: emit_defs)

lemma emits_outside: "emits s s1 e \<Longrightarrow> outside_eq s1 s2 \<Longrightarrow> emits s s2 e"
  by (simp add: emit_defs outside_eq_def)

lemma payload_quantity [simp]:
  "payload (ord\<lparr>o_quantity := q\<rparr>) = (payload ord)\<lparr>o_quantity := q\<rparr>"
  by (simp add: payload_def)

lemma filled_payload: "filled q (payload ord) = payload (filled q ord)"
  by (simp add: filled_def)

text \<open>The parts of the book that matching one order does not touch.\<close>

definition shape_eq :: "BookState \<Rightarrow> BookState \<Rightarrow> bool" where
  "shape_eq s s' \<longleftrightarrow>
     (\<forall>side. best side s' = best side s) \<and> price_levels (book s') = price_levels (book s)
     \<and> live (opool s') = live (opool s) \<and> live (lpool s') = live (lpool s)
     \<and> capacity (opool s') = capacity (opool s) \<and> capacity (lpool s') = capacity (lpool s)"

lemma shape_eq_listed: "shape_eq s s' \<Longrightarrow> listed s' = listed s"
  by (simp add: shape_eq_def listed_def)

section \<open>One call of \<open>match\<close>\<close>

text \<open>Taking part of an order's quantity keeps every list.\<close>

lemma book_rep_fill:
  assumes "book_rep s c f"
  shows "book_rep (set_orders ((orders s)(a := (orders s a)\<lparr>o_quantity := q\<rparr>)) s) c f"
  using assms
  by (rule book_rep_cong) (use book_repD(1) [OF assms] in \<open>auto simp: infra_def\<close>)

lemma infra_queues:
  "book_rep s c f \<Longrightarrow> lf_ok (client_response_queue s) \<and> lf_ok (market_update_queue s)"
  using book_repD(1) by (auto simp: infra_def)

lemma match_partial:
  assumes rep: "book_rep s c f" and a: "a \<in> set (f i)" "i \<in> listed s"
    and t: "t = \<lparr>tk_ticker = ob_ticker_id (book s), tk_order_id = oid, tk_client_id = cid,
                 tk_side = side, tk_limit = lim\<rparr>"
    and fill: "fill = min q (o_quantity (orders s a))"
    and rest: "o_quantity (filled q (orders s a)) \<noteq> 0"
  shows "\<exists>s'. OrderBook_match oid cid side q a s = ret (q - fill, s') \<and> book_rep s' c f
    \<and> emits s s' (trade_events (clock s) t (next_trade_id s) (ticks s) fill (payload (filled q (orders s a))))
    \<and> next_trade_id s' = next_trade_id s + 1 \<and> shape_eq s s' \<and> levels s' = levels s
    \<and> orders s' = (orders s)(a := filled q (orders s a))"
proof -
  let ?s2 = "set_orders ((orders s)(a := filled q (orders s a)))
     (log_update (MarketUpdate.make UpdateType_TRADE (ob_ticker_id (book s)) OrderId_INVALID
        (next_trade_id s) side fill (o_limit_price (orders s a)))
        (s\<lparr>next_trade_id := next_trade_id s + 1\<rparr>))"
  have q: "lf_ok (client_response_queue s)" "lf_ok (market_update_queue s)"
    using infra_queues [OF rep] by auto
  have "book_rep ?s2 c f"
    using book_rep_fill [of "log_update (MarketUpdate.make UpdateType_TRADE (ob_ticker_id (book s)) OrderId_INVALID
        (next_trade_id s) side fill (o_limit_price (orders s a)))
        (s\<lparr>next_trade_id := next_trade_id s + 1\<rparr>)" c f a] rep
    by (simp add: filled_def)
  then show ?thesis
    using rest q
    by (simp add: OrderBook_match_def Let_def fill emit_defs trade_events_def t shape_eq_def
        filled_def numeral_2_eq_2 numeral_3_eq_3)
qed

lemma getPriceLevel_registered:
  "price_levels (book s) p = Some (Some i) \<Longrightarrow> getPriceLevel p side create s = ret (Some i, s)"
  by (simp add: getPriceLevel_def index_price_levels_def getPriceLevelIndex_def Let_def)

lemma match_consume:
  assumes rep: "book_rep s c f" and i: "i \<in> listed s" "f i = a # as"
    and t: "t = \<lparr>tk_ticker = ob_ticker_id (book s), tk_order_id = oid, tk_client_id = cid,
                 tk_side = side, tk_limit = lim\<rparr>"
    and fill: "fill = min q (o_quantity (orders s a))"
    and rest: "o_quantity (filled q (orders s a)) = 0"
  shows "\<exists>s' tp. OrderBook_match oid cid side q a s = ret (q - fill, s') \<and> book_rep s' c (f(i := as))
    \<and> emits s s' (trade_events (clock s) t (next_trade_id s) (ticks s) fill (payload (filled q (orders s a))))
    \<and> next_trade_id s' = next_trade_id s + 1 \<and> shape_eq s s'
    \<and> levels s' = (levels s)(i := (levels s i)\<lparr>top_order := tp\<rparr>) \<and> (tp = None \<longleftrightarrow> as = [])
    \<and> (\<forall>j. j \<noteq> a \<longrightarrow> payload (orders s' j) = payload (orders s j))"
proof -
  let ?h = "(orders s)(a := filled q (orders s a))"
  let ?s1 = "log_update (MarketUpdate.make UpdateType_TRADE (ob_ticker_id (book s)) OrderId_INVALID
        (next_trade_id s) side fill (o_limit_price (orders s a)))
        (s\<lparr>next_trade_id := next_trade_id s + 1\<rparr>)"
  let ?s3 = "log_update (MarketUpdate.make UpdateType_REMOVE (ob_ticker_id (book s))
        (o_order_id (orders s a)) TradeId_INVALID (o_side (orders s a)) fill (o_limit_price (orders s a)))
        (set_orders ?h ?s1)"
  have q: "lf_ok (client_response_queue s)" "lf_ok (market_update_queue s)"
    using infra_queues [OF rep] by auto
  have rep3: "book_rep ?s3 c f"
    using book_rep_fill [of ?s1 c f a] rep by (simp add: filled_def)
  have L: "listed ?s3 = listed s" by (simp add: listed_def)
  have "o_limit_price (orders s a) = price_level (levels s i)"
    using book_rep_level(1) [OF rep i(1)] i(2) by (simp add: level_ok_def)
  then have key: "price_levels (book s) (o_limit_price (orders s a)) = Some (Some i)"
    using book_rep_level(2) [OF rep i(1)] by simp
  from cancel_at_found [OF rep3, of i "[]" a as "o_order_id (orders s a)"] i L
  obtain h tp where
    can: "cancel_at i (o_order_id (orders s a)) ?s3
        = ret (Some a, set_level i ((levels s i)\<lparr>top_order := tp\<rparr>) (set_orders h ?s3))"
    and rep4: "book_rep (set_level i ((levels s i)\<lparr>top_order := tp\<rparr>) (set_orders h ?s3)) c (f(i := as))"
    and pay: "\<forall>j. payload (h j) = payload (?h j)" and tp: "tp = None \<longleftrightarrow> as = []"
    by (auto simp: filled_def)
  let ?s5 = "set_level i ((levels s i)\<lparr>top_order := tp\<rparr>) (set_orders h ?s3)"
  have pa: "o_client_id (h a) = o_client_id (orders s a)" "o_order_id (h a) = o_order_id (orders s a)"
    "o_side (h a) = o_side (orders s a)" "o_limit_price (h a) = o_limit_price (orders s a)"
    using payload_eqD [OF pay [rule_format, of a]] by (simp_all add: filled_def)
  let ?s7 = "log_response (ClientResponse.make ResponseType_FILLED (ob_ticker_id (book s))
        cid oid side fill (o_limit_price (orders s a)))
      (log_response (ClientResponse.make ResponseType_FILLED (ob_ticker_id (book s))
        (o_client_id (orders s a)) (o_order_id (orders s a)) (o_side (orders s a)) fill
        (o_limit_price (orders s a))) ?s5)"
  have "OrderBook_match oid cid side q a s = ret (q - fill, ?s7)"
    using rest q can key pa getPriceLevel_registered [of ?s3 "o_limit_price (orders s a)" i side False]
    by (simp add: OrderBook_match_def Let_def fill filled_def)
  moreover have "book_rep ?s7 c (f(i := as))" using rep4 by simp
  moreover have "emits s ?s7 (trade_events (clock s) t (next_trade_id s) (ticks s) fill
      (payload (filled q (orders s a))))"
    using rest by (simp add: emit_defs trade_events_def t fill filled_def numeral_2_eq_2 numeral_3_eq_3)
  moreover have "shape_eq s ?s7" by (simp add: shape_eq_def)
  ultimately show ?thesis
    using pay tp by (intro exI [of _ ?s7] exI [of _ tp]) simp
qed

section \<open>One round of the loop\<close>

definition orphans :: "BookState \<Rightarrow> (bool \<Rightarrow> nat list) \<Rightarrow> nat set" where
  "orphans s c = listed s - (set (c True) \<union> set (c False))"

text \<open>
  The orders of the levels that are registered but on no chain. They are announced to the market
  and rest in the memory of the book, but on neither side.
\<close>

definition off_chain :: "BookState \<Rightarrow> (bool \<Rightarrow> nat list) \<Rightarrow> (nat \<Rightarrow> nat list) \<Rightarrow> Order set" where
  "off_chain s c f = (\<lambda>a. payload (orders s a)) ` (\<Union>k \<in> orphans s c. set (f k))"

lemma off_chain_cong:
  assumes "orphans s' c' = orphans s c" and "\<And>k. k \<in> orphans s c \<Longrightarrow> f' k = f k"
    and "\<And>k x. k \<in> orphans s c \<Longrightarrow> x \<in> set (f k) \<Longrightarrow> payload (orders s' x) = payload (orders s x)"
  shows "off_chain s' c' f' = off_chain s c f"
  using assms(2,3) unfolding off_chain_def assms(1) by (intro image_cong) auto

lemma off_chain_none: "orphans s c = {} \<Longrightarrow> off_chain s c f = {}"
  by (simp add: off_chain_def)

text \<open>What trading against the side \<open>d\<close> leaves as it was.\<close>

definition traded ::
  "BookState \<Rightarrow> (bool \<Rightarrow> nat list) \<Rightarrow> (nat \<Rightarrow> nat list) \<Rightarrow>
   BookState \<Rightarrow> (bool \<Rightarrow> nat list) \<Rightarrow> (nat \<Rightarrow> nat list) \<Rightarrow> bool \<Rightarrow> bool" where
  "traded s c f s' c' f' d \<longleftrightarrow>
     c' (\<not> d) = c (\<not> d) \<and> resting s' c' f' (\<not> d) = resting s c f (\<not> d)
     \<and> orphans s' c' = orphans s c \<and> off_chain s' c' f' = off_chain s c f
     \<and> live (opool s') = live (opool s) \<and> live (lpool s') \<subseteq> live (lpool s)
     \<and> capacity (opool s') = capacity (opool s) \<and> capacity (lpool s') = capacity (lpool s)
     \<and> (\<forall>k. price_level (levels s' k) = price_level (levels s k))"

lemma traded_refl: "traded s c f s c f d"
  by (simp add: traded_def)

lemma traded_trans:
  "traded s c f s1 c1 f1 d \<Longrightarrow> traded s1 c1 f1 s2 c2 f2 d \<Longrightarrow> traded s c f s2 c2 f2 d"
  by (auto simp: traded_def)

lemma resting_cong:
  assumes "c' b = c b" and "\<And>k. k \<in> set (c b) \<Longrightarrow> f' k = f k"
    and "\<And>k x. k \<in> set (c b) \<Longrightarrow> x \<in> set (f k) \<Longrightarrow> payload (orders s' x) = payload (orders s x)"
  shows "resting s' c' f' b = resting s c f b"
proof -
  have "concat (map f' (c b)) = concat (map f (c b))"
    using assms(2) by (auto intro: arg_cong [where f = concat])
  then show ?thesis using assms(1,3) by (auto simp: resting_def)
qed

lemma resting_head:
  "c b = i # is \<Longrightarrow> f i = a # as \<Longrightarrow>
     resting s c f b = payload (orders s a) #
       map (\<lambda>x. payload (orders s x)) (as @ concat (map f is))"
  by (simp add: resting_def)

lemma rest_payload:
  assumes rep: "book_rep s c f" and cd: "c d = i # is" "f i = a # as"
    and pay: "\<And>j. j \<noteq> a \<Longrightarrow> payload (h j) = payload (orders s j)"
    and f': "\<And>k. k \<noteq> i \<Longrightarrow> f' k = f k"
  shows "map (\<lambda>x. payload (h x)) (as @ concat (map f' is))
      = map (\<lambda>x. payload (orders s x)) (as @ concat (map f is))"
    and "k \<in> listed s \<Longrightarrow> k \<noteq> i \<Longrightarrow> x \<in> set (f k) \<Longrightarrow> x \<noteq> a"
proof -
  have sub: "set (c d) \<subseteq> listed s" by (rule book_rep_chain(2) [OF rep])
  have il: "i \<in> listed s" and ni: "i \<notin> set is" and na: "a \<notin> set as"
    using sub cd book_rep_distinct [OF rep, of d] book_rep_level_distinct [OF rep, of i] by auto
  show far: "x \<noteq> a" if "k \<in> listed s" "k \<noteq> i" "x \<in> set (f k)" for k x
    using book_rep_orders_disjoint [OF rep that(1) il that(2)] that(3) cd(2) by auto
  have fm: "map f' is = map f is"
  proof (rule map_cong [OF refl])
    fix k assume "k \<in> set is"
    with ni have "k \<noteq> i" by blast
    then show "f' k = f k" by (rule f')
  qed
  have "x \<noteq> a" if "x \<in> set (as @ concat (map f is))" for x
    using that na far sub cd(1) ni by fastforce
  then show "map (\<lambda>x. payload (h x)) (as @ concat (map f' is))
      = map (\<lambda>x. payload (orders s x)) (as @ concat (map f is))"
    unfolding fm by (intro map_cong [OF refl] pay)
qed

text \<open>The resting order is not used up: the loop goes on with nothing left to trade.\<close>

text \<open>The other side does not see what happens to the first order \<open>a\<close> of this side.\<close>

lemma resting_other_side:
  assumes rep: "book_rep s c f" and cd: "c d = i # is" "f i = a # as"
    and pay: "\<And>x. x \<noteq> a \<Longrightarrow> payload (orders s' x) = payload (orders s x)"
    and f': "\<And>k. k \<noteq> i \<Longrightarrow> f' k = f k" and c': "c' (\<not> d) = c (\<not> d)"
  shows "resting s' c' f' (\<not> d) = resting s c f (\<not> d)"
proof (rule resting_cong [of c' "\<not> d" c, OF c'])
  fix k assume k: "k \<in> set (c (\<not> d))"
  then have "k \<noteq> i" using book_rep_other_side [OF rep, of i d] cd(1) by auto
  then show "f' k = f k" by (rule f')
  fix x assume "x \<in> set (f k)"
  then have "x \<noteq> a" using rest_payload(2) [OF rep cd pay f'] k \<open>k \<noteq> i\<close> book_rep_chain(2) [OF rep, of "\<not> d"] by blast
  then show "payload (orders s' x) = payload (orders s x)" by (rule pay)
qed

text \<open>Neither do the orders outside the chains.\<close>

lemma off_chain_other:
  assumes rep: "book_rep s c f" and cd: "c d = i # is" "f i = a # as"
    and pay: "\<And>x. x \<noteq> a \<Longrightarrow> payload (orders s' x) = payload (orders s x)"
    and f': "\<And>k. k \<noteq> i \<Longrightarrow> f' k = f k" and o: "orphans s' c' = orphans s c"
  shows "off_chain s' c' f' = off_chain s c f"
proof (rule off_chain_cong [OF o])
  fix k assume k: "k \<in> orphans s c"
  then have ki: "k \<in> listed s" "k \<noteq> i" using cd(1) by (cases d; auto simp: orphans_def)+
  then show "f' k = f k" by (intro f')
  show "payload (orders s' x) = payload (orders s x)" if "x \<in> set (f k)" for x
    by (rule pay [OF rest_payload(2) [OF rep cd pay f' ki that]])
qed

lemma first_of_side:
  assumes rep: "book_rep s c f" and d: "d = (side \<noteq> BUY)" and cd: "c d = i # is" "f i = a # as"
  shows "i \<in> listed s" "top_order (levels s i) = Some a" "best (opposite side) s = Some i"
proof -
  show il: "i \<in> listed s" using book_rep_chain(2) [OF rep, of d] cd(1) by auto
  show "top_order (levels s i) = Some a"
    using book_rep_level(1) [OF rep il] cd(2) by (simp add: level_ok_def level_rep_def)
  show "best (opposite side) s = Some i" using book_rep_chain(1) [OF rep, of d] cd(1) d by simp
qed

lemma round_partial:
  assumes rep: "book_rep s c f" and set: "settled s f" and d: "d = (side \<noteq> BUY)"
    and cd: "c d = i # is" "f i = a # as"
    and q: "q \<noteq> 0" "acceptable side lim (price_level (levels s i))"
    and t: "t = \<lparr>tk_ticker = ob_ticker_id (book s), tk_order_id = oid, tk_client_id = cid,
                 tk_side = side, tk_limit = lim\<rparr>"
    and fill: "fill = min q (o_quantity (orders s a))"
    and rest: "o_quantity (filled q (orders s a)) \<noteq> 0"
  shows "\<exists>s'. checkForMatch oid cid side q lim s = checkForMatch oid cid side (q - fill) lim s'
    \<and> book_rep s' c f \<and> settled s' f \<and> traded s c f s' c f d
    \<and> emits s s' (trade_events (clock s) t (next_trade_id s) (ticks s) fill (filled q (payload (orders s a))))
    \<and> next_trade_id s' = next_trade_id s + 1
    \<and> resting s' c f d = filled q (payload (orders s a)) # tl (resting s c f d)"
proof -
  note first = first_of_side [OF rep d cd]
  obtain s' where m: "OrderBook_match oid cid side q a s = ret (q - fill, s')" "book_rep s' c f"
    and e: "emits s s' (trade_events (clock s) t (next_trade_id s) (ticks s) fill (payload (filled q (orders s a))))"
    and n: "next_trade_id s' = next_trade_id s + 1" and sh: "shape_eq s s'" and lv: "levels s' = levels s"
    and o: "orders s' = (orders s)(a := filled q (orders s a))"
    using match_partial [OF rep _ first(1) t fill rest] cd(2) by auto
  have pay: "payload (orders s' x) = payload (orders s x)" if "x \<noteq> a" for x using that o by simp
  have "checkForMatch oid cid side q lim s = checkForMatch oid cid side (q - fill) lim s'"
    using first q m(1) sh lv by (subst checkForMatch.simps) (simp add: shape_eq_def)
  moreover have "settled s' f"
    using set rest unfolding settled_def shape_eq_listed [OF sh] o by auto
  moreover have orph: "orphans s' c = orphans s c" by (simp add: orphans_def shape_eq_listed [OF sh])
  moreover have "resting s' c f d = filled q (payload (orders s a)) # tl (resting s c f d)"
    using rest_payload(1) [OF rep cd pay refl]
    by (simp add: resting_head [of c d i "is" f a as, OF cd] o filled_payload)
  moreover have "resting s' c f (\<not> d) = resting s c f (\<not> d)"
    by (rule resting_other_side [OF rep cd pay]) simp_all
  then have "traded s c f s' c f d"
    using off_chain_other [OF rep cd pay refl orph] sh lv orph by (simp add: traded_def shape_eq_def)
  ultimately show ?thesis
    using m(2) e n by (intro exI [of _ s']) (simp add: filled_payload)
qed

text \<open>Using the first order up, before its level is looked at.\<close>

lemma match_first:
  assumes rep: "book_rep s c f" and set: "settled s f" and d: "d = (side \<noteq> BUY)"
    and cd: "c d = i # is" "f i = a # as"
    and t: "t = \<lparr>tk_ticker = ob_ticker_id (book s), tk_order_id = oid, tk_client_id = cid,
                 tk_side = side, tk_limit = lim\<rparr>"
    and fill: "fill = min q (o_quantity (orders s a))"
    and rest: "o_quantity (filled q (orders s a)) = 0"
  shows "\<exists>s' tp. OrderBook_match oid cid side q a s = ret (q - fill, s') \<and> book_rep s' c (f(i := as))
    \<and> emits s s' (trade_events (clock s) t (next_trade_id s) (ticks s) fill (filled q (payload (orders s a))))
    \<and> next_trade_id s' = next_trade_id s + 1 \<and> shape_eq s s'
    \<and> levels s' = (levels s)(i := (levels s i)\<lparr>top_order := tp\<rparr>) \<and> (tp = None \<longleftrightarrow> as = [])
    \<and> resting s' c (f(i := as)) d = tl (resting s c f d) \<and> resting s' c (f(i := as)) (\<not> d) = resting s c f (\<not> d)
    \<and> off_chain s' c (f(i := as)) = off_chain s c f
    \<and> (\<forall>k \<in> listed s. \<forall>x \<in> set ((f(i := as)) k). o_quantity (orders s' x) \<noteq> 0)"
proof -
  let ?f = "f(i := as)"
  have il: "i \<in> listed s" by (rule first_of_side(1) [OF rep d cd])
  obtain s' tp where m: "OrderBook_match oid cid side q a s = ret (q - fill, s')" "book_rep s' c ?f"
    "emits s s' (trade_events (clock s) t (next_trade_id s) (ticks s) fill (payload (filled q (orders s a))))"
    "next_trade_id s' = next_trade_id s + 1" "shape_eq s s'"
    "levels s' = (levels s)(i := (levels s i)\<lparr>top_order := tp\<rparr>)" "tp = None \<longleftrightarrow> as = []"
    and pay: "\<And>j. j \<noteq> a \<Longrightarrow> payload (orders s' j) = payload (orders s j)"
    using match_consume [OF rep il cd(2) t fill rest] by blast
  have f': "\<And>k. k \<noteq> i \<Longrightarrow> ?f k = f k" by simp
  have "map (\<lambda>x. payload (orders s' x)) (as @ concat (map ?f is)) = map (\<lambda>x. payload (orders s x)) (as @ concat (map f is))"
    by (rule rest_payload(1) [OF rep cd pay f'])
  then have "resting s' c ?f d = tl (resting s c f d)" using cd by (simp add: resting_def)
  moreover have "resting s' c ?f (\<not> d) = resting s c f (\<not> d)"
    by (rule resting_other_side [OF rep cd]) (simp_all add: pay)
  moreover have "o_quantity (orders s' x) \<noteq> 0" if "k \<in> listed s" "x \<in> set (?f k)" for k x
  proof -
    have xf: "x \<in> set (f k)" using that(2) cd(2) by (auto split: if_splits)
    moreover have "x \<noteq> a"
      using rest_payload(2) [OF rep cd pay f' that(1)] that(2) xf cd(2) book_rep_level_distinct [OF rep il]
      by (cases "k = i") auto
    ultimately show ?thesis
      using payload_eqD(2) [OF pay] set that(1) by (auto simp: settled_def)
  qed
  moreover have "off_chain s' c ?f = off_chain s c f"
    by (rule off_chain_other [OF rep cd pay f']) (simp_all add: orphans_def shape_eq_listed [OF m(5)])
  ultimately show ?thesis using m by (auto simp: filled_payload)
qed

lemma resting_drop_empty:
  assumes "c d = i # is" and "f i = []" and "orders s' = orders s"
  shows "resting s' (c(d := is)) f = resting s c f"
proof
  show "resting s' (c(d := is)) f b = resting s c f b" for b
    using assms by (cases "b = d") (simp_all add: resting_def)
qed

text \<open>The best level of a side, when it has become empty, leaves the chain.\<close>

lemma drop_best_level:
  assumes rep: "book_rep s c f" and cd: "c d = i # is" and fi: "f i = []"
  shows "\<exists>s'. removePriceLevel i s = ret s' \<and> book_rep s' (c(d := is)) f \<and> listed s' = listed s - {i}
    \<and> live (lpool s') = live (lpool s) - {i} \<and> outside_eq s s'
    \<and> (\<forall>k. price_level (levels s' k) = price_level (levels s k))
    \<and> resting s' (c(d := is)) f = resting s c f \<and> orphans s' (c(d := is)) = orphans s c
    \<and> off_chain s' (c(d := is)) f = off_chain s c f"
proof -
  obtain s' where s': "removePriceLevel i s = ret s'" "book_rep s' (c(d := is)) f" "listed s' = listed s - {i}"
    "live (lpool s') = live (lpool s) - {i}" "outside_eq s s'"
    "\<forall>k. price_level (levels s' k) = price_level (levels s k)"
    using removePriceLevel_linked [OF rep, of d "[]" i "is"] cd by auto
  have "resting s' (c(d := is)) f = resting s c f"
    by (rule resting_drop_empty [of c d i "is" f s' s, OF cd]) (simp_all add: fi outside_eq_orders [OF s'(5)])
  moreover have o: "orphans s' (c(d := is)) = orphans s c"
    using s'(3) cd book_rep_distinct [OF rep, of d] by (cases d) (auto simp: orphans_def)
  moreover have "off_chain s' (c(d := is)) f = off_chain s c f"
    by (rule off_chain_cong [OF o]) (simp_all add: outside_eq_orders [OF s'(5)])
  ultimately show ?thesis using s' by blast
qed

lemma round_consume:
  assumes rep: "book_rep s c f" and set: "settled s f" and d: "d = (side \<noteq> BUY)"
    and cd: "c d = i # is" "f i = a # as"
    and q: "q \<noteq> 0" "acceptable side lim (price_level (levels s i))"
    and t: "t = \<lparr>tk_ticker = ob_ticker_id (book s), tk_order_id = oid, tk_client_id = cid,
                 tk_side = side, tk_limit = lim\<rparr>"
    and fill: "fill = min q (o_quantity (orders s a))"
    and rest: "o_quantity (filled q (orders s a)) = 0"
  shows "\<exists>s' c'. checkForMatch oid cid side q lim s = checkForMatch oid cid side (q - fill) lim s'
    \<and> book_rep s' c' (f(i := as)) \<and> settled s' (f(i := as)) \<and> traded s c f s' c' (f(i := as)) d
    \<and> emits s s' (trade_events (clock s) t (next_trade_id s) (ticks s) fill (filled q (payload (orders s a))))
    \<and> next_trade_id s' = next_trade_id s + 1
    \<and> resting s' c' (f(i := as)) d = tl (resting s c f d)"
proof -
  let ?f = "f(i := as)"
  note first = first_of_side [OF rep d cd]
  obtain s1 tp where m: "OrderBook_match oid cid side q a s = ret (q - fill, s1)" "book_rep s1 c ?f"
    and e: "emits s s1 (trade_events (clock s) t (next_trade_id s) (ticks s) fill (filled q (payload (orders s a))))"
    and n: "next_trade_id s1 = next_trade_id s + 1" and sh: "shape_eq s s1"
    and lv: "levels s1 = (levels s)(i := (levels s i)\<lparr>top_order := tp\<rparr>)" "tp = None \<longleftrightarrow> as = []"
    and r: "resting s1 c ?f d = tl (resting s c f d)" "resting s1 c ?f (\<not> d) = resting s c f (\<not> d)"
    and oc: "off_chain s1 c ?f = off_chain s c f"
    and quant: "\<forall>k \<in> listed s. \<forall>x \<in> set (?f k). o_quantity (orders s1 x) \<noteq> 0"
    using match_first [OF rep set d cd t fill rest] by blast
  have L1: "listed s1 = listed s" by (rule shape_eq_listed [OF sh])
  have bst: "best (opposite side) s1 = Some i" using first(3) sh by (simp add: shape_eq_def)
  have loop: "checkForMatch oid cid side q lim s
      = obind (if as = [] then removePriceLevel i s1 else ret s1)
          (checkForMatch oid cid side (q - fill) lim)"
    using first bst q m(1) lv by (subst checkForMatch.simps) simp
  show ?thesis
  proof (cases "as = []")
    case True
    from drop_best_level [OF m(2) cd(1)] True obtain s2 where s2: "removePriceLevel i s1 = ret s2"
      "book_rep s2 (c(d := is)) ?f" "listed s2 = listed s1 - {i}" "live (lpool s2) = live (lpool s1) - {i}"
      "outside_eq s1 s2" "\<forall>k. price_level (levels s2 k) = price_level (levels s1 k)"
      and rs: "resting s2 (c(d := is)) ?f = resting s1 c ?f" and or: "orphans s2 (c(d := is)) = orphans s1 c"
      and oc2: "off_chain s2 (c(d := is)) ?f = off_chain s1 c ?f" by auto
    have "settled s2 ?f"
      using set quant outside_eq_orders [OF s2(5)] s2(3) L1 True by (auto simp: settled_def)
    moreover have "traded s c f s2 (c(d := is)) ?f d"
      using r(2) rs or oc oc2 sh s2 lv L1 by (auto simp: traded_def shape_eq_def outside_eq_def orphans_def)
    moreover have "next_trade_id s2 = next_trade_id s + 1" using n s2(5) by (simp add: outside_eq_def)
    ultimately show ?thesis
      using loop True s2(1,2) emits_outside [OF e s2(5)] r(1) rs
      by (intro exI [of _ s2] exI [of _ "c(d := is)"]) simp
  next
    case False
    have "settled s1 ?f" using set quant L1 False by (auto simp: settled_def)
    moreover have "traded s c f s1 c ?f d" using r(2) oc sh lv L1 by (auto simp: traded_def shape_eq_def orphans_def)
    ultimately show ?thesis using loop False m(2) e n r(1) by auto
  qed
qed

section \<open>The loop\<close>

lemma trade_events_length [simp]: "length (trade_events clk t tid n fill m) = 4"
  by (simp add: trade_events_def)

lemma fill_exhausts:
  "o_quantity (filled q m) \<noteq> 0 \<Longrightarrow> q - min q (o_quantity m) = 0"
  by (auto simp: filled_def min_def split: if_splits)

text \<open>With nothing left to trade the loop stops at once.\<close>

lemma checkForMatch_zero: "checkForMatch oid cid side 0 lim s = ret (0, s)"
  by (subst checkForMatch.simps) (simp split: option.split)

lemma resting_cases:
  assumes rep: "book_rep s c f" and set: "settled s f"
  obtains (empty) "c d = []" "resting s c f d = []"
    | (head) i "is" a as ms where "c d = i # is" "f i = a # as" "i \<in> listed s"
        "resting s c f d = payload (orders s a) # ms"
        "o_limit_price (orders s a) = price_level (levels s i)"
proof (cases "c d")
  case Nil
  then show ?thesis using empty by (simp add: resting_def)
next
  case (Cons i "is")
  then have il: "i \<in> listed s" using book_rep_chain(2) [OF rep, of d] by auto
  with set obtain a as where fi: "f i = a # as" by (cases "f i") (auto simp: settled_def)
  moreover have "o_limit_price (orders s a) = price_level (levels s i)"
    using book_rep_level(1) [OF rep il] fi by (simp add: level_ok_def)
  ultimately show ?thesis using head [OF Cons fi il] Cons fi by (simp add: resting_def)
qed

text \<open>
  One round: nothing of the incoming order is left, or the first order of the side is used up and
  the loop goes on with the others.
\<close>

lemma match_round:
  assumes rep: "book_rep s c f" and set: "settled s f" and d: "d = (side \<noteq> BUY)"
    and t: "t = \<lparr>tk_ticker = ob_ticker_id (book s), tk_order_id = oid, tk_client_id = cid,
              tk_side = side, tk_limit = lim\<rparr>"
    and cd: "c d = i # is" "f i = a # as" "resting s c f d = payload (orders s a) # ms"
      "o_limit_price (orders s a) = price_level (levels s i)"
    and q: "q \<noteq> 0" "acceptable side lim (price_level (levels s i))"
    and spec: "match_spec (clock s) t q (next_trade_id s) (ticks s) (resting s c f d) = (q', tid', ms', evs)"
  obtains (filled) s' where "checkForMatch oid cid side q lim s = ret (q', s')" "book_rep s' c f" "settled s' f"
      "traded s c f s' c f d" "emits s s' evs" "next_trade_id s' = tid'" "resting s' c f d = ms'"
    | (used) q1 s1 c1 f1 e1 e2 where "checkForMatch oid cid side q lim s = checkForMatch oid cid side q1 lim s1"
      "book_rep s1 c1 f1" "settled s1 f1" "traded s c f s1 c1 f1 d" "emits s s1 e1" "resting s1 c1 f1 d = ms"
      "match_spec (clock s1) t q1 (next_trade_id s1) (ticks s1) ms = (q', tid', ms', e2)" "evs = e1 @ e2"
proof (cases "o_quantity (Order_Book_Spec.filled q (orders s a)) = 0")
  case False
  from round_partial [OF rep set d cd(1,2) q t refl False] cd(3) obtain s' where
    "checkForMatch oid cid side q lim s
      = checkForMatch oid cid side (q - min q (o_quantity (orders s a))) lim s'"
    "book_rep s' c f" "settled s' f" "traded s c f s' c f d"
    "emits s s' (trade_events (clock s) t (next_trade_id s) (ticks s) (min q (o_quantity (orders s a)))
       (Order_Book_Spec.filled q (payload (orders s a))))"
    "next_trade_id s' = next_trade_id s + 1"
    "resting s' c f d = Order_Book_Spec.filled q (payload (orders s a)) # ms" by auto
  then show ?thesis
    using spec q False cd(3,4) fill_exhausts [OF False] checkForMatch_zero
    by (intro filled [of s']) (auto simp: t Let_def filled_payload)
next
  case True
  from round_consume [OF rep set d cd(1,2) q t refl True] cd(3) obtain s1 c1 where
    s1: "checkForMatch oid cid side q lim s
      = checkForMatch oid cid side (q - min q (o_quantity (orders s a))) lim s1"
    "book_rep s1 c1 (f(i := as))" "settled s1 (f(i := as))" "traded s c f s1 c1 (f(i := as)) d"
    "emits s s1 (trade_events (clock s) t (next_trade_id s) (ticks s) (min q (o_quantity (orders s a)))
       (Order_Book_Spec.filled q (payload (orders s a))))"
    "next_trade_id s1 = next_trade_id s + 1" "resting s1 c1 (f(i := as)) d = ms" by auto
  have "clock s1 = clock s" "ticks s1 = ticks s + 4" using s1(5) by (simp_all add: emit_defs)
  moreover obtain e2 where "match_spec (clock s) t (q - min q (o_quantity (orders s a))) (next_trade_id s + 1) (ticks s + 4) ms
      = (q', tid', ms', e2)" "evs = trade_events (clock s) t (next_trade_id s) (ticks s)
        (min q (o_quantity (orders s a))) (Order_Book_Spec.filled q (payload (orders s a))) @ e2"
    using spec q True cd(3,4) by (auto simp: t Let_def filled_payload split: prod.splits)
  ultimately show ?thesis using s1(6) by (intro used [OF s1(1-5,7)]) simp_all
qed

lemma checkForMatch_rep:
  assumes "book_rep s c f" and "settled s f" and "d = (side \<noteq> BUY)"
    and "t = \<lparr>tk_ticker = ob_ticker_id (book s), tk_order_id = oid, tk_client_id = cid,
              tk_side = side, tk_limit = lim\<rparr>"
    and "match_spec (clock s) t q (next_trade_id s) (ticks s) (resting s c f d) = (q', tid', ms', evs)"
  shows "\<exists>s' c' f'. checkForMatch oid cid side q lim s = ret (q', s')
    \<and> book_rep s' c' f' \<and> settled s' f' \<and> traded s c f s' c' f' d
    \<and> emits s s' evs \<and> next_trade_id s' = tid' \<and> resting s' c' f' d = ms'"
  using assms
proof (induction "length (resting s c f d)" arbitrary: s c f q evs rule: less_induct)
  case less
  note rep = less.prems(1) and set = less.prems(2) and d = less.prems(3) and t = less.prems(4)
    and spec = less.prems(5)
  have stop: ?case if "checkForMatch oid cid side q lim s = ret (q, s)"
    "(q', tid', ms', evs) = (q, next_trade_id s, resting s c f d, [])"
    using that rep set traded_refl [of s c f d]
    by (intro exI [of _ s] exI [of _ c] exI [of _ f]) (simp add: emit_defs)
  from rep set show ?case
  proof (cases rule: resting_cases [where d = d])
    case empty
    have "best (opposite side) s = None"
      using book_rep_chain(1) [OF rep, of d] empty d by simp
    then show ?thesis using empty spec by (intro stop) (subst checkForMatch.simps, simp_all)
  next
    case (head i "is" a as ms)
    show ?thesis
    proof (cases "q \<noteq> 0 \<and> acceptable side lim (price_level (levels s i))")
      case False
      then have "(q', tid', ms', evs) = (q, next_trade_id s, resting s c f d, [])"
        using spec head(4,5) by (auto simp: t)
      moreover have "checkForMatch oid cid side q lim s = ret (q, s)"
        using False first_of_side(3) [OF rep d head(1,2)] by (subst checkForMatch.simps) auto
      ultimately show ?thesis by (rule stop [rotated])
    next
      case True
      from rep set d t head(1,2,4,5) True [THEN conjunct1] True [THEN conjunct2] spec show ?thesis
      proof (cases rule: match_round)
        case (filled s')
        then show ?thesis by blast
      next
        case (used q1 s1 c1 f1 e1 e2)
        have "length (resting s1 c1 f1 d) < length (resting s c f d)" using used(6) head(4) by simp
        moreover have "t = \<lparr>tk_ticker = ob_ticker_id (book s1), tk_order_id = oid, tk_client_id = cid,
            tk_side = side, tk_limit = lim\<rparr>" using used(5) t by (simp add: emit_defs)
        ultimately have "\<exists>s' c' f'. checkForMatch oid cid side q1 lim s1 = ret (q', s')
            \<and> book_rep s' c' f' \<and> settled s' f' \<and> traded s1 c1 f1 s' c' f' d
            \<and> emits s1 s' e2 \<and> next_trade_id s' = tid' \<and> resting s' c' f' d = ms'"
          using less.hyps [OF _ used(2,3) d] used(6,7) by simp
        then show ?thesis
          using used(1,8) traded_trans [OF used(4)] emits_trans [OF used(5)] by metis
      qed
    qed
  qed
qed

end
