(* ===== verification/Order_Book_Add.thy ===== *)
theory Order_Book_Add
  imports Order_Book_Matching
begin

text \<open>
  \<open>OrderBook_add\<close> refines \<open>add_spec\<close>: it returns, sends the specified messages and leaves the
  two sides as specified. The rest of an order enters its side when its price has a level on the
  chain or becomes the new best price, and is held outside the chain otherwise.
\<close>

section \<open>Sides and resting orders\<close>

lemma resting_set:
  "set (resting s c f b) = (\<lambda>a. payload (orders s a)) ` (\<Union>k \<in> set (c b). set (f k))"
  by (auto simp: resting_def)

lemma resting_append:
  "c b = xs @ ys \<Longrightarrow> resting s c f b =
     map (\<lambda>a. payload (orders s a)) (concat (map f xs)) @ map (\<lambda>a. payload (orders s a)) (concat (map f ys))"
  by (simp add: resting_def)

lemma chain_order_price:
  assumes "book_rep s c f" and "k \<in> set (c b)" and "a \<in> set (f k)"
  shows "o_limit_price (payload (orders s a)) = price_level (levels s k)"
proof -
  have "k \<in> listed s" using assms(1,2) book_rep_chain(2) [of s c f b] by blast
  then show ?thesis using book_rep_level(1) [OF assms(1)] assms(3) by (simp add: level_ok_def)
qed

lemma concat_priority:
  assumes "sorted_wrt (\<lambda>i j. better b (g i) (g j)) ks"
    and "\<And>k x. k \<in> set ks \<Longrightarrow> x \<in> set (h k) \<Longrightarrow> o_limit_price x = g k"
  shows "priority b (concat (map h ks))"
  using assms
proof (induction ks)
  case (Cons k ks)
  have "sorted_wrt (\<lambda>x y. \<not> better b (o_limit_price y) (o_limit_price x)) (h k)"
    by (rule sorted_wrt_mono_rel [of _ "\<lambda>_ _. True"]) (use Cons.prems(2) [of k] in simp_all)
  moreover have "priority b (concat (map h ks))" using Cons by simp
  moreover have "\<not> better b (o_limit_price y) (o_limit_price x)"
    if "x \<in> set (h k)" "j \<in> set ks" "y \<in> set (h j)" for x y j
    using that Cons.prems(1) Cons.prems(2) [of k x] Cons.prems(2) [of j y]
      better_trans [of b "g j" "g k" "g j"] by auto
  ultimately show ?case by (auto simp: priority_def sorted_wrt_append)
qed (simp add: priority_def)

lemma resting_priority:
  assumes "book_rep s c f"
  shows "priority b (resting s c f b)"
proof -
  have "resting s c f b = concat (map (\<lambda>k. map (\<lambda>a. payload (orders s a)) (f k)) (c b))"
    by (simp add: resting_def map_concat comp_def)
  moreover have "priority b (concat (map (\<lambda>k. map (\<lambda>a. payload (orders s a)) (f k)) (c b)))"
    by (rule concat_priority [OF book_rep_chain(3) [OF assms]])
      (use chain_order_price [OF assms] in auto)
  ultimately show ?thesis by simp
qed

lemma resting_quantities:
  assumes "book_rep s c f" and "settled s f"
  shows "\<forall>x \<in> set (resting s c f b). o_quantity x \<noteq> 0"
  using assms(2) book_rep_chain(2) [OF assms(1), of b]
  by (auto simp: resting_set settled_def)

text \<open>Appending an order to a level of the chain, or to a new level in front of it, is \<open>place\<close>.\<close>

lemma resting_place:
  assumes rep: "book_rep s c f" and cb: "c b = xs @ i # ys"
    and m: "o_limit_price m = price_level (levels s i)" "m = payload (h a)"
    and pay: "\<And>k x. k \<in> set (c b) \<Longrightarrow> x \<in> set (f k) \<Longrightarrow> payload (h x) = payload (orders s x)"
  shows "map (\<lambda>x. payload (h x)) (concat (map (f(i := f i @ [a])) (c b))) = place b m (resting s c f b)"
proof -
  let ?M = "map (\<lambda>x. payload (orders s x))"
  have dist: "i \<notin> set xs" "i \<notin> set ys" using book_rep_distinct [OF rep, of b] cb by auto
  note pr = chain_order_price [OF rep]
  have "place b m (?M (concat (map f (xs @ [i]))) @ ?M (concat (map f ys)))
      = ?M (concat (map f (xs @ [i]))) @ m # ?M (concat (map f ys))"
  proof (rule place_split)
    show "\<forall>x \<in> set (?M (concat (map f (xs @ [i])))). \<not> better b (o_limit_price m) (o_limit_price x)"
    proof
      fix x assume "x \<in> set (?M (concat (map f (xs @ [i]))))"
      then obtain k where k: "k \<in> set (xs @ [i])" "o_limit_price x = price_level (levels s k)"
        using pr [of _ b] cb by fastforce
      have "k = i \<or> better b (price_level (levels s k)) (price_level (levels s i))"
        using k(1) book_rep_chain(3) [OF rep, of b] cb by (auto simp: sorted_wrt_append)
      then show "\<not> better b (o_limit_price m) (o_limit_price x)"
        using k(2) m(1) better_trans [of b "price_level (levels s i)" "price_level (levels s k)"
            "price_level (levels s i)"] by auto
    qed
    show "\<forall>x \<in> set (?M (concat (map f ys))). better b (o_limit_price m) (o_limit_price x)"
    proof
      fix x assume "x \<in> set (?M (concat (map f ys)))"
      then obtain k where "k \<in> set ys" "o_limit_price x = price_level (levels s k)"
        using pr [of _ b] cb by fastforce
      then show "better b (o_limit_price m) (o_limit_price x)"
        using m(1) cb book_rep_chain(3) [OF rep, of b] by (simp add: sorted_wrt_append)
    qed
  qed
  moreover have "resting s c f b = ?M (concat (map f (xs @ [i]))) @ ?M (concat (map f ys))"
    using resting_append [of c b "xs @ [i]" ys] cb by simp
  moreover have "map (\<lambda>x. payload (h x)) (concat (map f xs)) = ?M (concat (map f xs))"
    "map (\<lambda>x. payload (h x)) (f i) = ?M (f i)"
    "map (\<lambda>x. payload (h x)) (concat (map f ys)) = ?M (concat (map f ys))"
    using cb pay by auto
  moreover have "map (f(i := f i @ [a])) xs = map f xs" "map (f(i := f i @ [a])) ys = map f ys"
    using dist by auto
  ultimately show ?thesis using cb m(2) by (simp del: map_eq_conv)
qed

section \<open>Finding or creating the level of a price\<close>

text \<open>
  \<open>linked\<close>: an order at the price \<open>p\<close> reaches the chain of its side, because the registered
  level of that price is on it or because a new level goes to its front.
\<close>

definition linked :: "BookState \<Rightarrow> (bool \<Rightarrow> nat list) \<Rightarrow> bool \<Rightarrow> PriceT \<Rightarrow> bool" where
  "linked s c b p \<longleftrightarrow>
     (case price_levels (book s) p of
        Some (Some i) \<Rightarrow> i \<in> set (c b)
      | _ \<Rightarrow> goes_front s (c b) b p)"

lemma outside_eq_refl: "outside_eq s s"
  by (simp add: outside_eq_def)

lemma index_missing:
  assumes "\<forall>k. price_levels (book s) p \<noteq> Some (Some k)"
  shows "\<exists>s1. index_price_levels p s = (None, s1) \<and> orders s1 = orders s \<and> levels s1 = levels s
    \<and> listed s1 = listed s \<and> lpool s1 = lpool s \<and> outside_eq s s1
    \<and> (\<forall>k. price_levels (book s1) p \<noteq> Some (Some k))"
proof (cases "price_levels (book s) p")
  case None
  have "listed (set_price_level p None s) = listed s"
    using assms by (auto simp: listed_def)
  with None show ?thesis by (simp add: index_price_levels_def outside_eq_def)
next
  case (Some q)
  with assms have "q = None" by (cases q) auto
  with Some show ?thesis by (simp add: index_price_levels_def outside_eq_def)
qed

text \<open>
  \<open>level_opened s c f s' c' f' i b p\<close>: the level \<open>i\<close> of the price \<open>p\<close> is registered in \<open>s'\<close>, which
  differs from \<open>s\<close> by at most that level, and no resting order has moved.
\<close>

definition level_opened ::
  "BookState \<Rightarrow> (bool \<Rightarrow> nat list) \<Rightarrow> (nat \<Rightarrow> nat list) \<Rightarrow>
   BookState \<Rightarrow> (bool \<Rightarrow> nat list) \<Rightarrow> (nat \<Rightarrow> nat list) \<Rightarrow> nat \<Rightarrow> bool \<Rightarrow> PriceT \<Rightarrow> bool" where
  "level_opened s c f s' c' f' i b p \<longleftrightarrow>
     book_rep s' c' f' \<and> i \<in> listed s' \<and> price_level (levels s' i) = p \<and> outside_eq s s'
     \<and> (i \<in> set (c' b) \<longleftrightarrow> linked s c b p) \<and> i \<notin> set (c' (\<not> b))
     \<and> (\<forall>d. resting s' c' f' d = resting s c f d)
     \<and> listed s' = insert i (listed s)
     \<and> (\<forall>k \<in> listed s - {i}. f' k = f k) \<and> f' i = (if i \<in> listed s then f i else [])
     \<and> (\<forall>k \<in> listed s. \<forall>d. k \<in> set (c' d) \<longleftrightarrow> k \<in> set (c d))
     \<and> prices s' \<subseteq> insert p (prices s)"

lemma level_openedD:
  assumes "level_opened s c f s' c' f' i b p"
  shows "book_rep s' c' f'" "i \<in> listed s'" "price_level (levels s' i) = p" "outside_eq s s'"
    "i \<in> set (c' b) \<longleftrightarrow> linked s c b p" "i \<notin> set (c' (\<not> b))" "resting s' c' f' d = resting s c f d"
    "listed s' = insert i (listed s)" "k \<in> listed s \<Longrightarrow> k \<noteq> i \<Longrightarrow> f' k = f k"
    "f' i = (if i \<in> listed s then f i else [])"
    "k \<in> listed s \<Longrightarrow> k \<in> set (c' d) \<longleftrightarrow> k \<in> set (c d)" "prices s' \<subseteq> insert p (prices s)"
  using assms by (simp_all add: level_opened_def)

lemma level_opened_registered:
  assumes rep: "book_rep s c f" and i: "price_levels (book s) p = Some (Some i)"
    and other: "\<forall>k \<in> set (c (\<not> b)). price_level (levels s k) \<noteq> p"
  shows "level_opened s c f s c f i b p"
proof -
  have "i \<in> listed s" "price_level (levels s i) = p" using book_rep_priced [OF rep i] by auto
  then show ?thesis using rep other i outside_eq_refl [of s] by (auto simp: level_opened_def linked_def)
qed

lemma level_opened_new:
  fixes c b p s i
  defines "c' \<equiv> if goes_front s (c b) b p then c(b := i # c b) else c"
  assumes rep: "book_rep s c f" and new: "\<nexists>k. price_levels (book s) p = Some (Some k)"
    and rep': "book_rep s' c' (f(i := []))"
    and li: "listed s' = insert i (listed s)" "i \<notin> listed s"
    and lp: "live (lpool s') = insert i (live (lpool s))"
    and lv: "levels s' = (levels s)(i := levels s' i)" "price_level (levels s' i) = p"
    and out: "outside_eq s s'"
  shows "level_opened s c f s' c' (f(i := [])) i b p"
proof -
  have nc: "i \<notin> set (c d)" for d using li(2) book_rep_chain(2) [OF rep, of d] by auto
  have fi: "map (f(i := [])) (c d) = map f (c d)" for d using nc [of d] by auto
  have rs: "resting s' c' (f(i := [])) d = resting s c f d" for d
    by (cases "d = b") (simp_all add: c'_def resting_def outside_eq_orders [OF out] fi del: map_eq_conv)
  have "linked s c b p \<longleftrightarrow> goes_front s (c b) b p"
    using new by (auto simp: linked_def split: option.splits)
  then have on: "i \<in> set (c' b) \<longleftrightarrow> linked s c b p" "i \<notin> set (c' (\<not> b))" using nc by (auto simp: c'_def)
  have mem: "k \<in> set (c' d) \<longleftrightarrow> k \<in> set (c d)" if "k \<in> listed s" for k d
    using that li(2) by (auto simp: c'_def)
  have "\<forall>k \<in> listed s. price_level (levels s' k) = price_level (levels s k)"
    using li(2) lv by (metis fun_upd_other)
  then have ps: "prices s' \<subseteq> insert p (prices s)"
    using book_rep_prices [OF rep'] book_rep_prices [OF rep] lp lv book_repD(4) [OF rep]
    by (auto simp: image_iff)
  show ?thesis unfolding level_opened_def using rep' li lv(2) out on rs mem ps by simp
qed

lemma getPriceLevel_create:
  assumes rep: "book_rep s c f" and b: "b = (side = BUY)"
    and other: "\<forall>k \<in> set (c (\<not> b)). price_level (levels s k) \<noteq> p"
    and room: "card (insert p (prices s)) < capacity (lpool s)"
  shows "\<exists>i s' c' f'. getPriceLevel p side True s = ret (Some i, s') \<and> level_opened s c f s' c' f' i b p"
proof (cases "\<exists>i. price_levels (book s) p = Some (Some i)")
  case True
  then obtain i where i: "price_levels (book s) p = Some (Some i)" by blast
  then show ?thesis
    using getPriceLevel_registered [OF i, of side True] level_opened_registered [OF rep i other] by blast
next
  case False
  then have "p \<notin> prices s" by (simp add: prices_def)
  then have room': "Suc (card (live (lpool s))) < capacity (lpool s)"
    using room by (simp add: book_rep_card_prices [OF rep])
  from index_missing [of s p] False obtain s1 where ix: "index_price_levels p s = (None, s1)"
    and same: "orders s1 = orders s" "levels s1 = levels s" "listed s1 = listed s" "lpool s1 = lpool s"
      "outside_eq s s1" and fresh: "\<And>k. price_levels (book s1) p \<noteq> Some (Some k)" by blast
  have rep1: "book_rep s1 c f" using book_rep_index [OF rep ix] by simp
  have gf: "goes_front s1 (c b) b p = goes_front s (c b) b p"
    using same(2) by (cases "c b") (simp_all add: goes_front_def)
  from insertPriceLevel_rep [OF rep1 fresh _ b refl] room' same gf obtain i s' where
    ins: "insertPriceLevel p side p s1 = ret (i, s')"
    and new: "book_rep s' (if goes_front s (c b) b p then c(b := i # c b) else c) (f(i := []))"
      "listed s' = insert i (listed s)" "i \<notin> listed s" "live (lpool s') = insert i (live (lpool s))"
      "levels s' = (levels s)(i := levels s' i)" "price_level (levels s' i) = p" and out: "outside_eq s1 s'"
    by auto
  have "outside_eq s s'" using out same(5) by (simp add: outside_eq_def)
  from level_opened_new [OF rep False new this] show ?thesis
    using ix ins by (auto simp: getPriceLevel_def getPriceLevelIndex_def Let_def)
qed

section \<open>Resting what is left of an order\<close>

lemma rest_of_simps [simp]:
  "payload (rest_of clk t n q) = rest_of clk t n q"
  "o_limit_price (rest_of clk t n q) = tk_limit t" "o_quantity (rest_of clk t n q) = q"
  "o_side (rest_of clk t n q) = tk_side t" "o_order_id (rest_of clk t n q) = tk_order_id t"
  "o_client_id (rest_of clk t n q) = tk_client_id t"
  by (simp_all add: rest_of_def Order_new_def Order_default_def payload_def)

text \<open>What adding the rest of an order to a book guarantees of the new state.\<close>

definition rested ::
  "BookState \<Rightarrow> (bool \<Rightarrow> nat list) \<Rightarrow> (nat \<Rightarrow> nat list) \<Rightarrow>
   BookState \<Rightarrow> (bool \<Rightarrow> nat list) \<Rightarrow> (nat \<Rightarrow> nat list) \<Rightarrow> bool \<Rightarrow> Order \<Rightarrow> bool" where
  "rested s c f s' c' f' b m \<longleftrightarrow>
     book_rep s' c' f' \<and> settled s' f'
     \<and> resting s' c' f' (\<not> b) = resting s c f (\<not> b)
     \<and> resting s' c' f' b =
         (if linked s c b (o_limit_price m) then place b m (resting s c f b) else resting s c f b)
     \<and> orphans s c \<subseteq> orphans s' c'
     \<and> (linked s c b (o_limit_price m) \<longrightarrow> orphans s' c' = orphans s c)
     \<and> off_chain s' c' f' = (if linked s c b (o_limit_price m) then {} else {m}) \<union> off_chain s c f
     \<and> card (live (opool s')) = Suc (card (live (opool s)))
     \<and> prices s' \<subseteq> insert (o_limit_price m) (prices s)
     \<and> capacity (opool s') = capacity (opool s) \<and> capacity (lpool s') = capacity (lpool s)"

lemma same_book:
  assumes "book s' = book s"
  shows "orders s' = orders s" "levels s' = levels s" "listed s' = listed s" "best side s' = best side s"
  by (simp_all only: orders_def levels_def listed_def best_def assms)

lemma book_rep_book:
  assumes "book_rep s c f" and "book s' = book s" and "infra s'"
  shows "book_rep s' c f"
  by (rule book_rep_cong [OF assms(1,3)])
    (simp_all only: same_book [OF assms(2)] assms(2) subset_refl simp_thms)

lemma rested_cong:
  assumes "rested s c f s1 c' f' b m" and "book s2 = book s1" and "infra s2"
  shows "rested s c f s2 c' f' b m"
proof -
  have "book_rep s2 c' f'"
    using assms(1) book_rep_book [OF _ assms(2,3)] by (simp add: rested_def)
  with assms(1) show ?thesis
    unfolding rested_def settled_def resting_def off_chain_def orphans_def prices_def same_book [OF assms(2)] assms(2) by simp
qed

text \<open>
  The new order is appended to the opened level: \<open>h\<close> is the order store with the order at the
  fresh address \<open>a\<close>, the other orders keep their contents.
\<close>

definition appended ::
  "BookState \<Rightarrow> (nat \<Rightarrow> nat list) \<Rightarrow> nat \<Rightarrow> BookState \<Rightarrow> nat \<Rightarrow> Order \<Rightarrow> bool" where
  "appended s f i s' a m \<longleftrightarrow>
     listed s' = listed s \<and> payload (orders s' a) = m
     \<and> (\<forall>j. j \<noteq> a \<longrightarrow> payload (orders s' j) = payload (orders s j))
     \<and> (\<forall>k \<in> listed s. a \<notin> set (f k))"

lemma appended_keeps:
  assumes "appended s f i s' a m" and "book_rep s c f" and "k \<in> set (c d)" and "x \<in> set (f k)"
  shows "payload (orders s' x) = payload (orders s x)"
proof -
  have "k \<in> listed s" using book_rep_chain(2) [OF assms(2), of d] assms(3) by auto
  then show ?thesis using assms(1,4) by (auto simp: appended_def)
qed

lemma appended_settled:
  assumes set: "settled s f" and op: "level_opened s c f s1 c1 f1 i b p"
    and ap: "appended s1 f1 i s2 a m" and q: "o_quantity m \<noteq> 0" and m: "payload m = m"
  shows "settled s2 (f1(i := f1 i @ [a]))"
  unfolding settled_def
proof (intro ballI conjI)
  have o: "orders s1 = orders s" by (rule outside_eq_orders [OF level_openedD(4) [OF op]])
  fix k assume k: "k \<in> listed s2"
  then have k': "k \<noteq> i \<Longrightarrow> k \<in> listed s" using level_openedD(8) [OF op] ap by (auto simp: appended_def)
  then show "(f1(i := f1 i @ [a])) k \<noteq> []" using level_openedD(9) [OF op] set by (auto simp: settled_def)
  fix x assume x: "x \<in> set ((f1(i := f1 i @ [a])) k)"
  show "o_quantity (orders s2 x) \<noteq> 0"
  proof (cases "x = a")
    case True
    then show ?thesis using payload_eqD(2) [of "orders s2 a" m] ap q m by (simp add: appended_def)
  next
    case False
    then have "x \<in> set (f k) \<and> k \<in> listed s"
      using x k' level_openedD(9) [OF op, of k] level_openedD(10) [OF op] by (auto split: if_splits)
    moreover have "payload (orders s2 x) = payload (orders s x)" using ap False o by (simp add: appended_def)
    then have "o_quantity (orders s2 x) = o_quantity (orders s x)" by (rule payload_eqD)
    ultimately show ?thesis using set by (auto simp: settled_def)
  qed
qed

lemma appended_resting:
  assumes op: "level_opened s c f s1 c1 f1 i b p" and ap: "appended s1 f1 i s2 a m" and p: "o_limit_price m = p"
  shows "i \<notin> set (c1 d) \<Longrightarrow> resting s2 c1 (f1(i := f1 i @ [a])) d = resting s c f d"
    and "i \<in> set (c1 b) \<Longrightarrow> resting s2 c1 (f1(i := f1 i @ [a])) b = place b m (resting s c f b)"
proof -
  note rep = level_openedD(1) [OF op] and rs = level_openedD(7) [OF op]
  note keep = appended_keeps [OF ap rep]
  assume "i \<notin> set (c1 d)"
  then have "resting s2 c1 (f1(i := f1 i @ [a])) d = resting s1 c1 f1 d"
    by (intro resting_cong) (use keep [of _ d] in auto)
  then show "resting s2 c1 (f1(i := f1 i @ [a])) d = resting s c f d" using rs by simp
next
  note rep = level_openedD(1) [OF op] and rs = level_openedD(7) [OF op]
  assume "i \<in> set (c1 b)"
  then obtain xs ys where cb: "c1 b = xs @ i # ys" by (meson split_list)
  have "m = payload (orders s2 a)" "o_limit_price m = price_level (levels s1 i)"
    using ap p level_openedD(3) [OF op] by (simp_all add: appended_def)
  then have "map (\<lambda>x. payload (orders s2 x)) (concat (map (f1(i := f1 i @ [a])) (c1 b)))
      = place b m (resting s1 c1 f1 b)"
    by (intro resting_place [OF rep cb] appended_keeps [OF ap rep])
  then show "resting s2 c1 (f1(i := f1 i @ [a])) b = place b m (resting s c f b)"
    unfolding rs by (simp add: resting_def del: map_eq_conv)
qed

text \<open>The orders outside the chains: those from before, and the new one if its level is on no chain.\<close>

lemma appended_off_chain:
  assumes op: "level_opened s c f s1 c1 f1 i b p" and ap: "appended s1 f1 i s2 a m"
  shows "orphans s2 c1 = orphans s c \<Longrightarrow> i \<notin> orphans s c \<Longrightarrow>
      off_chain s2 c1 (f1(i := f1 i @ [a])) = off_chain s c f"
    and "orphans s2 c1 = insert i (orphans s c) \<Longrightarrow>
      off_chain s2 c1 (f1(i := f1 i @ [a])) = insert m (off_chain s c f)"
proof -
  let ?f = "f1(i := f1 i @ [a])"
  have o: "orders s1 = orders s" by (rule outside_eq_orders [OF level_openedD(4) [OF op]])
  have keep: "payload (orders s2 x) = payload (orders s x)" if "k \<in> listed s" "x \<in> set (f1 k)" for k x
    using ap that level_openedD(8) [OF op] o by (auto simp: appended_def)
  have old: "f1 k = f k" if "k \<in> listed s" for k
    using level_openedD(9,10) [OF op] that by (cases "k = i") auto
  have sub: "orphans s c \<subseteq> listed s" by (auto simp: orphans_def)
  show "off_chain s2 c1 ?f = off_chain s c f" if "orphans s2 c1 = orphans s c" "i \<notin> orphans s c"
    by (rule off_chain_cong [OF that(1)]) (use that(2) old keep sub in auto)
  have same: "(\<Union>k \<in> orphans s c. set (f1 k)) = (\<Union>k \<in> orphans s c. set (f k))"
    by (rule SUP_cong [OF refl]) (use old sub in auto)
  have img: "(\<lambda>x. payload (orders s2 x)) ` (\<Union>k \<in> orphans s c. set (f1 k)) = off_chain s c f"
    unfolding off_chain_def same [symmetric] by (rule image_cong [OF refl]) (use keep sub in blast)
  have new: "set (f1 i) \<subseteq> (\<Union>k \<in> orphans s c. set (f1 k))" if "i \<in> orphans s c \<or> i \<notin> listed s"
    using that level_openedD(10) [OF op] by auto
  assume or: "orphans s2 c1 = insert i (orphans s c)"
  have "i \<notin> listed s \<or> i \<in> orphans s c"
    using or level_openedD(11) [OF op, of i] by (auto simp: orphans_def)
  then have "(\<Union>k \<in> insert i (orphans s c). set (?f k)) = insert a (\<Union>k \<in> orphans s c. set (f1 k))"
    using new by (auto split: if_splits)
  then show "off_chain s2 c1 ?f = insert m (off_chain s c f)"
    using img ap unfolding off_chain_def [of s2] or by (simp add: appended_def)
qed

lemma appended_rested:
  fixes f1 i a
  defines "f' \<equiv> f1(i := f1 i @ [a])"
  assumes set: "settled s f" and op: "level_opened s c f s1 c1 f1 i b p"
    and ap: "appended s1 f1 i s2 a m" and m: "o_quantity m \<noteq> 0" "payload m = m" "o_limit_price m = p"
    and rep: "book_rep s2 c1 f'" and live: "live (opool s2) = insert a (live (opool s))" "a \<notin> live (opool s)"
    and cap: "capacity (opool s2) = capacity (opool s)" "capacity (lpool s2) = capacity (lpool s)"
    and ps: "prices s2 = prices s1"
  shows "rested s c f s2 c1 f' b m"
proof -
  have L: "listed s2 = insert i (listed s)" using ap level_openedD(8) [OF op] by (simp add: appended_def)
  note on = level_openedD(5,6) [OF op]
  have orph: "linked s c b p \<Longrightarrow> orphans s2 c1 = orphans s c"
    "\<not> linked s c b p \<Longrightarrow> orphans s2 c1 = insert i (orphans s c)" "linked s c b p \<Longrightarrow> i \<notin> orphans s c"
    using on level_openedD(11) [OF op] unfolding orphans_def L by (cases b; auto)+
  have "off_chain s2 c1 f' = (if linked s c b p then {} else {m}) \<union> off_chain s c f"
    using appended_off_chain [OF op ap, folded f'_def] orph by simp
  moreover have "orphans s c \<subseteq> orphans s2 c1" using orph(1,2) by (cases "linked s c b p") auto
  moreover have "card (live (opool s2)) = Suc (card (live (opool s)))" by (simp add: live)
  moreover have "settled s2 f'" unfolding f'_def by (rule appended_settled [OF set op ap m(1,2)])
  moreover have "resting s2 c1 f' (\<not> b) = resting s c f (\<not> b)"
    "resting s2 c1 f' b = (if linked s c b p then place b m (resting s c f b) else resting s c f b)"
    using appended_resting [OF op ap m(3), folded f'_def] on by simp_all
  ultimately show ?thesis
    using rep orph(1) cap ps level_openedD(12) [OF op] unfolding rested_def m(3) by simp
qed

lemma rest_order:
  assumes rep: "book_rep s c f" and set: "settled s f" and b: "b = (tk_side t = BUY)" and q: "q \<noteq> 0"
    and other: "\<forall>k \<in> set (c (\<not> b)). price_level (levels s k) \<noteq> tk_limit t"
    and room: "Suc (card (live (opool s))) < capacity (opool s)"
      "card (insert (tk_limit t) (prices s)) < capacity (lpool s)"
  shows "\<exists>i s1 a op h l c' f'. getPriceLevel (tk_limit t) (tk_side t) True s = ret (Some i, s1)
    \<and> outside_eq s s1
    \<and> getObject (rest_of (clock s) t (ticks s) q) (opool s1) = ret (a, op)
    \<and> OrdersPriceLevel_add a (objects op) (levels s1 i) = ret (h, l)
    \<and> rested s c f (set_level i l (set_orders h (set_order_pool op s1))) c' f' b
        (rest_of (clock s) t (ticks s) q)"
proof -
  let ?m = "rest_of (clock s) t (ticks s) q"
  from getPriceLevel_create [OF rep b other room(2)] obtain i s1 c' f' where
    get: "getPriceLevel (tk_limit t) (tk_side t) True s = ret (Some i, s1)"
    and open1: "level_opened s c f s1 c' f' i b (tk_limit t)" by blast
  note out = level_openedD(4) [OF open1] and rep1 = level_openedD(1) [OF open1]
  have o1: "opool s1 = opool s" "capacity (lpool s1) = capacity (lpool s)"
    using out by (auto simp: outside_eq_def)
  from place_order [OF rep1 level_openedD(2) [OF open1], of ?m] room(1) o1 level_openedD(3,5,6) [OF open1] b
  obtain a op h l where ob: "getObject ?m (opool s1) = ret (a, op)"
    and add: "OrdersPriceLevel_add a (objects op) (levels s1 i) = ret (h, l)"
    and rep2: "book_rep (set_level i l (set_orders h (set_order_pool op s1))) c' (f'(i := f' i @ [a]))"
    and lop: "a \<notin> live (opool s)" "live op = insert a (live (opool s))" "capacity op = capacity (opool s)"
    and pay: "payload (h a) = ?m" "\<And>j. j \<noteq> a \<Longrightarrow> payload (h j) = payload (orders s1 j)"
    by (cases b) (auto, metis+)
  let ?s = "set_level i l (set_orders h (set_order_pool op s1))"
  have "a \<notin> set (f' k)" if "k \<in> listed s1" for k
    using lop(1) o1 book_rep_level(1) [OF rep1 that] by (auto simp: level_ok_def)
  then have "appended s1 f' i ?s a ?m" using pay by (simp add: appended_def listed_def)
  from appended_rested [OF set open1 this _ _ _ rep2] q lop o1
  have "rested s c f ?s c' (f'(i := f' i @ [a])) b ?m" by (simp add: prices_def)
  then show ?thesis using get out ob add by blast
qed

section \<open>The operation\<close>

text \<open>
  \<open>placeable\<close> is \<open>linked\<close> seen from the state before matching: trading changes neither the
  order's own chain nor the levels outside the chains.
\<close>

definition placeable :: "BookState \<Rightarrow> (bool \<Rightarrow> nat list) \<Rightarrow> bool \<Rightarrow> PriceT \<Rightarrow> bool" where
  "placeable s c b p \<longleftrightarrow>
     (\<exists>i \<in> set (c b). price_level (levels s i) = p)
     \<or> goes_front s (c b) b p \<and> (\<forall>i \<in> orphans s c. price_level (levels s i) \<noteq> p)"

lemma linked_placeable:
  assumes rep: "book_rep s' c' f'" and tr: "traded s c f s' c' f' (\<not> b)"
    and other: "\<forall>k \<in> set (c' (\<not> b)). price_level (levels s' k) \<noteq> p"
  shows "linked s' c' b p \<longleftrightarrow> placeable s c b p"
proof -
  have cb: "c' b = c b" and orph: "orphans s' c' = orphans s c"
    and pl: "\<And>k. price_level (levels s' k) = price_level (levels s k)"
    using tr by (simp_all add: traded_def)
  have gf: "goes_front s' (c b) b p = goes_front s (c b) b p"
    by (cases "c b") (simp_all add: goes_front_def pl)
  have reg: "price_levels (book s') p = Some (Some i)"
    if "i \<in> listed s'" "price_level (levels s i) = p" for i
    using book_rep_level(2) [OF rep that(1)] that(2) pl by simp
  have sub: "set (c b) \<subseteq> listed s'" using book_rep_chain(2) [OF rep, of b] cb by simp
  have or: "orphans s c \<subseteq> listed s'" using orph by (auto simp: orphans_def)
  show ?thesis
  proof (cases "\<exists>i. price_levels (book s') p = Some (Some i)")
    case True
    then obtain i where i: "price_levels (book s') p = Some (Some i)" by blast
    then have il: "i \<in> listed s'" "price_level (levels s i) = p"
      using book_rep_priced [OF rep i] pl by auto
    have uniq: "j = i" if "j \<in> listed s'" "price_level (levels s j) = p" for j
      using reg [OF that] i by simp
    have "i \<notin> set (c' (\<not> b))" using other il pl by auto
    then have "i \<in> set (c' b) \<or> i \<in> orphans s' c'"
      using il(1) by (cases b) (auto simp: orphans_def)
    then have "i \<in> set (c b) \<or> i \<in> orphans s c" using cb orph by simp
    moreover have "linked s' c' b p \<longleftrightarrow> i \<in> set (c b)" using i cb by (simp add: linked_def)
    moreover have "(\<exists>j \<in> set (c b). price_level (levels s j) = p) \<longleftrightarrow> i \<in> set (c b)"
      using il(2) sub uniq by blast
    moreover have "i \<in> orphans s c \<Longrightarrow> i \<notin> set (c b)" by (cases b) (simp_all add: orphans_def)
    ultimately show ?thesis using il(2) unfolding placeable_def by blast
  next
    case False
    have "linked s' c' b p \<longleftrightarrow> goes_front s (c b) b p"
      using False gf cb by (auto simp: linked_def split: option.splits)
    moreover have "price_level (levels s k) \<noteq> p" if "k \<in> set (c b) \<union> orphans s c" for k
      using False reg [of k] that sub or by blast
    ultimately show ?thesis unfolding placeable_def by blast
  qed
qed

text \<open>The result of an operation: the new lists, what is outside the chains, and the pools.\<close>

definition book_ok :: "BookState \<Rightarrow> (bool \<Rightarrow> nat list) \<Rightarrow> (nat \<Rightarrow> nat list) \<Rightarrow> bool" where
  "book_ok s c f \<longleftrightarrow> book_rep s c f \<and> settled s f"

definition pools_step :: "PriceT \<Rightarrow> BookState \<Rightarrow> BookState \<Rightarrow> bool" where
  "pools_step lim s s' \<longleftrightarrow>
     card (live (opool s')) \<le> Suc (card (live (opool s))) \<and> prices s' \<subseteq> insert lim (prices s)
     \<and> capacity (opool s') = capacity (opool s) \<and> capacity (lpool s') = capacity (lpool s)"

text \<open>
  The pools have a block for one more order and for the level of its price, which may exist
  already; one block of a pool always stays free.
\<close>

definition has_room :: "BookState \<Rightarrow> PriceT \<Rightarrow> bool" where
  "has_room s lim \<longleftrightarrow> Suc (card (live (opool s))) < capacity (opool s)
     \<and> card (insert lim (prices s)) < capacity (lpool s)"

definition taker :: "BookState \<Rightarrow> OrderIdT \<Rightarrow> ClientIdT \<Rightarrow> OrderSide \<Rightarrow> PriceT \<Rightarrow> Taker" where
  "taker s oid cid side lim =
     \<lparr>tk_ticker = ob_ticker_id (book s), tk_order_id = oid, tk_client_id = cid,
      tk_side = side, tk_limit = lim\<rparr>"

lemma taker_simps [simp]:
  "tk_ticker (taker s oid cid side lim) = ob_ticker_id (book s)"
  "tk_order_id (taker s oid cid side lim) = oid" "tk_client_id (taker s oid cid side lim) = cid"
  "tk_side (taker s oid cid side lim) = side" "tk_limit (taker s oid cid side lim) = lim"
  by (simp_all add: taker_def)

lemma traded_pools:
  assumes "traded s c f s' c' f' d" and "book_ok s c f" and "book_ok s' c' f'"
  shows "prices s' \<subseteq> prices s" "pools_step lim s s'" "has_room s lim \<Longrightarrow> has_room s' lim"
proof -
  show p: "prices s' \<subseteq> prices s"
    by (rule prices_mono [of s c f s' c' f']) (use assms in \<open>simp_all add: traded_def book_ok_def\<close>)
  then show "pools_step lim s s'" using assms(1) by (auto simp: traded_def pools_step_def)
  have "card (insert lim (prices s')) \<le> card (insert lim (prices s))" using p by (intro card_mono) auto
  then show "has_room s lim \<Longrightarrow> has_room s' lim" using assms(1) by (simp add: traded_def has_room_def)
qed

text \<open>Accepting and matching, the first part of the operation.\<close>

lemma add_matches:
  assumes ok: "book_ok s c f" and b: "b = (side = BUY)" and t: "t = taker s oid cid side lim"
    and m: "match_spec (clock s) t q (next_trade_id s) (Suc (ticks s)) (resting s c f (\<not> b)) = (q', tid', ms', evs)"
  shows "\<exists>s1 s2 c2 f2. emit_response (ClientResponse.make ResponseType_ACCEPTED (ob_ticker_id (book s)) cid oid
        side q lim) s = ret s1
    \<and> checkForMatch oid cid side q lim s1 = ret (q', s2)
    \<and> book_ok s2 c2 f2 \<and> traded s c f s2 c2 f2 (\<not> b)
    \<and> emits s s2 (accepted_event (clock s) t (ticks s) q # evs)
    \<and> next_trade_id s2 = tid' \<and> resting s2 c2 f2 (\<not> b) = ms'
    \<and> (q' \<noteq> 0 \<longrightarrow> (\<forall>k \<in> set (c2 (\<not> b)). price_level (levels s2 k) \<noteq> lim))"
proof -
  let ?s1 = "log_response (ClientResponse.make ResponseType_ACCEPTED (ob_ticker_id (book s)) cid oid side q lim) s"
  have rep: "book_rep s c f" and set: "settled s f" using ok by (simp_all add: book_ok_def)
  have acc: "emits s ?s1 [accepted_event (clock s) t (ticks s) q]"
    by (simp add: emit_defs accepted_event_def t)
  have rs: "resting ?s1 c f d = resting s c f d" for d by (simp add: resting_def)
  have orph: "orphans ?s1 c = orphans s c" "off_chain ?s1 c f = off_chain s c f"
    by (simp_all add: off_chain_def orphans_def listed_def)
  have "settled ?s1 f" using set by (simp add: settled_def listed_def)
  from checkForMatch_rep [of ?s1 c f "\<not> b" side t oid cid lim q q' tid' ms' evs, OF _ this] rep b t m
  obtain s2 c2 f2 where s2: "checkForMatch oid cid side q lim ?s1 = ret (q', s2)" "book_rep s2 c2 f2"
    "settled s2 f2" "traded ?s1 c f s2 c2 f2 (\<not> b)" "emits ?s1 s2 evs" "next_trade_id s2 = tid'"
    "resting s2 c2 f2 (\<not> b) = ms'"
    by (auto simp: rs taker_def)
  have "traded s c f s2 c2 f2 (\<not> b)"
    using s2(4) by (simp add: traded_def rs orph)
  moreover have "price_level (levels s2 k) \<noteq> lim" if "q' \<noteq> 0" "k \<in> set (c2 (\<not> b))" for k
  proof -
    have "k \<in> listed s2" using that(2) book_rep_chain(2) [OF s2(2)] by blast
    then obtain a where a: "a \<in> set (f2 k)" using s2(3) by (cases "f2 k") (auto simp: settled_def)
    then have "payload (orders s2 a) \<in> set ms'" unfolding s2(7) [symmetric] resting_set using that(2) by blast
    from match_spec_keeps(4) [OF m _ resting_priority [OF rep] resting_quantities [OF rep set] that(1) this]
    have "\<not> acceptable side lim (price_level (levels s2 k))"
      using b t chain_order_price [OF s2(2) that(2) a] by simp
    then show ?thesis by (auto simp: acceptable_def)
  qed
  moreover have "emit_response (ClientResponse.make ResponseType_ACCEPTED (ob_ticker_id (book s)) cid oid
        side q lim) s = ret ?s1" using infra_queues [OF rep] by simp
  ultimately show ?thesis
    using s2 emits_trans [OF acc s2(5)] unfolding book_ok_def
    by (intro exI [of _ ?s1] exI [of _ s2] exI [of _ c2] exI [of _ f2]) simp
qed

lemma side_upd:
  fixes b :: bool
  assumes "h b = x" and "h (\<not> b) = y"
  shows "h = g(\<not> b := y, b := x)"
proof
  fix d show "h d = (g(\<not> b := y, b := x)) d" using assms by (cases "d = b") auto
qed

lemma book_set:
  "book (set_level i l s) = (book s)\<lparr>price_level_pool := set_objects ((levels s)(i := l)) (lpool s)\<rparr>"
  "book (set_orders h s) = (book s)\<lparr>order_pool := set_objects h (opool s)\<rparr>"
  "book (set_order_pool op s) = (book s)\<lparr>order_pool := op\<rparr>"
  by (simp_all add: set_level_def set_orders_def set_order_pool_def)

text \<open>Resting what is left, the second part.\<close>

lemma add_rests:
  assumes ok: "book_ok s c f" and room: "has_room s lim" and b: "b = (side = BUY)" and q: "q \<noteq> 0"
    and t: "t = taker s oid cid side lim"
    and free: "\<forall>k \<in> set (c (\<not> b)). price_level (levels s k) \<noteq> lim"
  shows "\<exists>i s1 a op h l s' c' f'. getPriceLevel lim side True s = ret (Some i, s1)
    \<and> opool s1 = opool s \<and> ticks s1 = ticks s \<and> clock s1 = clock s
    \<and> getObject (rest_of (clock s) t (ticks s) q) (opool s) = ret (a, op)
    \<and> OrdersPriceLevel_add a (objects op) (levels s1 i) = ret (h, l)
    \<and> emit_update (MarketUpdate.make UpdateType_ADD (ob_ticker_id (book s)) oid TradeId_INVALID side q lim)
        (set_level i l (set_orders h (set_order_pool op (s1\<lparr>ticks := Suc (ticks s)\<rparr>)))) = ret s'
    \<and> rested s c f s' c' f' b (rest_of (clock s) t (ticks s) q)
    \<and> sends s s' [added_event (clock s) t (Suc (ticks s)) q]
    \<and> ticks s' = ticks s + 2 \<and> next_trade_id s' = next_trade_id s"
proof -
  have rep: "book_rep s c f" and set: "settled s f" using ok by (simp_all add: book_ok_def)
  from rest_order [of s c f b t q] rep set b t q free room
  obtain i s1 a op h l c' f' where
    gl: "getPriceLevel lim side True s = ret (Some i, s1)" and out: "outside_eq s s1"
    and go: "getObject (rest_of (clock s) t (ticks s) q) (opool s1) = ret (a, op)"
    and ad: "OrdersPriceLevel_add a (objects op) (levels s1 i) = ret (h, l)"
    and re: "rested s c f (set_level i l (set_orders h (set_order_pool op s1))) c' f' b
       (rest_of (clock s) t (ticks s) q)" by (auto simp: has_room_def)
  let ?mk = "MarketUpdate.make UpdateType_ADD (ob_ticker_id (book s)) oid TradeId_INVALID side q lim"
  let ?s2 = "set_level i l (set_orders h (set_order_pool op (s1\<lparr>ticks := Suc (ticks s)\<rparr>)))"
  let ?s' = "log_update ?mk ?s2"
  have qs: "lf_ok (client_response_queue s1)" "lf_ok (market_update_queue s1)"
    using infra_queues [OF rep] out by (simp_all add: outside_eq_def)
  have bk: "book ?s' = book (set_level i l (set_orders h (set_order_pool op s1)))"
    by (simp add: book_set)
  have "infra (set_level i l (set_orders h (set_order_pool op s1)))"
    using re book_repD(1) by (auto simp: rested_def)
  then have "infra ?s'" using qs by (simp add: infra_def)
  from rested_cong [OF re bk this]
  have "rested s c f ?s' c' f' b (rest_of (clock s) t (ticks s) q)" .
  moreover have "sends s ?s' [added_event (clock s) t (Suc (ticks s)) q]"
    using out by (simp add: sends_def added_event_def outside_eq_def t)
  moreover have "emit_update ?mk ?s2 = ret ?s'" using qs by simp
  ultimately show ?thesis
    using gl out go ad
    by (intro exI [of _ i] exI [of _ s1] exI [of _ a] exI [of _ op] exI [of _ h] exI [of _ l]
        exI [of _ ?s'] exI [of _ c'] exI [of _ f']) (simp add: outside_eq_def)
qed

text \<open>
  \<open>add_done\<close> is the contract of the operation against the specification's result; the two
  lemmas below are its two exits, an order traded completely and one with a rest.
\<close>

definition add_done ::
  "BookState \<Rightarrow> (bool \<Rightarrow> nat list) \<Rightarrow> (nat \<Rightarrow> nat list) \<Rightarrow> BookState \<Rightarrow> (bool \<Rightarrow> nat list) \<Rightarrow> (nat \<Rightarrow> nat list) \<Rightarrow>
   PriceT \<Rightarrow> bool \<Rightarrow> Order list \<Rightarrow> (bool \<Rightarrow> Order list) \<times> TradeIdT \<times> nat \<times> event list \<Rightarrow> bool" where
  "add_done s c f s' c' f' lim shown held r \<longleftrightarrow>
     (case r of (bk', tid', n', evs) \<Rightarrow>
        book_ok s' c' f' \<and> resting s' c' f' = bk' \<and> next_trade_id s' = tid' \<and> ticks s' = n'
        \<and> sends s s' evs \<and> pools_step lim s s' \<and> orphans s c \<subseteq> orphans s' c'
        \<and> (shown \<longrightarrow> orphans s' c' = orphans s c) \<and> (\<not> shown \<and> announces evs \<longrightarrow> orphans s' c' \<noteq> {})
        \<and> off_chain s' c' f' = set held \<union> off_chain s c f
        \<and> card (live (opool s')) = card (live (opool s)) + (if announces evs then 1 else 0))"

lemma add_done_filled:
  assumes tr: "traded s c f s2 c2 f2 (\<not> b)" and ok: "book_ok s c f" "book_ok s2 c2 f2"
    and em: "emits s s2 evs" and r2: "resting s2 c2 f2 (\<not> b) = ms" and quiet: "\<not> announces evs"
  shows "add_done s c f s2 c2 f2 lim shown []
    ((resting s c f)(\<not> b := ms, b := resting s c f b), next_trade_id s2, ticks s + length evs, evs)"
proof -
  have "resting s2 c2 f2 b = resting s c f b" "orphans s2 c2 = orphans s c" "off_chain s2 c2 f2 = off_chain s c f"
    using tr by (simp_all add: traded_def)
  then show ?thesis
    using side_upd [of "resting s2 c2 f2" b, OF _ r2] ok(2) em quiet tr traded_pools(2) [OF tr ok]
    by (auto simp: add_done_def emit_defs traded_def)
qed

lemma add_done_rested:
  assumes tr: "traded s c f s2 c2 f2 (\<not> b)" and ok: "book_ok s c f" "book_ok s2 c2 f2"
    and em: "emits s s2 evs" and r2: "resting s2 c2 f2 (\<not> b) = ms"
    and re: "rested s2 c2 f2 s' c' f' b m" and lim: "o_limit_price m = lim"
    and lk: "linked s2 c2 b lim \<longleftrightarrow> shown" and sn: "sends s2 s' evs'" "announces evs'"
  shows "add_done s c f s' c' f' lim shown (if shown then [] else [m])
    ((resting s c f)(\<not> b := ms, b := if shown then place b m (resting s c f b) else resting s c f b),
     next_trade_id s', ticks s', evs @ evs')"
proof -
  have own: "resting s2 c2 f2 b = resting s c f b" "orphans s2 c2 = orphans s c" "off_chain s2 c2 f2 = off_chain s c f"
    using tr by (simp_all add: traded_def)
  have "resting s' c' f' b = (if shown then place b m (resting s c f b) else resting s c f b)"
    "resting s' c' f' (\<not> b) = ms"
    using re lk own r2 lim by (simp_all add: rested_def)
  note bk = side_upd [OF this, of "resting s c f"]
  have "pools_step lim s s'"
    using re traded_pools(1) [OF tr ok] tr lim by (auto simp: pools_step_def rested_def traded_def)
  moreover have "sends s s' (evs @ evs')" using em sends_trans [OF _ sn(1)] by (simp add: emit_defs)
  ultimately show ?thesis
    using re lk own lim bk tr sn(2) off_chain_none [of s' c' f']
    by (auto simp: add_done_def book_ok_def rested_def traded_def)
qed

lemma OrderBook_add_done:
  assumes ok: "book_ok s c f" and room: "has_room s lim" and b: "b = (side = BUY)"
    and t: "t = taker s oid cid side lim" and shown: "shown = placeable s c b lim"
  shows "\<exists>s' c' f'. OrderBook_add oid cid side q lim s = ret s'
    \<and> add_done s c f s' c' f' lim shown
        (held_back shown (clock s) t q (next_trade_id s) (ticks s) (resting s c f))
        (add_spec shown (clock s) t q (next_trade_id s) (ticks s) (resting s c f))"
proof -
  obtain q1 tid1 ms1 evs1 where
    m: "match_spec (clock s) t q (next_trade_id s) (Suc (ticks s)) (resting s c f (\<not> b)) = (q1, tid1, ms1, evs1)"
    by (cases "match_spec (clock s) t q (next_trade_id s) (Suc (ticks s)) (resting s c f (\<not> b))") auto
  from add_matches [OF ok b t m] obtain s1 s2 c2 f2 where
    run: "emit_response (ClientResponse.make ResponseType_ACCEPTED (ob_ticker_id (book s)) cid oid side q lim) s = ret s1"
      "checkForMatch oid cid side q lim s1 = ret (q1, s2)"
    and ok2: "book_ok s2 c2 f2" and tr: "traded s c f s2 c2 f2 (\<not> b)"
    and em: "emits s s2 (accepted_event (clock s) t (ticks s) q # evs1)"
    and n2: "next_trade_id s2 = tid1" and r2: "resting s2 c2 f2 (\<not> b) = ms1"
    and free: "q1 \<noteq> 0 \<Longrightarrow> \<forall>k \<in> set (c2 (\<not> b)). price_level (levels s2 k) \<noteq> lim" by blast
  have b': "b = (tk_side t = BUY)" and tl: "tk_limit t = lim" using t b by simp_all
  have tick: "ticks s2 = Suc (ticks s) + length evs1" "clock s2 = clock s"
    "ob_ticker_id (book s2) = ob_ticker_id (book s)" using em by (simp_all add: emit_defs)
  note spec = add_spec_eq [where bk = "resting s c f", OF m b']
  have held: "held_back shown (clock s) t q (next_trade_id s) (ticks s) (resting s c f)
      = (if shown \<or> q1 = 0 then [] else [rest_of (clock s) t (Suc (ticks s) + length evs1) q1])"
    using m b' by (simp add: held_back_def)
  show ?thesis
  proof (cases "q1 = 0")
    case True
    then show ?thesis
      using add_done_filled [OF tr ok ok2 em r2, of lim shown] match_spec_announces [OF m] run n2
      by (auto simp: spec held OrderBook_add_def Let_def accepted_event_def)
  next
    case False
    have lk: "linked s2 c2 b lim \<longleftrightarrow> shown"
      using linked_placeable [OF _ tr free [OF False]] ok2 shown by (simp add: book_ok_def)
    from add_rests [OF ok2 traded_pools(3) [OF tr ok ok2 room] b False _ free [OF False], of t oid cid]
      t tick(3) obtain i s3 a op h l s' c' f' where
      st: "getPriceLevel lim side True s2 = ret (Some i, s3)" "opool s3 = opool s2"
        "ticks s3 = ticks s2" "clock s3 = clock s2"
        "getObject (rest_of (clock s2) t (ticks s2) q1) (opool s2) = ret (a, op)"
        "OrdersPriceLevel_add a (objects op) (levels s3 i) = ret (h, l)"
        "emit_update (MarketUpdate.make UpdateType_ADD (ob_ticker_id (book s2)) oid TradeId_INVALID side q1 lim)
          (set_level i l (set_orders h (set_order_pool op (s3\<lparr>ticks := Suc (ticks s2)\<rparr>)))) = ret s'"
      and re: "rested s2 c2 f2 s' c' f' b (rest_of (clock s2) t (ticks s2) q1)"
      and sn: "sends s2 s' [added_event (clock s2) t (Suc (ticks s2)) q1]"
      and nx: "ticks s' = ticks s2 + 2" "next_trade_id s' = next_trade_id s2" by (auto simp: taker_def)
    have "OrderBook_add oid cid side q lim s = ret s'"
      using run False st tick t
      by (simp add: OrderBook_add_def Let_def getCurrentNsTimestamp_def rest_of_def)
    then show ?thesis
      using add_done_rested [OF tr ok ok2 em r2 re _ lk sn announced(2)] False tick n2 nx tl
      by (intro exI [of _ s'] exI [of _ c'] exI [of _ f']) (simp add: spec held cong: if_cong)
  qed
qed

lemma OrderBook_add_refines:
  assumes "book_ok s c f" and "has_room s lim" and "b = (side = BUY)"
    and "t = taker s oid cid side lim" and "shown = placeable s c b lim"
    and spec: "add_spec shown (clock s) t q (next_trade_id s) (ticks s) (resting s c f) = (bk', tid', n', evs)"
  shows "\<exists>s' c' f'. OrderBook_add oid cid side q lim s = ret s' \<and> book_ok s' c' f'
    \<and> resting s' c' f' = bk' \<and> next_trade_id s' = tid' \<and> ticks s' = n' \<and> sends s s' evs
    \<and> pools_step lim s s' \<and> orphans s c \<subseteq> orphans s' c' \<and> (shown \<longrightarrow> orphans s' c' = orphans s c)
    \<and> (\<not> shown \<and> announces evs \<longrightarrow> orphans s' c' \<noteq> {})
    \<and> off_chain s' c' f' = set (held_back shown (clock s) t q (next_trade_id s) (ticks s) (resting s c f)) \<union> off_chain s c f
    \<and> card (live (opool s')) = card (live (opool s)) + (if announces evs then 1 else 0)"
  using OrderBook_add_done [OF assms(1-5), of q] unfolding spec add_done_def by simp

end
