(* ===== verification/Order_Book_Cancel.thy ===== *)
theory Order_Book_Cancel
  imports Order_Book_Add
begin

text \<open>
  \<open>OrderBook_cancel\<close> refines \<open>cancel_spec\<close> for every price whose level is on a chain, and
  rejects prices without a level. For a level held outside the chains, cancelling its last
  order dereferences a null pointer.
\<close>

section \<open>The order that is meant\<close>

lemma drop_first_none: "\<forall>x \<in> set xs. \<not> P x \<Longrightarrow> drop_first P xs = xs"
  by (induction xs) auto

lemma drop_first_split: "\<forall>x \<in> set us. \<not> P x \<Longrightarrow> P v \<Longrightarrow> drop_first P (us @ v # vs) = us @ vs"
  by (induction us) auto

lemma find_split: "\<forall>x \<in> set us. \<not> P x \<Longrightarrow> P v \<Longrightarrow> List.find P (us @ v # vs) = Some v"
  by (induction us) auto

lemma resting_hit:
  assumes rep: "book_rep s c f" and hit: "is_order oid lim x" "x \<in> set (resting s c f d)"
  shows "\<exists>k a. k \<in> set (c d) \<and> a \<in> set (f k) \<and> x = payload (orders s a)
    \<and> price_levels (book s) lim = Some (Some k) \<and> o_order_id (orders s a) = oid"
proof -
  obtain k a where k: "k \<in> set (c d)" "a \<in> set (f k)" "x = payload (orders s a)"
    using hit(2) unfolding resting_set by blast
  then have "price_level (levels s k) = lim" "o_order_id (orders s a) = oid"
    using chain_order_price [OF rep k(1,2)] hit(1) by (simp_all add: is_order_def)
  moreover have "k \<in> listed s" using k(1) book_rep_chain(2) [OF rep, of d] by blast
  ultimately show ?thesis using book_rep_level(2) [OF rep, of k] k by auto
qed

lemma no_resting_hit:
  assumes rep: "book_rep s c f"
    and none: "\<And>k. price_levels (book s) lim = Some (Some k) \<Longrightarrow>
      k \<notin> set (c d) \<or> (\<forall>a \<in> set (f k). o_order_id (orders s a) \<noteq> oid)"
  shows "\<forall>x \<in> set (resting s c f d). \<not> is_order oid lim x"
  using resting_hit [OF rep] none by metis

text \<open>Taking the first order with the identifier out of its level is \<open>drop_first\<close>.\<close>

lemma resting_drop_first:
  assumes rep: "book_rep s c f" and cb: "c b = xs @ i # ys" and fi: "f i = us @ a # vs"
    and lim: "price_level (levels s i) = lim" and a: "o_order_id (orders s a) = oid"
    and us: "\<forall>y \<in> set us. o_order_id (orders s y) \<noteq> oid"
  shows "\<exists>ms1 ms2. resting s c f b = ms1 @ payload (orders s a) # ms2
    \<and> (\<forall>x \<in> set ms1. \<not> is_order oid lim x) \<and> is_order oid lim (payload (orders s a))
    \<and> map (\<lambda>x. payload (orders s x)) (concat (map (f(i := us @ vs)) (c b))) = ms1 @ ms2"
proof -
  let ?M = "map (\<lambda>x. payload (orders s x))"
  have dist: "i \<notin> set xs" "i \<notin> set ys" using book_rep_distinct [OF rep, of b] cb by auto
  have il: "i \<in> listed s" using book_rep_chain(2) [OF rep, of b] cb by auto
  have "\<not> is_order oid lim x" if x: "x \<in> set (?M (concat (map f xs)))" for x
  proof -
    obtain k y where k: "k \<in> set xs" "y \<in> set (f k)" "x = payload (orders s y)" using x by auto
    then have kb: "k \<in> set (c b)" using cb by simp
    have "price_level (levels s k) \<noteq> lim"
      using book_rep_price_inj [OF rep _ il, of k] k(1) kb dist(1) lim book_rep_chain(2) [OF rep, of b] by auto
    then show ?thesis using chain_order_price [OF rep kb k(2)] k(3) by (simp add: is_order_def)
  qed
  moreover have "\<not> is_order oid lim x" if "x \<in> set (?M us)" for x
    using that us by (auto simp: is_order_def)
  moreover have "is_order oid lim (payload (orders s a))"
    using chain_order_price [OF rep, of i b a] cb fi lim a by (simp add: is_order_def)
  moreover have "map (f(i := us @ vs)) xs = map f xs" "map (f(i := us @ vs)) ys = map f ys"
    using dist by auto
  ultimately show ?thesis
    using cb fi by (intro exI [of _ "?M (concat (map f xs) @ us)"] exI [of _ "?M (vs @ concat (map f ys))"])
      (auto simp: resting_def simp del: map_eq_conv)
qed

section \<open>Removing the order\<close>

text \<open>Queues, counters, clock and pools are left alone; only a level may be given back.\<close>

definition quiet :: "BookState \<Rightarrow> BookState \<Rightarrow> bool" where
  "quiet s s' \<longleftrightarrow>
     sends s s' [] \<and> next_trade_id s' = next_trade_id s \<and> ticks s' = ticks s
     \<and> live (opool s') = live (opool s) \<and> prices s' \<subseteq> prices s
     \<and> capacity (opool s') = capacity (opool s) \<and> capacity (lpool s') = capacity (lpool s)"

text \<open>Leaving out the last order of a level takes the level off its chain.\<close>

definition unchain :: "(bool \<Rightarrow> nat list) \<Rightarrow> bool \<Rightarrow> nat \<Rightarrow> nat list \<Rightarrow> bool \<Rightarrow> nat list" where
  "unchain c b i zs = (if zs = [] then c(b := filter (\<lambda>k. k \<noteq> i) (c b)) else c)"

lemma chain_without:
  assumes "book_rep s c f" and "c b = xs @ i # ys"
  shows "filter (\<lambda>k. k \<noteq> i) (c b) = xs @ ys"
proof -
  have "filter (\<lambda>k. k \<noteq> i) xs = xs" "filter (\<lambda>k. k \<noteq> i) ys = ys"
    by (rule filter_True, use book_rep_distinct [OF assms(1), of b] assms(2) in auto)+
  then show ?thesis using assms(2) by simp
qed

lemma resting_unchain:
  assumes rep: "book_rep s c f" and cb: "c b = xs @ i # ys"
    and pay: "\<And>x. payload (orders s' x) = payload (orders s x)"
  shows "resting s' (unchain c b i zs) (f(i := zs)) b
      = map (\<lambda>x. payload (orders s x)) (concat (map (f(i := zs)) (c b)))"
    and "resting s' (unchain c b i zs) (f(i := zs)) (\<not> b) = resting s c f (\<not> b)"
proof -
  note d = chain_without [OF rep cb]
  have "concat (map (f(i := zs)) (unchain c b i zs b)) = concat (map (f(i := zs)) (c b))"
    using d cb by (auto simp: unchain_def)
  then show "resting s' (unchain c b i zs) (f(i := zs)) b
      = map (\<lambda>x. payload (orders s x)) (concat (map (f(i := zs)) (c b)))"
    by (simp add: resting_def pay)
  show "resting s' (unchain c b i zs) (f(i := zs)) (\<not> b) = resting s c f (\<not> b)"
  proof (rule resting_cong)
    show "unchain c b i zs (\<not> b) = c (\<not> b)" by (simp add: unchain_def)
    show "(f(i := zs)) k = f k" if "k \<in> set (c (\<not> b))" for k
      using that book_rep_other_side [OF rep, of i b] cb by auto
  qed (rule pay)
qed

lemma cancel_removes:
  assumes ok: "book_ok s c f" and cb: "c b = xs @ i # ys" and fi: "f i = us @ a # vs"
    and oid: "o_order_id (orders s a) = oid" "\<forall>y \<in> set us. o_order_id (orders s y) \<noteq> oid"
  shows "\<exists>s2 s'. cancel_at i oid s = ret (Some a, s2)
    \<and> (if top_order (levels s2 i) = None then removePriceLevel i s2 else ret s2) = ret s'
    \<and> book_ok s' (unchain c b i (us @ vs)) (f(i := us @ vs)) \<and> quiet s s'
    \<and> (\<forall>j. payload (orders s' j) = payload (orders s j))
    \<and> orphans s' (unchain c b i (us @ vs)) = orphans s c"
proof -
  let ?f = "f(i := us @ vs)" and ?c = "unchain c b i (us @ vs)"
  have rep: "book_rep s c f" and set: "settled s f" using ok by (simp_all add: book_ok_def)
  have il: "i \<in> listed s" using book_rep_chain(2) [OF rep, of b] cb by auto
  from cancel_at_found [OF rep il fi oid] obtain h tp where
    can: "cancel_at i oid s = ret (Some a, set_level i ((levels s i)\<lparr>top_order := tp\<rparr>) (set_orders h s))"
    and rep2: "book_rep (set_level i ((levels s i)\<lparr>top_order := tp\<rparr>) (set_orders h s)) c ?f"
    and pay: "\<And>j. payload (h j) = payload (orders s j)" and tp: "tp = None \<longleftrightarrow> us @ vs = []" by blast
  let ?s2 = "set_level i ((levels s i)\<lparr>top_order := tp\<rparr>) (set_orders h s)"
  have L2: "listed ?s2 = listed s" by (simp add: listed_def)
  have q2: "quiet s ?s2" by (simp add: quiet_def sends_def prices_def)
  have nz: "o_quantity (h x) \<noteq> 0" if "k \<in> listed s" "x \<in> set (?f k)" for k x
    using that set fi payload_eqD(2) [OF pay, of x] by (auto simp: settled_def split: if_splits)
  show ?thesis
  proof (cases "us @ vs = []")
    case False
    have "settled ?s2 ?f" using False nz set L2 by (auto simp: settled_def)
    moreover have "orphans ?s2 c = orphans s c" using L2 by (simp add: orphans_def)
    moreover have "?c = c" "tp \<noteq> None" using False tp unfolding unchain_def by auto
    ultimately show ?thesis
      using can rep2 q2 pay by (intro exI [of _ ?s2] exI [of _ ?s2]) (auto simp: book_ok_def)
  next
    case True
    note fl = chain_without [OF rep cb]
    from removePriceLevel_linked [OF rep2 cb] obtain s' where
      rm: "removePriceLevel i ?s2 = ret s'" and rep': "book_rep s' (c(b := xs @ ys)) ?f"
      and L: "listed s' = listed ?s2 - {i}" and lp: "live (lpool s') = live (lpool ?s2) - {i}"
      and out: "outside_eq ?s2 s'" and pr: "\<And>k. price_level (levels s' k) = price_level (levels ?s2 k)" by blast
    have o: "orders s' = h" using outside_eq_orders [OF out] by simp
    have "settled s' ?f" using nz set L L2 True by (auto simp: settled_def o)
    moreover have "orphans s' ?c = orphans s c"
      using True L L2 fl cb book_rep_distinct [OF rep, of b]
      by (cases b) (auto simp: orphans_def unchain_def)
    moreover have "prices s' \<subseteq> prices ?s2" using lp by (intro prices_mono [OF rep2 rep' _ pr]) simp
    then have "quiet s s'" using q2 out by (auto simp: quiet_def sends_def outside_eq_def)
    ultimately show ?thesis
      using can rm rep' True tp pay o fl
      by (intro exI [of _ ?s2] exI [of _ s']) (simp add: book_ok_def unchain_def)
  qed
qed

section \<open>The operation\<close>

lemma cancel_spec_reject:
  assumes "\<And>d. \<forall>x \<in> set (bk d). \<not> is_order (tk_order_id t) (tk_limit t) x"
  shows "cancel_spec clk t n bk = (bk, [Response (ClientResponse.make ResponseType_CANCEL_REJECTED
    (tk_ticker t) (tk_client_id t) (tk_order_id t) Side_INVALID Quantity_INVALID Price_INVALID (clk n))])"
proof -
  have "List.find (is_order (tk_order_id t) (tk_limit t)) (bk True @ bk False) = None"
    using assms by (auto simp: find_None_iff)
  then show ?thesis by (simp add: cancel_spec_def)
qed

lemma cancel_spec_hit:
  assumes bk: "bk b = ms1 @ m # ms2" "\<forall>x \<in> set ms1. \<not> is_order (tk_order_id t) (tk_limit t) x"
    and m: "is_order (tk_order_id t) (tk_limit t) m"
    and other: "\<forall>x \<in> set (bk (\<not> b)). \<not> is_order (tk_order_id t) (tk_limit t) x"
  shows "cancel_spec clk t n bk = (bk(b := ms1 @ ms2),
    [Response (ClientResponse.make ResponseType_CANCELED (tk_ticker t) (tk_client_id t)
       (tk_order_id t) (tk_side t) (o_quantity m) (tk_limit t) (clk n)),
     Update (MarketUpdate.make UpdateType_REMOVE (tk_ticker t) (tk_order_id t)
       TradeId_INVALID (tk_side t) (o_quantity m) (tk_limit t) (clk n))])"
proof -
  let ?P = "is_order (tk_order_id t) (tk_limit t)"
  have "List.find ?P (bk True @ bk False) = Some m"
  proof (cases b)
    case True
    then show ?thesis using bk m find_split [of ms1 ?P m "ms2 @ bk False"] by simp
  next
    case False
    then show ?thesis using bk m other find_split [of "bk True @ ms1" ?P m ms2] by auto
  qed
  moreover have "(\<lambda>d. drop_first ?P (bk d)) = bk(b := ms1 @ ms2)"
  proof
    fix d show "drop_first ?P (bk d) = (bk(b := ms1 @ ms2)) d"
      using bk m other drop_first_split [of ms1 ?P m ms2] drop_first_none [of "bk d" ?P]
      by (cases "d = b") auto
  qed
  ultimately show ?thesis by (simp add: cancel_spec_def)
qed

text \<open>The response when nothing was found, in a state that holds the same book.\<close>

lemma book_ok_cong:
  assumes "book_ok s c f" and "book_rep s' c f" and "listed s' = listed s"
    and "orders s' = orders s"
  shows "book_ok s' c f \<and> resting s' c f = resting s c f \<and> orphans s' c = orphans s c
    \<and> off_chain s' c f = off_chain s c f"
  using assms by (simp add: book_ok_def settled_def resting_def off_chain_def orphans_def fun_eq_iff)

text \<open>What \<open>OrderBook_cancel\<close> has to deliver, given the result of the specification.\<close>

definition cancelled ::
  "BookState \<Rightarrow> (bool \<Rightarrow> nat list) \<Rightarrow> (nat \<Rightarrow> nat list) \<Rightarrow> (bool \<Rightarrow> Order list) \<times> event list \<Rightarrow> BookState outcome
    \<Rightarrow> bool" where
  "cancelled s c f spec r \<longleftrightarrow>
     (\<exists>s' c' f'. r = ret s' \<and> book_ok s' c' f' \<and> resting s' c' f' = fst spec \<and> sends s s' (snd spec)
        \<and> ticks s' = Suc (ticks s) \<and> next_trade_id s' = next_trade_id s
        \<and> orphans s' c' = orphans s c \<and> off_chain s' c' f' = off_chain s c f
        \<and> live (opool s') = live (opool s) \<and> prices s' \<subseteq> prices s
        \<and> capacity (opool s') = capacity (opool s) \<and> capacity (lpool s') = capacity (lpool s))"

lemma reject_same:
  assumes ok: "book_ok s c f" and t: "t = taker s oid cid side lim"
    and none: "\<And>d. \<forall>x \<in> set (resting s c f d). \<not> is_order oid lim x"
    and s1: "book_rep s1 c f" "listed s1 = listed s" "orders s1 = orders s" "quiet s s1"
    and r: "r = emit_response (ClientResponse.make ResponseType_CANCEL_REJECTED (ob_ticker_id (book s)) cid oid
        Side_INVALID Quantity_INVALID Price_INVALID) s1"
  shows "cancelled s c f (cancel_spec (clock s) t (ticks s) (resting s c f)) r"
proof -
  let ?s' = "log_response (ClientResponse.make ResponseType_CANCEL_REJECTED (ob_ticker_id (book s)) cid oid
        Side_INVALID Quantity_INVALID Price_INVALID) s1"
  have "r = ret ?s'" using r infra_queues [OF s1(1)] by simp
  moreover have "book_ok ?s' c f \<and> resting ?s' c f = resting s c f \<and> orphans ?s' c = orphans s c
    \<and> off_chain ?s' c f = off_chain s c f"
    by (rule book_ok_cong [OF ok]) (use s1 in \<open>simp_all add: listed_def\<close>)
  moreover have "prices ?s' = prices s1" by (simp add: prices_def)
  moreover have "cancel_spec (clock s) t (ticks s) (resting s c f) =
      (resting s c f, [Response (ClientResponse.make ResponseType_CANCEL_REJECTED (ob_ticker_id (book s)) cid oid
        Side_INVALID Quantity_INVALID Price_INVALID (clock s (ticks s)))])"
    using cancel_spec_reject [of "resting s c f" t] none t by simp
  ultimately show ?thesis
    using s1(4) unfolding cancelled_def
    by (intro exI [of _ ?s'] exI [of _ c] exI [of _ f]) (simp add: quiet_def sends_def)
qed

lemma cancel_no_level:
  assumes ok: "book_ok s c f" and t: "t = taker s oid cid side lim"
    and "\<forall>k. price_levels (book s) lim \<noteq> Some (Some k)"
  shows "cancelled s c f (cancel_spec (clock s) t (ticks s) (resting s c f)) (OrderBook_cancel cid oid side lim s)"
proof -
  have rep: "book_rep s c f" using ok by (simp add: book_ok_def)
  from index_missing [OF assms(3)] obtain s1 where ix: "index_price_levels lim s = (None, s1)"
    and s1: "orders s1 = orders s" "levels s1 = levels s" "listed s1 = listed s" "lpool s1 = lpool s"
      "outside_eq s s1" by blast
  have rep1: "book_rep s1 c f" using book_rep_index [OF rep ix] by simp
  moreover have "prices s1 = prices s" using book_rep_prices [OF rep] book_rep_prices [OF rep1] s1(2,4) by simp
  then have "quiet s s1" using s1 by (simp add: quiet_def sends_def outside_eq_def)
  moreover have "\<forall>x \<in> set (resting s c f d). \<not> is_order oid lim x" for d
    by (rule no_resting_hit [OF rep]) (use assms(3) in simp)
  moreover have "OrderBook_cancel cid oid side lim s = emit_response (ClientResponse.make
      ResponseType_CANCEL_REJECTED (ob_ticker_id (book s)) cid oid Side_INVALID Quantity_INVALID Price_INVALID) s1"
    using ix by (simp add: OrderBook_cancel_def Let_def getPriceLevel_def getPriceLevelIndex_def)
  ultimately show ?thesis using reject_same [OF ok t] s1 by blast
qed

lemma cancel_no_order:
  assumes ok: "book_ok s c f" and t: "t = taker s oid cid side lim"
    and i: "price_levels (book s) lim = Some (Some i)"
    and none: "\<forall>a \<in> set (f i). o_order_id (orders s a) \<noteq> oid"
  shows "cancelled s c f (cancel_spec (clock s) t (ticks s) (resting s c f)) (OrderBook_cancel cid oid side lim s)"
proof -
  have rep: "book_rep s c f" and set: "settled s f" using ok by (simp_all add: book_ok_def)
  have il: "i \<in> listed s" using book_rep_priced [OF rep i] by simp
  then have ne: "f i \<noteq> []" using set by (simp add: settled_def)
  let ?s1 = "set_level i (levels s i) (set_orders (orders s) s)"
  have can: "cancel_at i oid s = ret (None, ?s1)" by (rule cancel_at_missing [OF rep il ne none])
  have top: "top_order (levels s i) \<noteq> None"
    using book_rep_level(1) [OF rep il] ne by (auto simp: level_ok_def level_rep_def split: if_splits)
  have L: "listed ?s1 = listed s" by (simp add: listed_def)
  have "book_rep ?s1 c f"
    using rep by (rule book_rep_cong) (use book_repD(1) [OF rep] in \<open>auto simp: infra_def\<close>)
  moreover have "quiet s ?s1" by (simp add: quiet_def sends_def prices_def)
  moreover have "\<forall>x \<in> set (resting s c f d). \<not> is_order oid lim x" for d
    by (rule no_resting_hit [OF rep]) (use i none in simp)
  moreover have "OrderBook_cancel cid oid side lim s = emit_response (ClientResponse.make
      ResponseType_CANCEL_REJECTED (ob_ticker_id (book s)) cid oid Side_INVALID Quantity_INVALID Price_INVALID) ?s1"
    using getPriceLevel_registered [OF i, of side False] can top
    by (auto simp: OrderBook_cancel_def Let_def)
  ultimately show ?thesis using reject_same [OF ok t _ _ L] by simp
qed

text \<open>What the specification does when the order at address \<open>x\<close> is the first one that matches.\<close>

lemma cancel_spec_found:
  fixes c b i us vs
  defines "c' \<equiv> unchain c b i (us @ vs)"
  assumes rep: "book_rep s c f" and t: "t = taker s oid cid side lim"
    and i: "price_levels (book s) lim = Some (Some i)" and cb: "c b = xs @ i # ys"
    and fi: "f i = us @ x # vs" and x: "o_order_id (orders s x) = oid"
      "\<forall>y \<in> set us. o_order_id (orders s y) \<noteq> oid"
    and pay: "\<And>j. payload (orders s' j) = payload (orders s j)"
  shows "cancel_spec (clock s) t (ticks s) (resting s c f) = (resting s' c' (f(i := us @ vs)),
    [Response (ClientResponse.make ResponseType_CANCELED (ob_ticker_id (book s)) cid oid side
       (o_quantity (orders s x)) lim (clock s (ticks s))),
     Update (MarketUpdate.make UpdateType_REMOVE (ob_ticker_id (book s)) oid TradeId_INVALID side
       (o_quantity (orders s x)) lim (clock s (ticks s)))])"
    (is "_ = (?bk, ?evs)")
proof -
  have lim: "price_level (levels s i) = lim" using book_rep_priced [OF rep i] by simp
  obtain ms1 ms2 where ms: "resting s c f b = ms1 @ payload (orders s x) # ms2"
    "\<forall>y \<in> set ms1. \<not> is_order oid lim y" "is_order oid lim (payload (orders s x))"
    "map (\<lambda>x. payload (orders s x)) (concat (map (f(i := us @ vs)) (c b))) = ms1 @ ms2"
    using resting_drop_first [OF rep cb fi lim x] by blast
  have "i \<notin> set (c (\<not> b))" using book_rep_other_side [OF rep, of i b] cb by auto
  then have "\<forall>y \<in> set (resting s c f (\<not> b)). \<not> is_order oid lim y"
    by (intro no_resting_hit [OF rep]) (use i in auto)
  then have spec: "cancel_spec (clock s) t (ticks s) (resting s c f) = ((resting s c f)(b := ms1 @ ms2), ?evs)"
    using cancel_spec_hit [of "resting s c f" b ms1 "payload (orders s x)" ms2 t "clock s" "ticks s"] ms(1-3) t
    by simp
  have rs: "?bk b = ms1 @ ms2" "?bk (\<not> b) = resting s c f (\<not> b)"
    using resting_unchain [OF rep cb pay] ms(4) by (simp_all add: c'_def)
  have "?bk d = ((resting s c f)(b := ms1 @ ms2)) d" for d using rs by (cases "d = b") auto
  then show ?thesis using spec by (auto simp: fun_eq_iff)
qed

lemma cancel_found:
  assumes ok: "book_ok s c f" and t: "t = taker s oid cid side lim"
    and i: "price_levels (book s) lim = Some (Some i)" "i \<in> set (c b)"
    and hit: "a \<in> set (f i)" "o_order_id (orders s a) = oid"
  shows "cancelled s c f (cancel_spec (clock s) t (ticks s) (resting s c f)) (OrderBook_cancel cid oid side lim s)"
proof -
  have rep: "book_rep s c f" using ok by (simp add: book_ok_def)
  obtain xs ys where cb: "c b = xs @ i # ys" using i(2) by (meson split_list)
  obtain us x vs where fi: "f i = us @ x # vs" and x: "o_order_id (orders s x) = oid"
    "\<forall>y \<in> set us. o_order_id (orders s y) \<noteq> oid"
    using split_list_first_prop [of "f i" "\<lambda>y. o_order_id (orders s y) = oid"] hit by blast
  let ?f = "f(i := us @ vs)" and ?c = "unchain c b i (us @ vs)"
  from cancel_removes [OF ok cb fi x] obtain s2 s3 where
    can: "cancel_at i oid s = ret (Some x, s2)"
    and rm: "(if top_order (levels s2 i) = None then removePriceLevel i s2 else ret s2) = ret s3"
    and ok3: "book_ok s3 ?c ?f" and q3: "quiet s s3"
    and pay: "\<And>j. payload (orders s3 j) = payload (orders s j)" and orph: "orphans s3 ?c = orphans s c" by blast
  let ?q = "o_quantity (orders s x)" and ?ts = "clock s (ticks s)"
  let ?R = "ClientResponse.make ResponseType_CANCELED (ob_ticker_id (book s)) cid oid side ?q lim ?ts"
  let ?U = "MarketUpdate.make UpdateType_REMOVE (ob_ticker_id (book s)) oid TradeId_INVALID side ?q lim ?ts"
  let ?s' = "s3\<lparr>ticks := Suc (ticks s), client_response_queue := push_slot ?R (client_response_queue s3),
      market_update_queue := push_slot ?U (market_update_queue s3)\<rparr>"
  have qs: "lf_ok (client_response_queue s3)" "lf_ok (market_update_queue s3)"
    using infra_queues ok3 by (auto simp: book_ok_def)
  have same: "ticks s3 = ticks s" "clock s3 = clock s" "ob_ticker_id (book s3) = ob_ticker_id (book s)"
    using q3 by (simp_all add: quiet_def sends_def)
  have run: "OrderBook_cancel cid oid side lim s = ret ?s'"
    using getPriceLevel_registered [OF i(1), of side False] can rm qs same payload_eqD(2) [OF pay, of x]
    by (simp add: OrderBook_cancel_def Let_def getCurrentNsTimestamp_def push_response_def push_update_def)
  have rep': "book_rep ?s' ?c ?f"
    by (rule book_rep_book [of s3]) (use ok3 book_repD(1) [of s3 ?c ?f] qs in \<open>simp_all add: book_ok_def infra_def\<close>)
  have "off_chain s3 ?c ?f = off_chain s c f"
    by (rule off_chain_cong [OF orph _ pay]) (use i(2) in \<open>cases b; auto simp: orphans_def\<close>)
  moreover have "book_ok ?s' ?c ?f \<and> resting ?s' ?c ?f = resting s3 ?c ?f \<and> orphans ?s' ?c = orphans s3 ?c
    \<and> off_chain ?s' ?c ?f = off_chain s3 ?c ?f"
    by (rule book_ok_cong [OF ok3 rep']) (simp_all add: listed_def)
  moreover have "sends s ?s' [Response ?R, Update ?U]" using q3 by (simp add: quiet_def sends_def)
  moreover have "prices ?s' = prices s3" by (simp add: prices_def)
  ultimately show ?thesis
    using q3 orph run unfolding cancelled_def cancel_spec_found [OF rep t i(1) cb fi x pay]
    by (intro exI [of _ ?s'] exI [of _ ?c] exI [of _ ?f]) (simp add: quiet_def)
qed

lemma OrderBook_cancel_refines:
  assumes ok: "book_ok s c f" and t: "t = taker s oid cid side lim"
    and on: "\<forall>i \<in> orphans s c. price_level (levels s i) \<noteq> lim"
  shows "cancelled s c f (cancel_spec (clock s) t (ticks s) (resting s c f)) (OrderBook_cancel cid oid side lim s)"
proof (cases "\<exists>i. price_levels (book s) lim = Some (Some i)")
  case True
  then obtain i where i: "price_levels (book s) lim = Some (Some i)" by blast
  have "i \<in> listed s" "price_level (levels s i) = lim"
    using book_rep_priced [OF _ i] ok by (auto simp: book_ok_def)
  then obtain b where "i \<in> set (c b)" using on by (auto simp: orphans_def)
  then show ?thesis
    using cancel_found [OF ok t i] cancel_no_order [OF ok t i] by blast
qed (use cancel_no_level [OF ok t] in blast)

text \<open>
  A level outside its nonempty chain: cancelling the only order of the level walks along the
  chain to its end and reads through a null pointer.
\<close>

lemma OrderBook_cancel_orphan:
  assumes ok: "book_ok s c f" and i: "i \<in> orphans s c" "f i = [a]"
    and side: "l_side (levels s i) = BUY \<longleftrightarrow> b" "c b \<noteq> []"
  shows "OrderBook_cancel cid (o_order_id (orders s a)) side (price_level (levels s i)) s
      = throw Null_Dereference"
proof -
  let ?oid = "o_order_id (orders s a)"
  have rep: "book_rep s c f" using ok by (simp add: book_ok_def)
  have il: "i \<in> listed s" "i \<notin> set (c b)" using i(1) by (cases b; auto simp: orphans_def)+
  from cancel_at_found [OF rep il(1), of "[]" a "[]" ?oid] i(2) obtain h where
    can: "cancel_at i ?oid s = ret (Some a, set_level i ((levels s i)\<lparr>top_order := None\<rparr>) (set_orders h s))"
    and rep2: "book_rep (set_level i ((levels s i)\<lparr>top_order := None\<rparr>) (set_orders h s)) c (f(i := []))"
    by auto
  have "removePriceLevel i (set_level i ((levels s i)\<lparr>top_order := None\<rparr>) (set_orders h s))
      = throw Null_Dereference"
    by (rule removePriceLevel_unlinked [OF rep2, of i b]) (use il side in \<open>simp_all add: listed_def\<close>)
  then show ?thesis
    using getPriceLevel_registered [OF book_rep_level(2) [OF rep il(1)], of side False] can
    by (simp add: OrderBook_cancel_def Let_def)
qed

end
