(* ===== verification/Order_Book_Run.thy ===== *)
theory Order_Book_Run
  imports Order_Book_Cancel
begin

text \<open>
  Histories of a book: the state after construction, the levels that can be reached from the
  best prices, and sequences of operations. Histories of additions never fault while the pools
  have room for the orders and for one level of each price that occurs; neither do histories that
  also cancel, as long as the level concerned is on a chain.
\<close>

section \<open>A new book\<close>

definition opened ::
  "TickerIdT \<Rightarrow> ClientResponseLFQueue \<Rightarrow> MarketUpdateLFQueue \<Rightarrow> TradeIdT \<Rightarrow> (nat \<Rightarrow> NsTimestampT) \<Rightarrow> nat
    \<Rightarrow> BookState" where
  "opened ticker rq uq tid clk n =
     \<lparr>book = OrderBook_new ticker, client_response_queue = rq, market_update_queue = uq,
      next_trade_id = tid, clock = clk, ticks = n\<rparr>"

lemma opened_simps [simp]:
  "live (opool (opened ticker rq uq tid clk n)) = {}" "live (lpool (opened ticker rq uq tid clk n)) = {}"
  "capacity (opool (opened ticker rq uq tid clk n)) = MAX_ORDER_IDS"
  "capacity (lpool (opened ticker rq uq tid clk n)) = MAX_PRICE_LEVELS"
  "price_levels (book (opened ticker rq uq tid clk n)) = Map.empty"
  "best side (opened ticker rq uq tid clk n) = None"
  "listed (opened ticker rq uq tid clk n) = {}" "prices (opened ticker rq uq tid clk n) = {}"
  by (simp_all add: opened_def OrderBook_new_def best_def listed_def prices_def)

lemma opened_ok:
  assumes "lf_ok rq" and "lf_ok uq"
  shows "book_ok (opened ticker rq uq tid clk n) (\<lambda>_. []) f"
proof -
  have "infra (opened ticker rq uq tid clk n)"
    using assms by (simp add: infra_def opened_def OrderBook_new_def pool_ok_new constants)
  then show ?thesis
    by (simp add: book_ok_def book_rep_def levels_rep_def side_rep_def settled_def)
qed

section \<open>Levels on a chain\<close>

inductive on_chain :: "BookState \<Rightarrow> nat \<Rightarrow> bool" for s where
  best: "best side s = Some i \<Longrightarrow> on_chain s i"
| follow: "on_chain s i \<Longrightarrow> next_price_level (levels s i) = Some j \<Longrightarrow> on_chain s j"

lemma chain_reaches:
  "chain (levels s) p is \<Longrightarrow> (\<And>i. p = Some i \<Longrightarrow> on_chain s i) \<Longrightarrow> k \<in> set is \<Longrightarrow> on_chain s k"
proof (induction "is" arbitrary: p)
  case (Cons i "is")
  then have i: "on_chain s i" by simp
  show ?case
  proof (cases "k = i")
    case False
    then show ?thesis using Cons.IH [of "next_price_level (levels s i)"] Cons.prems on_chain.follow [OF i] by simp
  qed (use i in simp)
qed simp

lemma chain_closed:
  assumes "chain lh p is" and "i \<in> set is" and "next_price_level (lh i) = Some j"
  shows "j \<in> set is"
  using assms
proof (induction "is" arbitrary: p)
  case (Cons k "is")
  then show ?case by (cases "i = k") (auto simp: chain_Some)
qed simp

lemma on_chain_iff:
  assumes rep: "book_rep s c f"
  shows "on_chain s i \<longleftrightarrow> i \<in> set (c True) \<union> set (c False)"
proof
  assume "on_chain s i"
  then show "i \<in> set (c True) \<union> set (c False)"
  proof induction
    case (best side i)
    have "best (side_of (side = BUY)) s = Some i" using best by simp
    then show ?case
      using book_rep_chain(1) [OF rep, of "side = BUY"] by (cases "side = BUY") (auto simp: chain_Some)
  next
    case (follow i j)
    then show ?case using chain_closed [OF book_rep_chain(1) [OF rep]] by blast
  qed
next
  have "on_chain s i" if "i \<in> set (c b)" for b
    by (rule chain_reaches [OF book_rep_chain(1) [OF rep] _ that]) (rule on_chain.best)
  then show "i \<in> set (c True) \<union> set (c False) \<Longrightarrow> on_chain s i" by blast
qed

lemma orphans_off_chain: "book_rep s c f \<Longrightarrow> orphans s c = {i \<in> listed s. \<not> on_chain s i}"
  by (auto simp: orphans_def on_chain_iff)

text \<open>The price has no level, or one that is on a chain.\<close>

definition level_reachable :: "BookState \<Rightarrow> PriceT \<Rightarrow> bool" where
  "level_reachable s lim \<longleftrightarrow> (\<forall>i. price_levels (book s) lim = Some (Some i) \<longrightarrow> on_chain s i)"

lemma off_chain_prices:
  assumes "book_ok s c f" and on: "level_reachable s lim"
  shows "\<forall>i \<in> orphans s c. price_level (levels s i) \<noteq> lim"
proof -
  have rep: "book_rep s c f" using assms(1) by (simp add: book_ok_def)
  show ?thesis
    using on book_rep_level(2) [OF rep] unfolding orphans_off_chain [OF rep] level_reachable_def by blast
qed

section \<open>One operation\<close>

text \<open>
  Prices that fit into the pool of levels, and what a book satisfies that has done \<open>k\<close>
  operations with prices in \<open>P\<close>.
\<close>

definition few_prices :: "PriceT set \<Rightarrow> bool" where
  "few_prices P \<longleftrightarrow> card P < MAX_PRICE_LEVELS"

definition sound :: "PriceT set \<Rightarrow> nat \<Rightarrow> BookState \<Rightarrow> bool" where
  "sound P k s \<longleftrightarrow>
     (\<exists>c f. book_ok s c f \<and> live_book (resting s c f))
     \<and> card (live (opool s)) \<le> k \<and> prices s \<subseteq> P \<and> few_prices P
     \<and> capacity (opool s) = MAX_ORDER_IDS \<and> capacity (lpool s) = MAX_PRICE_LEVELS"

lemma sound_opened [wf_intros]:
  assumes "lf_ok rq" and "lf_ok uq" and "few_prices P"
  shows "sound P 0 (opened ticker rq uq tid clk n)"
  unfolding sound_def
proof (intro conjI exI)
  show "book_ok (opened ticker rq uq tid clk n) (\<lambda>_. []) (\<lambda>_. [])" by (rule opened_ok [OF assms(1,2)])
  show "live_book (resting (opened ticker rq uq tid clk n) (\<lambda>_. []) (\<lambda>_. []))"
    by (simp add: live_book_def uncrossed_def priority_def resting_def)
qed (simp_all add: assms(3))

lemma sound_room:
  assumes "sound P k s" and "Suc k < MAX_ORDER_IDS" and "lim \<in> P"
  shows "has_room s lim"
proof -
  have "card (insert lim (prices s)) \<le> card P" using assms(1,3) by (intro card_mono) (auto simp: sound_def)
  then show ?thesis using assms by (simp add: sound_def has_room_def few_prices_def constants)
qed

lemma sound_next:
  "sound P k s \<Longrightarrow> book_ok s' c' f' \<Longrightarrow> live_book (resting s' c' f') \<Longrightarrow> pools_step lim s s' \<Longrightarrow> lim \<in> P \<Longrightarrow>
     sound P (Suc k) s'"
  unfolding sound_def pools_step_def by (intro conjI) (blast, simp_all, blast)

lemma add_sound:
  assumes "sound P k s" and "Suc k < MAX_ORDER_IDS" and "lim \<in> P"
  shows "\<exists>s'. OrderBook_add oid cid side q lim s = ret s' \<and> sound P (Suc k) s'
    \<and> ob_ticker_id (book s') = ob_ticker_id (book s)"
proof -
  obtain c f where ok: "book_ok s c f" and lv: "live_book (resting s c f)"
    using assms(1) by (auto simp: sound_def)
  have room: "has_room s lim" by (rule sound_room [OF assms])
  obtain bk' tid' n' evs where spec: "add_spec (placeable s c (side = BUY) lim) (clock s) (taker s oid cid side lim)
      q (next_trade_id s) (ticks s) (resting s c f) = (bk', tid', n', evs)"
    by (metis prod_cases4)
  from OrderBook_add_refines [OF ok room refl refl refl spec] obtain s' c' f' where
    "OrderBook_add oid cid side q lim s = ret s'" "book_ok s' c' f'" "resting s' c' f' = bk'" "pools_step lim s s'"
    "sends s s' evs" by blast
  then show ?thesis
    using sound_next [OF assms(1), of s' c' f' lim] add_spec_live [OF lv spec] assms(3) by (simp add: sends_def)
qed

lemma cancel_sound:
  assumes "sound P k s" and on: "level_reachable s lim"
  shows "\<exists>s'. OrderBook_cancel cid oid side lim s = ret s' \<and> sound P k s'
    \<and> ob_ticker_id (book s') = ob_ticker_id (book s)"
proof -
  obtain c f where ok: "book_ok s c f" and lv: "live_book (resting s c f)"
    using assms(1) by (auto simp: sound_def)
  let ?spec = "cancel_spec (clock s) (taker s oid cid side lim) (ticks s) (resting s c f)"
  from OrderBook_cancel_refines [OF ok refl off_chain_prices [OF ok on], of oid cid side] obtain s' c' f' where
    "OrderBook_cancel cid oid side lim s = ret s'" "book_ok s' c' f'" "resting s' c' f' = fst ?spec"
    "live (opool s') = live (opool s)" "prices s' \<subseteq> prices s" "capacity (opool s') = capacity (opool s)"
    "capacity (lpool s') = capacity (lpool s)" "sends s s' (snd ?spec)"
    by (auto simp: cancelled_def)
  moreover have "live_book (fst ?spec)" by (rule cancel_spec_live [OF lv]) (rule prod.collapse [symmetric])
  ultimately have "\<exists>c f. book_ok s' c f \<and> live_book (resting s' c f)"
    "OrderBook_cancel cid oid side lim s = ret s'" "sends s s' (snd ?spec)"
    "card (live (opool s')) \<le> k" "prices s' \<subseteq> P" "capacity (opool s') = MAX_ORDER_IDS" "capacity (lpool s') = MAX_PRICE_LEVELS"
    using assms(1) unfolding sound_def by (metis, blast, blast, simp, blast, simp, simp)
  then show ?thesis using assms(1) by (simp add: sound_def sends_def)
qed

section \<open>Histories\<close>

text \<open>Additions with prices in \<open>P\<close> are counted; cancellations are free.\<close>

inductive book_step :: "PriceT set \<Rightarrow> nat \<Rightarrow> BookState \<Rightarrow> nat \<Rightarrow> BookState \<Rightarrow> bool" for P where
  add: "OrderBook_add oid cid side q lim s = ret s' \<Longrightarrow> lim \<in> P \<Longrightarrow> book_step P k s (Suc k) s'"
| cancel: "OrderBook_cancel cid oid side lim s = ret s' \<Longrightarrow> level_reachable s lim \<Longrightarrow> book_step P k s k s'"

inductive book_runs :: "PriceT set \<Rightarrow> BookState \<Rightarrow> nat \<Rightarrow> BookState \<Rightarrow> bool" for P s0 where
  start: "book_runs P s0 0 s0"
| step: "book_runs P s0 k s \<Longrightarrow> book_step P k s k' s' \<Longrightarrow> book_runs P s0 k' s'"

inductive_cases book_stepE: "book_step P k s k' s'"

lemma book_step_count: "book_step P k s k' s' \<Longrightarrow> k \<le> k'"
  by (auto elim: book_stepE)

lemma sound_step:
  assumes "book_step P k s k' s'" and "sound P k s" and "k' < MAX_ORDER_IDS"
  shows "sound P k' s'"
  using assms(1)
proof (cases rule: book_stepE [consumes 1, case_names add cancel])
  case (add oid cid side q lim)
  then show ?thesis using add_sound [OF assms(2), of lim oid cid side q] assms(3) by auto
next
  case (cancel cid oid side lim)
  then show ?thesis using cancel_sound [OF assms(2), of lim cid oid side] by auto
qed

lemma sound_runs:
  assumes "book_runs P s0 k s" and "sound P 0 s0" and "k < MAX_ORDER_IDS"
  shows "sound P k s"
  using assms
proof (induction)
  case (step k s k' s')
  then have "sound P k s" using book_step_count [OF step.hyps(2)] by simp
  then show ?case using sound_step [OF step.hyps(2)] step.prems by simp
qed

section \<open>The contract the exchange relies on\<close>

text \<open>
  A client that sends a list of new orders, and the laws under which none of them faults:
  \<open>ok k\<close> is a state after at most \<open>k\<close> additions, \<open>limit\<close> bounds their number, and \<open>fits\<close> are the
  prices that may occur.
\<close>

type_synonym new_order = "OrderIdT \<times> ClientIdT \<times> OrderSide \<times> QuantityT \<times> PriceT"

fun add_all ::
  "(OrderIdT \<Rightarrow> ClientIdT \<Rightarrow> OrderSide \<Rightarrow> QuantityT \<Rightarrow> PriceT \<Rightarrow> 's \<Rightarrow> 's outcome) \<Rightarrow> new_order list
    \<Rightarrow> 's \<Rightarrow> 's outcome" where
  "add_all add [] s = ret s"
| "add_all add ((oid, cid, side, q, lim) # os) s = obind (add oid cid side q lim s) (add_all add os)"

definition order_prices :: "new_order list \<Rightarrow> PriceT set" where
  "order_prices os = (\<lambda>(oid, cid, side, q, lim). lim) ` set os"

locale book_service =
  fixes add :: "OrderIdT \<Rightarrow> ClientIdT \<Rightarrow> OrderSide \<Rightarrow> QuantityT \<Rightarrow> PriceT \<Rightarrow> 's \<Rightarrow> 's outcome"
    and cancel :: "ClientIdT \<Rightarrow> OrderIdT \<Rightarrow> OrderSide \<Rightarrow> PriceT \<Rightarrow> 's \<Rightarrow> 's outcome"
    and ok :: "PriceT set \<Rightarrow> nat \<Rightarrow> 's \<Rightarrow> bool"
    and reachable :: "'s \<Rightarrow> PriceT \<Rightarrow> bool"
    and ident :: "'s \<Rightarrow> TickerIdT"
    and limit :: nat
  assumes add_returns: "ok P k s \<Longrightarrow> Suc k < limit \<Longrightarrow> lim \<in> P \<Longrightarrow>
      \<exists>s'. add oid cid side q lim s = ret s' \<and> ok P (Suc k) s' \<and> ident s' = ident s"
    and cancel_returns: "ok P k s \<Longrightarrow> reachable s lim \<Longrightarrow>
      \<exists>s'. cancel cid oid side lim s = ret s' \<and> ok P k s' \<and> ident s' = ident s"
begin

lemma add_all_returns:
  "ok P k s \<Longrightarrow> k + length os < limit \<Longrightarrow> order_prices os \<subseteq> P \<Longrightarrow>
     \<exists>s'. add_all add os s = ret s' \<and> ok P (k + length os) s' \<and> ident s' = ident s"
proof (induction os arbitrary: k s)
  case (Cons ord os)
  obtain oid cid side q lim where o: "ord = (oid, cid, side, q, lim)" by (cases ord)
  from Cons.prems obtain s1 where "add oid cid side q lim s = ret s1" "ok P (Suc k) s1" "ident s1 = ident s"
    using add_returns [of P k s lim oid cid side q] by (auto simp: o order_prices_def)
  with Cons.IH [of "Suc k" s1] Cons.prems(2,3) show ?case by (auto simp: o order_prices_def)
qed simp

end

interpretation service: book_service OrderBook_add OrderBook_cancel sound level_reachable
  "\<lambda>s. ob_ticker_id (book s)" MAX_ORDER_IDS
  by unfold_locales (blast intro: add_sound cancel_sound)+

text \<open>The invariant only needs the book itself and well-formed queues.\<close>

lemma sound_book:
  assumes "sound P k s" and "book s' = book s" and "lf_ok (client_response_queue s')"
    and "lf_ok (market_update_queue s')"
  shows "sound P k s'"
proof -
  obtain c f where ok: "book_ok s c f" and lv: "live_book (resting s c f)"
    using assms(1) by (auto simp: sound_def)
  have rep: "book_rep s c f" using ok by (simp add: book_ok_def)
  have "book_rep s' c f"
    by (rule book_rep_book [OF rep assms(2)])
      (use book_repD(1) [OF rep] assms(2-4) in \<open>simp add: infra_def\<close>)
  then have "book_ok s' c f \<and> live_book (resting s' c f)"
    using ok lv by (simp add: book_ok_def settled_def resting_def [abs_def] same_book [OF assms(2)])
  then show ?thesis using assms(1,2) unfolding sound_def prices_def by auto
qed

lemma sound_mono: "sound P k s \<Longrightarrow> k \<le> k' \<Longrightarrow> sound P k' s"
  by (auto simp: sound_def)

lemma sound_queues:
  "sound P k s \<Longrightarrow> lf_ok (client_response_queue s) \<and> lf_ok (market_update_queue s)"
  using infra_queues by (auto simp: sound_def book_ok_def)

end
