(* ===== verification/Order_Book_Example.thy ===== *)
theory Order_Book_Example
  imports Order_Book_Run
begin

text \<open>
  A small book, spelled out: two bids at 100, one ask at 105, and a bid at 90 whose level is
  registered but not on the chain, as after adding the bids at 100 first. It is the concrete
  input at which the properties of the book are exercised.
\<close>

definition example_order :: "nat \<Rightarrow> nat \<Rightarrow> OrderIdT \<Rightarrow> OrderSide \<Rightarrow> QuantityT \<Rightarrow> PriceT \<Rightarrow> Order" where
  "example_order nxt prev oid side q p =
     (Order_new 0 oid 7 0 side q p)\<lparr>o_next := Some nxt, o_previous := Some prev\<rparr>"

definition example_orders :: "nat \<Rightarrow> Order" where
  "example_orders i =
     (if i = 0 then example_order 1 1 1 BUY 10 100
      else if i = 1 then example_order 0 0 2 BUY 5 100
      else if i = 2 then example_order 2 2 3 SELL 8 105
      else if i = 3 then example_order 3 3 4 BUY 6 90
      else Order_default)"

definition example_levels :: "nat \<Rightarrow> OrdersPriceLevel" where
  "example_levels i =
     (if i = 0 then (OrdersPriceLevel_new BUY 100 None)\<lparr>top_order := Some 0\<rparr>
      else if i = 1 then (OrdersPriceLevel_new SELL 105 None)\<lparr>top_order := Some 2\<rparr>
      else if i = 2 then (OrdersPriceLevel_new BUY 90 None)\<lparr>top_order := Some 3\<rparr>
      else OrdersPriceLevel_default)"

definition example_pool :: "nat \<Rightarrow> (nat \<Rightarrow> 'a) \<Rightarrow> 'a ObjectPool" where
  "example_pool k h =
     \<lparr>store = \<lparr>elem = (\<lambda>i. \<lparr>object = h i, available = (k \<le> i)\<rparr>), size_of = 8\<rparr>, next_free = k\<rparr>"

definition example_book :: BookState where
  "example_book =
     \<lparr>book = \<lparr>ob_ticker_id = 0, order_pool = example_pool 4 example_orders,
        price_level_pool = example_pool 3 example_levels,
        price_levels = [100 \<mapsto> Some 0, 105 \<mapsto> Some 1, 90 \<mapsto> Some 2],
        best_bids = Some 0, best_asks = Some 1\<rparr>,
      client_response_queue = LFQueue_new 16 ClientResponse_default,
      market_update_queue = LFQueue_new 16 MarketUpdate_default,
      next_trade_id = 1, clock = int, ticks = 0\<rparr>"

definition example_chains :: "bool \<Rightarrow> nat list" where
  "example_chains b = (if b then [0] else [1])"

definition example_lists :: "nat \<Rightarrow> nat list" where
  "example_lists i = (if i = 0 then [0, 1] else if i = 1 then [2] else if i = 2 then [3] else [])"

lemma example_pool_simps [simp]:
  "objects (example_pool k h) = h" "capacity (example_pool k h) = 8"
  by (simp_all add: example_pool_def objects_def capacity_def fun_eq_iff)

lemma example_pool_live: "k \<le> 8 \<Longrightarrow> live (example_pool k h) = {..<k}"
  by (auto simp: example_pool_def live_def)

lemma example_pool_ok [wf_intros]: "k < 8 \<Longrightarrow> pool_ok (example_pool k h)"
  by (simp add: example_pool_def pool_ok_def)

lemma example_book_simps [simp]:
  "order_pool (book example_book) = example_pool 4 example_orders"
  "price_level_pool (book example_book) = example_pool 3 example_levels"
  "price_levels (book example_book) = [100 \<mapsto> Some 0, 105 \<mapsto> Some 1, 90 \<mapsto> Some 2]"
  "best side example_book = (if side = BUY then Some 0 else Some 1)"
  "ob_ticker_id (book example_book) = 0"
  "client_response_queue example_book = LFQueue_new 16 ClientResponse_default"
  "market_update_queue example_book = LFQueue_new 16 MarketUpdate_default"
  "next_trade_id example_book = 1" "ticks example_book = 0" "clock example_book = int"
  "orders example_book = example_orders" "levels example_book = example_levels"
  by (simp_all add: example_book_def best_def orders_def levels_def)

lemma example_listed: "listed example_book = {0, 1, 2}"
proof -
  have "i \<in> listed example_book" if "i \<in> {0, 1, 2}" for i
    using that by (auto simp: listed_def intro: exI [of _ 100] exI [of _ 105] exI [of _ 90])
  moreover have "listed example_book \<subseteq> {0, 1, 2}" by (auto simp: listed_def split: if_splits)
  ultimately show ?thesis by blast
qed

lemmas example_defs = example_orders_def example_levels_def example_order_def Order_new_def
  Order_default_def OrdersPriceLevel_new_def OrdersPriceLevel_default_def example_chains_def
  example_lists_def

lemma example_level_ok: "i \<in> {0, 1, 2} \<Longrightarrow> level_ok example_book example_lists i"
  by (auto simp: level_ok_def level_rep_def ring_def example_pool_live example_defs)

lemma example_ok: "book_ok example_book example_chains example_lists"
proof -
  have "infra example_book"
    by (simp add: infra_def example_pool_ok lf_ok_new)
  moreover have "levels_rep example_book example_lists"
    unfolding levels_rep_def example_listed
  proof (intro conjI allI impI)
    fix p i assume "price_levels (book example_book) p = Some (Some i)"
    then have "(p, i) \<in> {(100, 0), (105, 1), (90, 2)}" by (auto split: if_splits)
    then show "price_level (levels example_book i) = p" "level_ok example_book example_lists i"
      using example_level_ok [of i] by (auto simp: example_defs)
  qed (auto simp: example_lists_def)
  moreover have "side_rep example_book (example_chains b) example_lists b" for b
    by (cases b) (auto simp: side_rep_def example_listed example_defs side_of_def)
  moreover have "settled example_book example_lists"
    unfolding settled_def example_listed by (auto simp: example_defs)
  moreover have "live (lpool example_book) \<subseteq> listed example_book"
    by (auto simp: example_listed example_pool_live)
  ultimately show ?thesis by (simp add: book_ok_def book_rep_def)
qed

lemma example_room: "has_room example_book lim"
proof -
  have "prices example_book \<subseteq> {100, 105, 90}" by (auto simp: prices_def split: if_splits)
  then have "card (insert lim (prices example_book)) \<le> card {lim, 100, 105, 90}" by (intro card_mono) auto
  also have "\<dots> \<le> length [lim, 100, 105, 90]" using card_length [of "[lim, 100, 105, 90]"] by simp
  finally show ?thesis by (simp add: has_room_def example_pool_live)
qed

lemma example_resting:
  "resting example_book example_chains example_lists True =
     [Order_new 0 1 7 0 BUY 10 100, Order_new 0 2 7 0 BUY 5 100]"
  "resting example_book example_chains example_lists False = [Order_new 0 3 7 0 SELL 8 105]"
  by (simp_all add: resting_def payload_def example_defs)

lemma example_orphans: "orphans example_book example_chains = {2}"
  by (auto simp: orphans_def example_listed example_chains_def)

text \<open>The queues of a small new book.\<close>

abbreviation small_rq :: ClientResponseLFQueue where
  "small_rq \<equiv> LFQueue_new 16 ClientResponse_default"

abbreviation small_uq :: MarketUpdateLFQueue where
  "small_uq \<equiv> LFQueue_new 16 MarketUpdate_default"

lemma small_queues: "lf_ok small_rq" "lf_ok small_uq"
  by (intro wf_intros; simp)+

end
