(* ===== verification/Order_Book_Properties.thy ===== *)
theory Order_Book_Properties
  imports Order_Book_Example
begin

text \<open>
  The properties of the order book, each with an application to a concrete book.
\<close>

section \<open>Refinement\<close>

text \<open>
  C1. Adding an order implements price-time priority, as \<open>add_spec\<close> states it. On a book whose
  memory represents two sides, with a block left in the pools for the order and for the level of
  its price if this is new, \<open>OrderBook_add\<close> returns; the new state represents the sides,
  the trade counter and the clock position that \<open>add_spec\<close> computes, and exactly the specified
  messages were written to the two queues, in order.
\<close>

theorem add_refines:
  assumes "book_ok s c f" and "has_room s lim"
    and "add_spec (placeable s c (side = BUY) lim) (clock s) (taker s oid cid side lim) q
           (next_trade_id s) (ticks s) (resting s c f) = (bk', tid', n', evs)"
  shows "\<exists>s' c' f'. OrderBook_add oid cid side q lim s = ret s' \<and> book_ok s' c' f'
    \<and> resting s' c' f' = bk' \<and> next_trade_id s' = tid' \<and> ticks s' = n' \<and> sends s s' evs"
  using OrderBook_add_refines [OF assms(1,2) refl refl refl assms(3)] by blast

theorem add_refines_witness:
  "\<exists>s' c' f'. OrderBook_add 5 9 SELL 12 100 example_book = ret s' \<and> book_ok s' c' f'
     \<and> resting s' c' f' True = [Order_new 0 2 7 0 BUY 3 100] \<and> next_trade_id s' = 3"
proof -
  let ?t = "taker example_book 5 9 SELL 100"
  obtain evs where m: "match_spec int ?t 12 1 (Suc 0)
      (resting example_book example_chains example_lists True) = (0, 3, [Order_new 0 2 7 0 BUY 3 100], evs)"
    unfolding example_resting by (simp add: acceptable_def Order_new_def filled_def Let_def)
  have "add_spec (placeable example_book example_chains (SELL = BUY) 100) int ?t 12 1 0
      (resting example_book example_chains example_lists)
      = ((resting example_book example_chains example_lists)(True := [Order_new 0 2 7 0 BUY 3 100]), 3,
         Suc (length evs), accepted_event int ?t 0 12 # evs)"
    using m by (simp add: add_spec_def)
  then show ?thesis
    using add_refines [OF example_ok example_room, of SELL 100 5 9 12] by fastforce
qed

text \<open>
  C2. Cancelling implements the specification on every price whose level is on a chain (or that
  has no level): the first order with that identifier at that price leaves its side and is
  reported with its quantity, and any other request is rejected without a change to the sides.
\<close>

theorem cancel_refines:
  assumes "book_ok s c f" and "\<forall>i \<in> orphans s c. price_level (levels s i) \<noteq> lim"
    and "cancel_spec (clock s) (taker s oid cid side lim) (ticks s) (resting s c f) = (bk', evs)"
  shows "\<exists>s' c' f'. OrderBook_cancel cid oid side lim s = ret s' \<and> book_ok s' c' f'
    \<and> resting s' c' f' = bk' \<and> sends s s' evs \<and> next_trade_id s' = next_trade_id s"
  using OrderBook_cancel_refines [OF assms(1) refl assms(2), of oid cid side] assms(3)
  by (auto simp: cancelled_def)

theorem cancel_refines_witness:
  "\<exists>s' c' f'. OrderBook_cancel 7 1 BUY 100 example_book = ret s' \<and> book_ok s' c' f'
     \<and> resting s' c' f' True = [Order_new 0 2 7 0 BUY 5 100]
     \<and> resting s' c' f' False = [Order_new 0 3 7 0 SELL 8 105]"
proof -
  let ?t = "taker example_book 1 7 BUY 100" and ?bk = "resting example_book example_chains example_lists"
  have spec: "cancel_spec (clock example_book) ?t (ticks example_book) ?bk
      = (fst (cancel_spec int ?t 0 ?bk), snd (cancel_spec int ?t 0 ?bk))" by simp
  have "fst (cancel_spec int ?t 0 ?bk) True = [Order_new 0 2 7 0 BUY 5 100]"
    "fst (cancel_spec int ?t 0 ?bk) False = [Order_new 0 3 7 0 SELL 8 105]"
    by (simp_all add: cancel_spec_def example_resting is_order_def Order_new_def)
  moreover have "\<forall>i \<in> orphans example_book example_chains. price_level (levels example_book i) \<noteq> 100"
    by (simp add: example_orphans example_defs)
  from cancel_refines [OF example_ok this spec] obtain s' c' f' where
    "OrderBook_cancel 7 1 BUY 100 example_book = ret s'" "book_ok s' c' f'"
    "resting s' c' f' = fst (cancel_spec int ?t 0 ?bk)" by auto
  ultimately show ?thesis
    by (intro exI [of _ s'] exI [of _ c'] exI [of _ f']) simp
qed

section \<open>Histories\<close>

text \<open>
  C3. After any history of a new book (additions with prices of a set that the pool of levels can
  hold and otherwise arbitrary arguments, cancellations at prices whose level is on a chain), the
  pointers of the book represent two sides that are sorted by price and time, hold no empty
  order and do not cross. The history has at most as many additions as the pool of orders can
  serve, and any number of cancellations.
\<close>

theorem book_histories_sound:
  assumes "lf_ok rq" and "lf_ok uq" and "few_prices P" and "book_runs P (opened ticker rq uq tid clk n) k s"
    and "k < MAX_ORDER_IDS"
  shows "\<exists>c f. book_ok s c f \<and> live_book (resting s c f)"
  using sound_runs [OF assms(4) sound_opened [OF assms(1-3)] assms(5)] by (simp add: sound_def)

text \<open>
  C4. After such a history every further addition with a price of the set returns, as long as the
  pool of orders has a block for it, and so does every cancellation at a price that has no level
  or one that is on a chain: no assertion fires, no null pointer is read, no loop runs
  forever.
\<close>

theorem book_histories_progress:
  assumes "lf_ok rq" and "lf_ok uq" and "few_prices P" and "book_runs P (opened ticker rq uq tid clk n) k s"
    and "Suc k < MAX_ORDER_IDS"
  shows "(lim \<in> P \<longrightarrow> (\<exists>s'. OrderBook_add oid cid side q lim s = ret s'))
    \<and> (level_reachable s lim \<longrightarrow> (\<exists>s'. OrderBook_cancel cid oid side lim s = ret s'))"
proof -
  have "sound P k s" using sound_runs [OF assms(4) sound_opened [OF assms(1-3)]] assms(5) by simp
  then show ?thesis using add_sound [OF _ assms(5)] cancel_sound by blast
qed

lemma small_prices: "few_prices {100, 99, 90}"
  by (simp add: few_prices_def constants)

lemma small_runs: "\<exists>s. book_runs {100, 99, 90} (opened 0 small_rq small_uq 1 int 0) 1 s"
proof -
  let ?s = "opened 0 small_rq small_uq 1 int 0" and ?P = "{100, 99, 90} :: PriceT set"
  have "sound ?P 0 ?s" by (rule sound_opened [OF small_queues small_prices])
  then obtain s where "OrderBook_add 1 7 BUY 10 100 ?s = ret s"
    using add_sound [of ?P 0 ?s 100 1 7 BUY 10] by (auto simp: constants)
  moreover have "100 \<in> ?P" by simp
  ultimately have "book_runs ?P ?s (Suc 0) s" by (blast intro: book_runs.intros book_step.add)
  then show ?thesis by auto
qed

theorem book_histories_sound_witness:
  "\<exists>s. book_runs {100, 99, 90} (opened 0 small_rq small_uq 1 int 0) 1 s
     \<and> (\<exists>c f. book_ok s c f \<and> live_book (resting s c f))"
proof -
  obtain s where s: "book_runs {100, 99, 90} (opened 0 small_rq small_uq 1 int 0) 1 s" using small_runs by blast
  have "\<exists>c f. book_ok s c f \<and> live_book (resting s c f)"
    by (rule book_histories_sound [OF small_queues small_prices s]) (simp add: constants)
  with s show ?thesis by blast
qed

theorem book_histories_progress_witness:
  "\<exists>s. book_runs {100, 99, 90} (opened 0 small_rq small_uq 1 int 0) 1 s \<and> (\<exists>s'. OrderBook_add 2 7 SELL 4 90 s = ret s')"
proof -
  obtain s where s: "book_runs {100, 99, 90} (opened 0 small_rq small_uq 1 int 0) 1 s" using small_runs by blast
  have "\<exists>s'. OrderBook_add 2 7 SELL 4 90 s = ret s'"
    using book_histories_progress [OF small_queues small_prices s, of 90 2 7 SELL 4] by (simp add: constants)
  with s show ?thesis by blast
qed

text \<open>
  C5. Any list of additions to a new book that is shorter than the pool of orders (fewer than
  \<open>MAX_ORDER_IDS\<close> orders) and has fewer different prices than the pool of levels has blocks
  (\<open>MAX_PRICE_LEVELS\<close>) is accepted without a fault and leaves a sound book. With one order more
  the pool of orders can be exhausted, since one of its blocks is never handed out.
\<close>

theorem additions_never_fault:
  assumes "lf_ok rq" and "lf_ok uq" and "few_prices (order_prices os)" and "length os < MAX_ORDER_IDS"
  shows "\<exists>s'. add_all OrderBook_add os (opened ticker rq uq tid clk n) = ret s' \<and> sound (order_prices os) (length os) s'"
  using service.add_all_returns [OF sound_opened [OF assms(1-3)], of os ticker tid clk n] assms(4) by auto

theorem additions_never_fault_witness:
  "\<exists>s'. add_all OrderBook_add [(1, 7, BUY, 10, 100), (2, 7, BUY, 5, 99), (3, 8, SELL, 12, 99)]
      (opened 0 small_rq small_uq 1 int 0) = ret s' \<and> sound {100, 99} 3 s'"
  using additions_never_fault [OF small_queues,
      of "[(1, 7, BUY, 10, 100), (2, 7, BUY, 5, 99), (3, 8, SELL, 12, 99)]" 0 1 int 0]
  by (simp add: constants numeral_3_eq_3 order_prices_def few_prices_def)

section \<open>Matching\<close>

text \<open>
  C6. The matching loop ends and computes \<open>match_spec\<close>: it returns the unfilled quantity, leaves
  the specified rest of the other side, does not touch the own side, numbers the trades and
  sends the four messages of every trade.
\<close>

theorem matching_refines:
  assumes "book_ok s c f"
    and "match_spec (clock s) (taker s oid cid side lim) q (next_trade_id s) (ticks s)
           (resting s c f (side \<noteq> BUY)) = (q', tid', ms', evs)"
  shows "\<exists>s' c' f'. checkForMatch oid cid side q lim s = ret (q', s') \<and> book_ok s' c' f'
    \<and> resting s' c' f' (side \<noteq> BUY) = ms' \<and> resting s' c' f' (side = BUY) = resting s c f (side = BUY)
    \<and> next_trade_id s' = tid' \<and> emits s s' evs"
proof -
  from checkForMatch_rep [OF _ _ refl taker_def assms(2)] assms(1) obtain s' c' f' where
    "checkForMatch oid cid side q lim s = ret (q', s')" "book_rep s' c' f'" "settled s' f'"
    "traded s c f s' c' f' (side \<noteq> BUY)" "emits s s' evs" "next_trade_id s' = tid'"
    "resting s' c' f' (side \<noteq> BUY) = ms'"
    by (auto simp: book_ok_def)
  then show ?thesis
    by (intro exI [of _ s'] exI [of _ c'] exI [of _ f']) (simp add: book_ok_def traded_def)
qed

theorem matching_refines_witness:
  "\<exists>s' c' f'. checkForMatch 5 9 SELL 12 100 example_book = ret (0, s') \<and> book_ok s' c' f'
     \<and> resting s' c' f' True = [Order_new 0 2 7 0 BUY 3 100]"
proof -
  obtain evs where m: "match_spec (clock example_book) (taker example_book 5 9 SELL 100) 12
      (next_trade_id example_book) (ticks example_book)
      (resting example_book example_chains example_lists (SELL \<noteq> BUY))
      = (0, 3, [Order_new 0 2 7 0 BUY 3 100], evs)"
    by (simp add: example_resting acceptable_def Order_new_def filled_def Let_def)
  show ?thesis using matching_refines [OF example_ok m] by auto
qed

text \<open>
  C7. Matching neither creates nor loses quantity: what the incoming order loses is the volume of
  the trades reported, and the other side loses the same.
\<close>

theorem matching_conserves_quantity:
  assumes "book_ok s c f" and "checkForMatch oid cid side q lim s = ret (q', s')"
  shows "\<exists>c' f' evs. book_ok s' c' f' \<and> emits s s' evs
    \<and> unat q = unat q' + volume (trades evs)
    \<and> depth (resting s c f (side \<noteq> BUY)) = depth (resting s' c' f' (side \<noteq> BUY)) + volume (trades evs)"
proof -
  obtain q1 tid1 ms1 evs where m: "match_spec (clock s) (taker s oid cid side lim) q (next_trade_id s)
      (ticks s) (resting s c f (side \<noteq> BUY)) = (q1, tid1, ms1, evs)"
    by (metis prod_cases4)
  from checkForMatch_rep [OF _ _ refl taker_def m] assms obtain c' f' where
    "q1 = q'" "book_ok s' c' f'" "emits s s' evs" "resting s' c' f' (side \<noteq> BUY) = ms1"
    by (auto simp: book_ok_def)
  then show ?thesis
    using match_spec_conserves [OF m] by (intro exI [of _ c'] exI [of _ f'] exI [of _ evs]) simp
qed

text \<open>
  C8. Trades respect price-time priority and the limit: the trades of one incoming order are at the
  limit prices of the first orders of the other side, in their order, none worse than the
  order's own limit, and are numbered consecutively. The orders behind them are unchanged.
\<close>

theorem matching_respects_priority:
  assumes "book_ok s c f" and "checkForMatch oid cid side q lim s = ret (q', s')"
  shows "\<exists>c' f' evs k. book_ok s' c' f' \<and> emits s s' evs
    \<and> map mu_price (trades evs) = map o_limit_price (take (length (trades evs)) (resting s c f (side \<noteq> BUY)))
    \<and> (\<forall>u \<in> set (trades evs). acceptable side lim (mu_price u))
    \<and> map mu_trade_id (trades evs) = map (\<lambda>j. next_trade_id s + of_nat j) [0..<length (trades evs)]
    \<and> tl (resting s' c' f' (side \<noteq> BUY)) = tl (drop k (resting s c f (side \<noteq> BUY)))
    \<and> length (trades evs) \<in> {k, Suc k}"
proof -
  obtain q1 tid1 ms1 evs where m: "match_spec (clock s) (taker s oid cid side lim) q (next_trade_id s)
      (ticks s) (resting s c f (side \<noteq> BUY)) = (q1, tid1, ms1, evs)"
    by (metis prod_cases4)
  from checkForMatch_rep [OF _ _ refl taker_def m] assms obtain c' f' where
    "book_ok s' c' f'" "emits s s' evs" "resting s' c' f' (side \<noteq> BUY) = ms1"
    by (auto simp: book_ok_def)
  moreover obtain k where "tl ms1 = tl (drop k (resting s c f (side \<noteq> BUY)))" "length (trades evs) \<in> {k, Suc k}"
    "map mu_price (trades evs) = map o_limit_price (take (length (trades evs)) (resting s c f (side \<noteq> BUY)))"
    using match_spec_prefix [OF m] by blast
  moreover have "\<forall>u \<in> set (trades evs). acceptable side lim (mu_price u)"
    using match_spec_trades(3) [OF m] by simp
  ultimately show ?thesis using match_spec_trades(1) [OF m] by blast
qed

text \<open>
  C9. Matching is complete: if quantity is left over, no order of the other side can still trade
  at the limit.
\<close>

theorem matching_complete:
  assumes "book_ok s c f" and "checkForMatch oid cid side q lim s = ret (q', s')" and "q' \<noteq> 0"
  shows "\<exists>c' f'. book_ok s' c' f'
    \<and> (\<forall>x \<in> set (resting s' c' f' (side \<noteq> BUY)). \<not> acceptable side lim (o_limit_price x))"
proof -
  obtain q1 tid1 ms1 evs where m: "match_spec (clock s) (taker s oid cid side lim) q (next_trade_id s)
      (ticks s) (resting s c f (side \<noteq> BUY)) = (q1, tid1, ms1, evs)"
    by (metis prod_cases4)
  have rep: "book_rep s c f" and set: "settled s f" using assms(1) by (simp_all add: book_ok_def)
  from checkForMatch_rep [OF rep set refl taker_def m] assms obtain c' f' where
    "q1 = q'" "book_ok s' c' f'" "resting s' c' f' (side \<noteq> BUY) = ms1"
    by (auto simp: book_ok_def)
  then show ?thesis
    using match_spec_keeps(4) [OF m _ resting_priority [OF rep] resting_quantities [OF rep set]] assms(3)
    by (intro exI [of _ c'] exI [of _ f']) simp
qed

lemma example_matches:
  "\<exists>s'. checkForMatch 5 9 SELL 20 100 example_book = ret (5, s')"
proof -
  obtain evs where m: "match_spec (clock example_book) (taker example_book 5 9 SELL 100) 20
      (next_trade_id example_book) (ticks example_book)
      (resting example_book example_chains example_lists (SELL \<noteq> BUY)) = (5, 3, [], evs)"
    by (simp add: example_resting acceptable_def Order_new_def filled_def Let_def)
  from checkForMatch_rep [OF _ _ refl taker_def m] example_ok show ?thesis by (auto simp: book_ok_def)
qed

theorem matching_conserves_quantity_witness:
  "\<exists>s' c' f' evs. checkForMatch 5 9 SELL 20 100 example_book = ret (5, s') \<and> book_ok s' c' f'
     \<and> emits example_book s' evs \<and> volume (trades evs) = 15"
proof -
  obtain s' where m: "checkForMatch 5 9 SELL 20 100 example_book = ret (5, s')" using example_matches by blast
  from matching_conserves_quantity [OF example_ok m] obtain c' f' evs where
    "book_ok s' c' f'" "emits example_book s' evs" "unat (20 :: 32 word) = unat (5 :: 32 word) + volume (trades evs)"
    by blast
  with m show ?thesis by auto
qed

theorem matching_respects_priority_witness:
  "\<exists>s' evs. checkForMatch 5 9 SELL 20 100 example_book = ret (5, s') \<and> emits example_book s' evs
     \<and> (\<forall>u \<in> set (trades evs). 100 \<le> mu_price u)"
proof -
  obtain s' where m: "checkForMatch 5 9 SELL 20 100 example_book = ret (5, s')" using example_matches by blast
  from matching_respects_priority [OF example_ok m] obtain evs where
    "emits example_book s' evs" "\<forall>u \<in> set (trades evs). acceptable SELL 100 (mu_price u)" by blast
  with m show ?thesis by (auto simp: acceptable_def)
qed

theorem matching_complete_witness:
  "\<exists>s' c' f'. checkForMatch 5 9 SELL 20 100 example_book = ret (5, s') \<and> book_ok s' c' f'
     \<and> (\<forall>x \<in> set (resting s' c' f' True). o_limit_price x < 100)"
proof -
  obtain s' where m: "checkForMatch 5 9 SELL 20 100 example_book = ret (5, s')" using example_matches by blast
  have "(5 :: QuantityT) \<noteq> 0" by simp
  from matching_complete [OF example_ok m this] obtain c' f' where
    "book_ok s' c' f'" "\<forall>x \<in> set (resting s' c' f' True). \<not> acceptable SELL 100 (o_limit_price x)" by auto
  with m show ?thesis by (auto simp: acceptable_def not_le)
qed

section \<open>Orders outside the chains\<close>

lemma match_spec_idle:
  "\<forall>x \<in> set ms. \<not> acceptable (tk_side t) (tk_limit t) (o_limit_price x) \<Longrightarrow>
     match_spec clk t q tid n ms = (q, tid, ms, [])"
  by (cases ms) auto

text \<open>
  C10. An order that opens a level behind the best price of its side is accepted and announced to
  the market, but does not enter its side: both sides stay as they were, so the order cannot
  trade. (The new level is never linked to its predecessor.)
\<close>

theorem order_behind_best_is_hidden:
  assumes "book_ok s c f" and "has_room s lim" and "q \<noteq> 0" and "\<not> placeable s c (side = BUY) lim"
    and "\<forall>x \<in> set (resting s c f (side \<noteq> BUY)). \<not> acceptable side lim (o_limit_price x)"
  shows "\<exists>s' c' f'. OrderBook_add oid cid side q lim s = ret s' \<and> book_ok s' c' f'
    \<and> resting s' c' f' = resting s c f
    \<and> sends s s' [accepted_event (clock s) (taker s oid cid side lim) (ticks s) q,
         added_event (clock s) (taker s oid cid side lim) (ticks s + 2) q]"
proof -
  let ?t = "taker s oid cid side lim"
  have m: "match_spec (clock s) ?t q (next_trade_id s) (Suc (ticks s)) (resting s c f (\<not> (side = BUY)))
      = (q, next_trade_id s, resting s c f (\<not> (side = BUY)), [])"
    by (rule match_spec_idle) (use assms(5) in simp)
  have "add_spec (placeable s c (side = BUY) lim) (clock s) ?t q (next_trade_id s) (ticks s) (resting s c f)
      = (resting s c f, next_trade_id s, Suc (ticks s) + 2,
         [accepted_event (clock s) ?t (ticks s) q, added_event (clock s) ?t (ticks s + 2) q])"
    using add_spec_eq [where bk = "resting s c f" and b = "side = BUY" and n = "ticks s", OF m] assms(3,4)
    by (simp add: fun_upd_idem)
  from OrderBook_add_refines [OF assms(1,2) refl refl refl this] show ?thesis by blast
qed

theorem order_behind_best_is_hidden_witness:
  "\<exists>s' c' f'. OrderBook_add 5 9 BUY 12 95 example_book = ret s' \<and> book_ok s' c' f'
     \<and> resting s' c' f' = resting example_book example_chains example_lists"
proof -
  have "\<not> placeable example_book example_chains (BUY = BUY) 95"
    by (simp add: placeable_def goes_front_def better_def example_orphans example_defs)
  moreover have "\<forall>x \<in> set (resting example_book example_chains example_lists (BUY \<noteq> BUY)).
      \<not> acceptable BUY 95 (o_limit_price x)"
    by (simp add: example_resting acceptable_def Order_new_def)
  ultimately show ?thesis
    using order_behind_best_is_hidden [OF example_ok example_room, of 12 BUY 95 5 9] by auto
qed

text \<open>
  C16. Cancelling the only order of a level outside its nonempty chain reads through a null
  pointer: the walk for the predecessor of the level runs past the end of the chain.
\<close>

theorem cancel_off_chain_faults:
  assumes "book_ok s c f" and "i \<in> orphans s c" and "f i = [a]"
    and "l_side (levels s i) = BUY \<longleftrightarrow> b" and "c b \<noteq> []"
  shows "OrderBook_cancel cid (o_order_id (orders s a)) side (price_level (levels s i)) s
    = throw Null_Dereference"
  by (rule OrderBook_cancel_orphan [OF assms])

theorem cancel_off_chain_faults_witness:
  "OrderBook_cancel 7 4 BUY 90 example_book = throw Null_Dereference"
  using cancel_off_chain_faults [OF example_ok, of 2 3 True 7 BUY]
  by (simp add: example_orphans example_defs)

text \<open>
  A cancellation that names no order at its price, on or off the chains, changes nothing but
  the clock position and the response queue, which receives one rejection.
\<close>

theorem cancel_unknown_is_rejected:
  assumes "book_ok s c f"
    and "\<forall>i. price_levels (book s) lim = Some (Some i) \<longrightarrow> (\<forall>a \<in> set (f i). o_order_id (orders s a) \<noteq> oid)"
  shows "\<exists>s' c' f'. OrderBook_cancel cid oid side lim s = ret s' \<and> book_ok s' c' f'
    \<and> resting s' c' f' = resting s c f \<and> orphans s' c' = orphans s c
    \<and> sends s s' [Response (ClientResponse.make ResponseType_CANCEL_REJECTED (ob_ticker_id (book s)) cid oid
         Side_INVALID Quantity_INVALID Price_INVALID (clock s (ticks s)))]"
proof -
  let ?t = "taker s oid cid side lim"
  have rep: "book_rep s c f" using assms(1) by (simp add: book_ok_def)
  have "\<forall>x \<in> set (resting s c f d). \<not> is_order oid lim x" for d
    by (rule no_resting_hit [OF rep]) (use assms(2) in blast)
  then have spec: "cancel_spec (clock s) ?t (ticks s) (resting s c f) = (resting s c f,
      [Response (ClientResponse.make ResponseType_CANCEL_REJECTED (ob_ticker_id (book s)) cid oid
         Side_INVALID Quantity_INVALID Price_INVALID (clock s (ticks s)))])"
    using cancel_spec_reject [of "resting s c f" ?t] by simp
  have "cancelled s c f (cancel_spec (clock s) ?t (ticks s) (resting s c f)) (OrderBook_cancel cid oid side lim s)"
    using cancel_no_level [OF assms(1) refl] cancel_no_order [OF assms(1) refl] assms(2) by blast
  then show ?thesis unfolding spec cancelled_def by auto
qed

theorem cancel_unknown_is_rejected_witness:
  "\<exists>s' c' f'. OrderBook_cancel 7 99 BUY 90 example_book = ret s' \<and> book_ok s' c' f'
     \<and> resting s' c' f' = resting example_book example_chains example_lists"
proof -
  have "\<forall>i. price_levels (book example_book) 90 = Some (Some i) \<longrightarrow>
      (\<forall>a \<in> set (example_lists i). o_order_id (orders example_book a) \<noteq> 99)"
    by (simp add: example_defs)
  from cancel_unknown_is_rejected [OF example_ok this, of 7 BUY] show ?thesis by blast
qed

section \<open>Price levels, memory and messages\<close>

text \<open>
  Removing a level that is on its chain unlinks exactly that level, unregisters its price and
  gives its object back to the pool; orders, queues and the other levels' prices stay.
\<close>

theorem removePriceLevel_unlinks:
  assumes "book_rep s c f" and "c b = xs @ i # ys"
  shows "\<exists>s'. removePriceLevel i s = ret s' \<and> book_rep s' (c(b := xs @ ys)) f
    \<and> listed s' = listed s - {i} \<and> live (lpool s') = live (lpool s) - {i} \<and> outside_eq s s'
    \<and> (\<forall>k. price_level (levels s' k) = price_level (levels s k))"
  by (rule removePriceLevel_linked [OF assms])

theorem removePriceLevel_unlinks_witness:
  "\<exists>s'. removePriceLevel 1 example_book = ret s'
     \<and> book_rep s' (example_chains(False := [])) example_lists \<and> listed s' = {0, 2}"
proof -
  have rep: "book_rep example_book example_chains example_lists"
    using example_ok by (simp add: book_ok_def)
  have "example_chains False = [] @ 1 # []" by (simp add: example_chains_def)
  from removePriceLevel_unlinks [OF rep this] show ?thesis by (auto simp: example_listed)
qed

text \<open>
  Inserting a level for an unregistered price always succeeds while the pool has room. The
  level goes to the front of its chain when its price is the best of its side; otherwise the
  chain stays as it was and the new level is registered outside it.
\<close>

theorem insertPriceLevel_places:
  assumes "book_rep s c f" and "\<And>k. price_levels (book s) p \<noteq> Some (Some k)"
    and "Suc (card (live (lpool s))) < capacity (lpool s)" and "b = (side = BUY)"
  shows "\<exists>i s'. insertPriceLevel p side p s = ret (i, s') \<and> i \<notin> live (lpool s)
    \<and> book_rep s' (if goes_front s (c b) b p then c(b := i # c b) else c) (f(i := []))
    \<and> listed s' = insert i (listed s) \<and> price_level (levels s' i) = p \<and> outside_eq s s'"
  using insertPriceLevel_rep [OF assms refl] by blast

theorem insertPriceLevel_places_witness:
  "\<exists>i s'. insertPriceLevel 101 BUY 101 example_book = ret (i, s')
     \<and> book_rep s' (example_chains(True := [i, 0])) (example_lists(i := []))"
proof -
  have rep: "book_rep example_book example_chains example_lists"
    using example_ok by (simp add: book_ok_def)
  have "price_levels (book example_book) 101 \<noteq> Some (Some k)" for k by simp
  from insertPriceLevel_places [OF rep this, of True BUY] show ?thesis
    by (auto simp: example_pool_live goes_front_def better_def example_defs)
qed

text \<open>
  The messages of an addition reach the readers: when they fit into the two queues, the queues
  hold what they held before followed by the responses and the market updates of the
  operation, in order.
\<close>

theorem add_messages_delivered:
  assumes "book_ok s c f" and "has_room s lim"
    and "add_spec (placeable s c (side = BUY) lim) (clock s) (taker s oid cid side lim) q
           (next_trade_id s) (ticks s) (resting s c f) = (bk', tid', n', evs)"
    and "lf_length (client_response_queue s) + length (responses evs) \<le> room (client_response_queue s)"
    and "lf_length (market_update_queue s) + length (updates evs) \<le> room (market_update_queue s)"
  shows "\<exists>s'. OrderBook_add oid cid side q lim s = ret s'
    \<and> contents (client_response_queue s') = contents (client_response_queue s) @ responses evs
    \<and> contents (market_update_queue s') = contents (market_update_queue s) @ updates evs"
proof -
  from OrderBook_add_refines [OF assms(1,2) refl refl refl assms(3)] obtain s' where
    "OrderBook_add oid cid side q lim s = ret s'" "sends s s' evs" by blast
  moreover have "lf_ok (client_response_queue s)" "lf_ok (market_update_queue s)"
    using infra_queues assms(1) by (auto simp: book_ok_def)
  ultimately show ?thesis using assms(4,5) by (auto simp: sends_def contents_fold_push)
qed

theorem add_messages_delivered_witness:
  "\<exists>s'. OrderBook_add 5 9 BUY 12 95 example_book = ret s'
     \<and> contents (client_response_queue s') = [ClientResponse.make ResponseType_ACCEPTED 0 9 5 BUY 12 95 0]
     \<and> contents (market_update_queue s') = [MarketUpdate.make UpdateType_ADD 0 5 TradeId_INVALID BUY 12 95 2]"
proof -
  let ?t = "taker example_book 5 9 BUY 95" and ?bk = "resting example_book example_chains example_lists"
  have m: "match_spec int ?t 12 1 (Suc 0) (?bk (\<not> True)) = (12, 1, ?bk (\<not> True), [])"
    by (rule match_spec_idle) (simp add: example_resting acceptable_def Order_new_def)
  let ?r = "add_spec (placeable example_book example_chains (BUY = BUY) 95)
      (clock example_book) ?t 12 (next_trade_id example_book) (ticks example_book) ?bk"
  have "snd (snd (snd ?r)) = [accepted_event int ?t 0 12, added_event int ?t (Suc (Suc 0)) 12]"
    using add_spec_eq [where bk = ?bk and b = True and n = 0, OF m] by simp
  then have spec: "?r = (fst ?r, fst (snd ?r), fst (snd (snd ?r)),
      [accepted_event int ?t 0 12, added_event int ?t (Suc (Suc 0)) 12])"
    by (metis prod.collapse)
  from add_messages_delivered [OF example_ok example_room spec] show ?thesis
    by (simp add: accepted_event_def added_event_def room_def)
qed

text \<open>
  A successful cancellation takes the order out of the book but never gives its object back:
  the pool of orders has as many blocks in use as before. Orders are a resource that only
  shrinks over the life of a book.
\<close>

theorem cancelled_orders_are_not_released:
  assumes "book_ok s c f" and "\<forall>i \<in> orphans s c. price_level (levels s i) \<noteq> lim"
  shows "\<exists>s'. OrderBook_cancel cid oid side lim s = ret s' \<and> live (opool s') = live (opool s)"
  using OrderBook_cancel_refines [OF assms(1) refl assms(2), of oid cid side] by (auto simp: cancelled_def)

theorem cancelled_orders_are_not_released_witness:
  "\<exists>s'. OrderBook_cancel 7 3 SELL 105 example_book = ret s' \<and> live (opool s') = {..<4}"
  using cancelled_orders_are_not_released [OF example_ok, of 105 7 3 SELL]
  by (simp add: example_orphans example_defs example_pool_live)

end
