(* ===== verification/Fifo_Sequencer.thy ===== *)
theory Fifo_Sequencer
  imports Messages "HOL-Library.Multiset"
begin

text \<open>
  The sequencer of \<open>include/communication/fifo_sequencer.h\<close>: requests with the time they were
  received are collected in an array of 1024 slots and published to the request queue in the
  order of these times. \<open>std::sort\<close> promises a sorted permutation and nothing about equal
  elements; it is a parameter \<open>srt\<close> of the model, and the locale \<open>std_sort\<close> holds the promise.
\<close>

section \<open>State and operations\<close>

definition MAX_PENDING_REQUESTS :: nat where "MAX_PENDING_REQUESTS = 1024"

record ReceiveTimeClientRequest =
  receive_timestamp :: NsTimestampT
  request :: ClientRequest

record FifoSequencer =
  sq_requests :: ClientRequestLFQueue
  pending_requests :: "ReceiveTimeClientRequest vec"
  pending_requests_index :: nat

definition FifoSequencer_new :: "ClientRequestLFQueue \<Rightarrow> FifoSequencer" where
  "FifoSequencer_new q =
     \<lparr>sq_requests = q,
      pending_requests = vec_new MAX_PENDING_REQUESTS
        \<lparr>receive_timestamp = 0, request = ClientRequest_default\<rparr>,
      pending_requests_index = 0\<rparr>"

text \<open>\<open>std::array::at\<close> checks its index.\<close>

definition addRequest :: "ClientRequest \<Rightarrow> NsTimestampT \<Rightarrow> FifoSequencer \<Rightarrow> FifoSequencer outcome" where
  "addRequest r timestamp sq =
     obind (if pending_requests_index sq = MAX_PENDING_REQUESTS
            then FATAL ''Too many pending requests.'' else ret ())
       (\<lambda>_. let i = pending_requests_index sq; sq1 = sq\<lparr>pending_requests_index := Suc i\<rparr>
            in if i < size_of (pending_requests sq1)
               then ret (sq1\<lparr>pending_requests := vec_upd i
                      \<lparr>receive_timestamp = timestamp, request = r\<rparr> (pending_requests sq1)\<rparr>)
               else throw Out_Of_Range)"

text \<open>Sorting the first \<open>n\<close> elements of an array.\<close>

definition sort_prefix :: "('a list \<Rightarrow> 'a list) \<Rightarrow> nat \<Rightarrow> 'a vec \<Rightarrow> 'a vec" where
  "sort_prefix srt n v =
     (let ys = srt (map (elem v) [0..<n])
      in v\<lparr>elem := (\<lambda>i. if i < n then ys ! i else elem v i)\<rparr>)"

function publish ::
  "nat \<Rightarrow> nat \<Rightarrow> ReceiveTimeClientRequest vec \<Rightarrow> ClientRequestLFQueue \<Rightarrow> ClientRequestLFQueue outcome" where
  "publish i n v q =
     (if i < n then obind (push (request (elem v i)) q) (publish (Suc i) n v) else ret q)"
  by pat_completeness auto
termination by (relation "measure (\<lambda>(i, n, v, q). n - i)") auto

declare publish.simps [simp del]

definition sequenceAndPublish ::
  "(ReceiveTimeClientRequest list \<Rightarrow> ReceiveTimeClientRequest list) \<Rightarrow> FifoSequencer \<Rightarrow> FifoSequencer outcome" where
  "sequenceAndPublish srt sq =
     (let n = pending_requests_index sq; v = sort_prefix srt n (pending_requests sq)
      in obind (publish 0 n v (sq_requests sq)) (\<lambda>q.
           ret (sq\<lparr>sq_requests := q, pending_requests := v, pending_requests_index := 0\<rparr>)))"

section \<open>Pending requests\<close>

definition pending :: "FifoSequencer \<Rightarrow> ReceiveTimeClientRequest list" where
  "pending sq = map (elem (pending_requests sq)) [0..<pending_requests_index sq]"

definition sq_ok :: "FifoSequencer \<Rightarrow> bool" where
  "sq_ok sq \<longleftrightarrow> lf_ok (sq_requests sq) \<and> size_of (pending_requests sq) = MAX_PENDING_REQUESTS
     \<and> pending_requests_index sq \<le> MAX_PENDING_REQUESTS"

lemma length_pending [simp]: "length (pending sq) = pending_requests_index sq"
  by (simp add: pending_def)

lemma sq_ok_new: "lf_ok q \<Longrightarrow> sq_ok (FifoSequencer_new q) \<and> pending (FifoSequencer_new q) = []"
  by (simp add: sq_ok_def pending_def FifoSequencer_new_def)

lemma addRequest_room:
  assumes "sq_ok sq" and "length (pending sq) < MAX_PENDING_REQUESTS"
  shows "\<exists>sq'. addRequest r ts sq = ret sq' \<and> sq_ok sq' \<and> sq_requests sq' = sq_requests sq
    \<and> pending sq' = pending sq @ [\<lparr>receive_timestamp = ts, request = r\<rparr>]"
  using assms by (simp add: addRequest_def sq_ok_def pending_def Let_def)

lemma addRequest_full:
  "length (pending sq) = MAX_PENDING_REQUESTS \<Longrightarrow>
     addRequest r ts sq = throw (Assertion ''Too many pending requests.'')"
  by (simp add: addRequest_def FATAL_def)

section \<open>Publishing\<close>

lemma publish_fold:
  "lf_ok q \<Longrightarrow> publish i n v q = ret (fold push_slot (map (\<lambda>j. request (elem v j)) [i..<n]) q)"
proof (induction i n v q rule: publish.induct)
  case (1 i n v q)
  show ?case
  proof (cases "i < n")
    case True
    then have "publish (Suc i) n v (push_slot (request (elem v i)) q)
        = ret (fold push_slot (map (\<lambda>j. request (elem v j)) [Suc i..<n]) (push_slot (request (elem v i)) q))"
      using 1 by simp
    then show ?thesis using True 1(2) by (subst publish.simps) (simp add: upt_conv_Cons)
  next
    case False
    then show ?thesis by (simp add: publish.simps)
  qed
qed

lemma sort_prefix_list:
  "length (srt (map (elem v) [0..<n])) = n \<Longrightarrow>
     map (elem (sort_prefix srt n v)) [0..<n] = srt (map (elem v) [0..<n])"
  by (rule nth_equalityI) (simp_all add: sort_prefix_def Let_def)

locale std_sort =
  fixes srt :: "ReceiveTimeClientRequest list \<Rightarrow> ReceiveTimeClientRequest list"
  assumes permutes: "mset (srt xs) = mset xs"
    and ordered: "sorted (map receive_timestamp (srt xs))"
begin

lemma length_srt: "length (srt xs) = length xs"
  using permutes by (metis size_mset)

lemma publishes:
  assumes "sq_ok sq" and "lf_length (sq_requests sq) + length (pending sq) \<le> room (sq_requests sq)"
  shows "\<exists>sq'. sequenceAndPublish srt sq = ret sq' \<and> sq_ok sq' \<and> pending sq' = []
    \<and> contents (sq_requests sq') = contents (sq_requests sq) @ map request (srt (pending sq))"
proof -
  let ?n = "pending_requests_index sq" and ?v = "pending_requests sq"
  let ?rs = "map (\<lambda>j. request (elem (sort_prefix srt ?n ?v) j)) [0..<?n]"
  have q: "lf_ok (sq_requests sq)" using assms(1) by (simp add: sq_ok_def)
  have "?rs = map request (map (elem (sort_prefix srt ?n ?v)) [0..<?n])" by simp
  also have "\<dots> = map request (srt (pending sq))"
    by (subst sort_prefix_list) (simp_all add: pending_def length_srt)
  finally have rs: "?rs = map request (srt (pending sq))" .
  have "contents (fold push_slot ?rs (sq_requests sq)) = contents (sq_requests sq) @ ?rs"
    using assms(2) by (intro contents_fold_push [OF q]) simp
  then show ?thesis
    using assms(1) q rs by (simp add: sequenceAndPublish_def publish_fold sq_ok_def pending_def
        sort_prefix_def Let_def)
qed

text \<open>Without equal times every implementation publishes the same order.\<close>

lemma srt_unique:
  assumes "distinct (map receive_timestamp xs)"
  shows "srt xs = sort_key receive_timestamp xs"
proof (rule sym, rule properties_for_sort_key)
  show "mset (srt xs) = mset xs" by (rule permutes)
  show "sorted (map receive_timestamp (srt xs))" by (rule ordered)
  fix k assume k: "k \<in> set (srt xs)"
  have sets: "set (srt xs) = set xs" using permutes by (metis set_mset_mset)
  have d: "distinct (map receive_timestamp (srt xs))"
    using assms permutes by (metis distinct_map mset_eq_imp_distinct_iff sets)
  have one: "filter (\<lambda>x. receive_timestamp k = receive_timestamp x) ys = [k]"
    if "distinct (map receive_timestamp ys)" "k \<in> set ys" for ys
    using that by (induction ys) (auto simp: filter_empty_conv image_iff)
  show "filter (\<lambda>x. receive_timestamp k = receive_timestamp x) (srt xs)
      = filter (\<lambda>x. receive_timestamp k = receive_timestamp x) xs"
    using one [OF d k] one [OF assms] k sets by simp
qed

end

text \<open>Two implementations that keep the promise: equal times stay in order, or are reversed.\<close>

definition stable_sort :: "ReceiveTimeClientRequest list \<Rightarrow> ReceiveTimeClientRequest list" where
  "stable_sort xs = sort_key receive_timestamp xs"

definition unstable_sort :: "ReceiveTimeClientRequest list \<Rightarrow> ReceiveTimeClientRequest list" where
  "unstable_sort xs = sort_key receive_timestamp (rev xs)"

interpretation stable: std_sort stable_sort
  by unfold_locales (simp_all add: stable_sort_def)

interpretation unstable: std_sort unstable_sort
  by unfold_locales (simp_all add: unstable_sort_def)

section \<open>Properties\<close>

lemma std_sortI:
  "(\<And>xs. mset (srt xs) = mset xs) \<Longrightarrow> (\<And>xs. sorted (map receive_timestamp (srt xs))) \<Longrightarrow> std_sort srt"
  by (simp add: std_sort_def)

text \<open>
  C25. Publishing puts every pending request into the queue exactly once, behind what the queue held,
  in the order of the receive times, and empties the array. It holds for every sort that
  returns a sorted permutation, and whenever the queue has room for the pending requests.
\<close>

theorem sequencer_publishes_sorted:
  assumes "\<And>xs. mset (srt xs) = mset xs" and "\<And>xs. sorted (map receive_timestamp (srt xs))"
    and "sq_ok sq" and "lf_length (sq_requests sq) + length (pending sq) \<le> room (sq_requests sq)"
  shows "\<exists>sq' ps. sequenceAndPublish srt sq = ret sq' \<and> sq_ok sq' \<and> pending sq' = []
    \<and> mset ps = mset (pending sq) \<and> sorted (map receive_timestamp ps)
    \<and> contents (sq_requests sq') = contents (sq_requests sq) @ map request ps"
  using std_sort.publishes [OF std_sortI [OF assms(1,2)] assms(3,4)] assms(1,2) by blast

text \<open>
  When no two pending requests have the same receive time, the published order does not depend
  on how the sort is implemented.
\<close>

theorem sequencer_order_unique:
  assumes "\<And>xs. mset (srt xs) = mset xs" and "\<And>xs. sorted (map receive_timestamp (srt xs))"
    and "sq_ok sq" and "lf_length (sq_requests sq) + length (pending sq) \<le> room (sq_requests sq)"
    and "distinct (map receive_timestamp (pending sq))"
  shows "\<exists>sq'. sequenceAndPublish srt sq = ret sq'
    \<and> contents (sq_requests sq') = contents (sq_requests sq) @ map request (sort_key receive_timestamp (pending sq))"
  using std_sort.publishes [OF std_sortI [OF assms(1,2)] assms(3,4)]
    std_sort.srt_unique [OF std_sortI [OF assms(1,2)] assms(5)] by auto

text \<open>
  Requests are collected in arrival order until the array of 1024 slots is full; the next one
  stops the process.
\<close>

theorem sequencer_collects:
  assumes "sq_ok sq"
  shows "(length (pending sq) < MAX_PENDING_REQUESTS \<longrightarrow>
      (\<exists>sq'. addRequest r ts sq = ret sq' \<and> sq_ok sq' \<and> sq_requests sq' = sq_requests sq
         \<and> pending sq' = pending sq @ [\<lparr>receive_timestamp = ts, request = r\<rparr>]))
    \<and> (length (pending sq) = MAX_PENDING_REQUESTS \<longrightarrow>
      addRequest r ts sq = throw (Assertion ''Too many pending requests.''))"
  using addRequest_room [OF assms] addRequest_full by blast

definition two_pending :: FifoSequencer where
  "two_pending =
     \<lparr>sq_requests = LFQueue_new 8 ClientRequest_default,
      pending_requests = vec_upd 1 \<lparr>receive_timestamp = 3, request = ClientRequest_default\<lparr>rq_order_id := 2\<rparr>\<rparr>
        (vec_upd 0 \<lparr>receive_timestamp = 5, request = ClientRequest_default\<lparr>rq_order_id := 1\<rparr>\<rparr>
          (vec_new MAX_PENDING_REQUESTS \<lparr>receive_timestamp = 0, request = ClientRequest_default\<rparr>)),
      pending_requests_index = 2\<rparr>"

lemma two_pending_facts:
  "sq_ok two_pending"
  "pending two_pending = [\<lparr>receive_timestamp = 5, request = ClientRequest_default\<lparr>rq_order_id := 1\<rparr>\<rparr>,
     \<lparr>receive_timestamp = 3, request = ClientRequest_default\<lparr>rq_order_id := 2\<rparr>\<rparr>]"
  "lf_length (sq_requests two_pending) + length (pending two_pending) \<le> room (sq_requests two_pending)"
  "contents (sq_requests two_pending) = []"
  by (simp_all add: two_pending_def sq_ok_def pending_def lf_ok_new MAX_PENDING_REQUESTS_def upt_rec)

theorem sequencer_publishes_sorted_witness:
  "\<exists>sq'. sequenceAndPublish unstable_sort two_pending = ret sq' \<and> pending sq' = []"
  using sequencer_publishes_sorted [OF unstable.permutes unstable.ordered two_pending_facts(1,3)] by blast

theorem sequencer_order_unique_witness:
  "\<exists>sq'. sequenceAndPublish unstable_sort two_pending = ret sq'
     \<and> map rq_order_id (contents (sq_requests sq')) = [2, 1]"
proof -
  have "distinct (map receive_timestamp (pending two_pending))" by (simp add: two_pending_facts)
  from sequencer_order_unique [OF unstable.permutes unstable.ordered two_pending_facts(1,3) this]
  show ?thesis by (auto simp: two_pending_facts)
qed

theorem sequencer_collects_witness:
  "\<exists>sq'. addRequest ClientRequest_default 9 (FifoSequencer_new (LFQueue_new 8 ClientRequest_default)) = ret sq'
     \<and> length (pending sq') = 1"
proof -
  have "lf_ok (LFQueue_new 8 ClientRequest_default)" by (rule lf_ok_new) simp
  from sq_ok_new [OF this] sequencer_collects [of "FifoSequencer_new (LFQueue_new 8 ClientRequest_default)"
      ClientRequest_default 9]
  show ?thesis by (auto simp: MAX_PENDING_REQUESTS_def simp del: length_pending)
qed

text \<open>
  With equal receive times the published order does depend on the sort: both instances return a
  sorted permutation, yet publish two requests received at the same time in opposite orders.
\<close>

theorem sequencer_ties_unspecified:
  "\<exists>sq sq1 sq2. sq_ok sq \<and> sequenceAndPublish stable_sort sq = ret sq1 \<and> sequenceAndPublish unstable_sort sq = ret sq2
     \<and> map rq_order_id (contents (sq_requests sq1)) = [1, 2]
     \<and> map rq_order_id (contents (sq_requests sq2)) = [2, 1]"
proof -
  let ?a = "\<lparr>receive_timestamp = 5, request = ClientRequest_default\<lparr>rq_order_id := 1\<rparr>\<rparr>"
  let ?b = "\<lparr>receive_timestamp = 5, request = ClientRequest_default\<lparr>rq_order_id := 2\<rparr>\<rparr>"
  let ?sq = "two_pending\<lparr>pending_requests := vec_upd 1 ?b (pending_requests two_pending)\<rparr>"
  have p: "pending ?sq = [?a, ?b]" by (simp add: two_pending_def pending_def upt_rec)
  have ok: "sq_ok ?sq" using two_pending_facts(1) by (simp add: sq_ok_def)
  have q: "contents (sq_requests ?sq) = []" "lf_length (sq_requests ?sq) + length (pending ?sq) \<le> room (sq_requests ?sq)"
    using two_pending_facts(3) by (simp_all add: two_pending_def)
  from stable.publishes [OF ok q(2)] unstable.publishes [OF ok q(2)] show ?thesis
    using ok unfolding p q(1) by (auto simp: stable_sort_def unstable_sort_def)
qed

end
