(* ===== verification/Exchange_Model.thy ===== *)
theory Exchange_Model
  imports Order_Book_Run "HOL-Library.AList"
begin

text \<open>
  The exchange of \<open>include/cppexchange/cppexchange.h\<close>: one book per ticker, the identifiers it
  hands out, and the loop that takes requests from a queue and passes them to the books. The
  unordered map of the books is an association list in which \<open>None\<close> is a null pointer; a book
  is reached through the map only, so it is stored in place. Construction, the loop body and
  the operations are functions; the thread of the exchange is one that takes its next step.
\<close>

section \<open>State and operations\<close>

text \<open>The member \<open>run_thread\<close>: no thread, or one at the test of the loop, in its body or at its end.\<close>

datatype run_point = No_Thread | Run_Test | Run_Body | Run_Done

record Exchange =
  running :: bool
  run_thread :: run_point
  next_order_id :: OrderIdT
  ex_next_trade_id :: TradeIdT
  order_books_map :: "(TickerIdT \<times> OrderBook option) list"
  next_request :: ptr
  ex_request_queue :: ClientRequestLFQueue
  ex_response_queue :: ClientResponseLFQueue
  ex_update_queue :: MarketUpdateLFQueue
  ex_clock :: "nat \<Rightarrow> NsTimestampT"
  ex_ticks :: nat

text \<open>The part of the exchange an operation of the book \<open>ob\<close> works on, and the way back.\<close>

definition book_state :: "Exchange \<Rightarrow> OrderBook \<Rightarrow> BookState" where
  "book_state ex ob =
     \<lparr>book = ob, client_response_queue = ex_response_queue ex,
      market_update_queue = ex_update_queue ex, next_trade_id = ex_next_trade_id ex,
      clock = ex_clock ex, ticks = ex_ticks ex\<rparr>"

definition store_book :: "TickerIdT \<Rightarrow> BookState \<Rightarrow> Exchange \<Rightarrow> Exchange" where
  "store_book ticker s ex =
     ex\<lparr>order_books_map := AList.update ticker (Some (book s)) (order_books_map ex),
        ex_response_queue := client_response_queue s, ex_update_queue := market_update_queue s,
        ex_next_trade_id := next_trade_id s, ex_ticks := ticks s\<rparr>"

text \<open>\<open>order_books_map[ticker_id]\<close> stores a null pointer under an unknown ticker.\<close>

definition getOrderBook :: "TickerIdT \<Rightarrow> Exchange \<Rightarrow> OrderBook option \<times> Exchange" where
  "getOrderBook ticker_id ex =
     (case map_of (order_books_map ex) ticker_id of
        Some p \<Rightarrow> (p, ex)
      | None \<Rightarrow> (None, ex\<lparr>order_books_map := AList.update ticker_id None (order_books_map ex)\<rparr>))"

definition book_deref :: "OrderBook option \<Rightarrow> OrderBook outcome" where
  "book_deref p = (case p of None \<Rightarrow> throw Null_Dereference | Some ob \<Rightarrow> ret ob)"

definition getNextOrderId :: "Exchange \<Rightarrow> OrderIdT \<times> Exchange" where
  "getNextOrderId ex = (next_order_id ex, ex\<lparr>next_order_id := next_order_id ex + 1\<rparr>)"

definition addTicker :: "TickerIdT \<Rightarrow> Exchange \<Rightarrow> Exchange outcome" where
  "addTicker ticker_id ex =
     obind (ASSERT (length (order_books_map ex) \<noteq> MAX_TICKERS) ''Max tickers count reached'') (\<lambda>_.
       ret (if map_of (order_books_map ex) ticker_id = None
            then ex\<lparr>order_books_map :=
                   AList.update ticker_id (Some (OrderBook_new ticker_id)) (order_books_map ex)\<rparr>
            else ex))"

definition addOrder ::
  "TickerIdT \<Rightarrow> ClientIdT \<Rightarrow> OrderSide \<Rightarrow> QuantityT \<Rightarrow> PriceT \<Rightarrow> Exchange \<Rightarrow> Exchange outcome" where
  "addOrder ticker_id client_id side quantity limit_price ex =
     (let (order_book, ex1) = getOrderBook ticker_id ex;
          (order_id, ex2) = getNextOrderId ex1
      in obind (book_deref order_book) (\<lambda>ob.
         obind (OrderBook_add order_id client_id side quantity limit_price (book_state ex2 ob))
           (\<lambda>s. ret (store_book ticker_id s ex2))))"

definition cancelOrder ::
  "TickerIdT \<Rightarrow> ClientIdT \<Rightarrow> OrderIdT \<Rightarrow> OrderSide \<Rightarrow> PriceT \<Rightarrow> Exchange \<Rightarrow> Exchange outcome" where
  "cancelOrder ticker_id client_id order_id side limit_price ex =
     (let (order_book, ex1) = getOrderBook ticker_id ex
      in obind (book_deref order_book) (\<lambda>ob.
         obind (OrderBook_cancel client_id order_id side limit_price (book_state ex1 ob))
           (\<lambda>s. ret (store_book ticker_id s ex1))))"

definition processRequest :: "Exchange \<Rightarrow> Exchange outcome" where
  "processRequest ex =
     obind (deref (next_request ex)) (\<lambda>i.
       let r = slot (ex_request_queue ex) i in
       case rq_type r of
         RequestType_INVALID \<Rightarrow> ret ex
       | RequestType_ADD \<Rightarrow>
           addOrder (rq_ticker_id r) (rq_client_id r) (rq_side r) (rq_quantity r)
             (rq_limit_price r) ex
       | RequestType_CANCEL \<Rightarrow>
           cancelOrder (rq_ticker_id r) (rq_client_id r) (rq_order_id r) (rq_side r)
             (rq_limit_price r) ex)"

text \<open>The body of the loop in \<open>run\<close>.\<close>

definition run_body :: "Exchange \<Rightarrow> Exchange outcome" where
  "run_body ex =
     (let (p, q) = pop (ex_request_queue ex);
          ex1 = ex\<lparr>next_request := p, ex_request_queue := q\<rparr>
      in if p \<noteq> None then processRequest ex1 else ret ex1)"

primrec addTickers :: "TickerIdT list \<Rightarrow> Exchange \<Rightarrow> Exchange outcome" where
  "addTickers [] ex = ret ex"
| "addTickers (t # ts) ex = obind (addTicker t ex) (addTickers ts)"

text \<open>
  The constructor. \<open>next_request\<close> has no initialiser in the source and is assigned before it is
  first read; \<open>clk\<close> and \<open>n\<close> are the system clock.
\<close>

definition Exchange_new ::
  "ClientRequestLFQueue \<Rightarrow> ClientResponseLFQueue \<Rightarrow> MarketUpdateLFQueue \<Rightarrow> (nat \<Rightarrow> NsTimestampT) \<Rightarrow> nat
    \<Rightarrow> TickerIdT list \<Rightarrow> Exchange outcome" where
  "Exchange_new rq rsq muq clk n ticker_ids =
     addTickers ticker_ids
       \<lparr>running = False, run_thread = No_Thread, next_order_id = 1, ex_next_trade_id = 1, order_books_map = [],
        next_request = None, ex_request_queue = rq, ex_response_queue = rsq,
        ex_update_queue = muq, ex_clock = clk, ex_ticks = n\<rparr>"

text \<open>A step of the thread: the test of \<open>while (running)\<close>, or the body.\<close>

definition run_step :: "Exchange \<Rightarrow> Exchange outcome" where
  "run_step ex =
     (case run_thread ex of
        Run_Test \<Rightarrow> ret (ex\<lparr>run_thread := if running ex then Run_Body else Run_Done\<rparr>)
      | Run_Body \<Rightarrow> obind (run_body ex) (\<lambda>ex1. ret (ex1\<lparr>run_thread := Run_Test\<rparr>))
      | _ \<Rightarrow> ret ex)"

text \<open>
  Assigning to a \<open>std::thread\<close> that has a thread ends the program. \<open>stop\<close> writes the flag and then
  waits: \<open>join\<close> fails without a thread and otherwise comes back when the thread has ended, which
  \<open>join_run_thread\<close> tells.
\<close>

definition Exchange_start :: "Exchange \<Rightarrow> Exchange outcome" where
  "Exchange_start ex =
     (let ex1 = ex\<lparr>running := True\<rparr>
      in if run_thread ex1 = No_Thread then ret (ex1\<lparr>run_thread := Run_Test\<rparr>) else throw (Uncaught ''terminate''))"

definition Exchange_stop :: "Exchange \<Rightarrow> Exchange" where
  "Exchange_stop ex = ex\<lparr>running := False\<rparr>"

definition join_run_thread :: "Exchange \<Rightarrow> (bool \<times> Exchange) outcome" where
  "join_run_thread ex =
     (case run_thread ex of
        No_Thread \<Rightarrow> throw (Uncaught ''system_error'')
      | Run_Done \<Rightarrow> ret (True, ex\<lparr>run_thread := No_Thread\<rparr>)
      | _ \<Rightarrow> ret (False, ex))"

definition submit :: "ClientRequest \<Rightarrow> Exchange \<Rightarrow> Exchange outcome" where
  "submit r ex = obind (push r (ex_request_queue ex)) (\<lambda>q. ret (ex\<lparr>ex_request_queue := q\<rparr>))"

section \<open>Invariant\<close>

text \<open>
  Every registered pointer leads to a book of its ticker that holds at most \<open>k\<close> orders, with prices
  in \<open>P\<close>, and the three queues are well formed.
\<close>

definition queues_ok :: "Exchange \<Rightarrow> bool" where
  "queues_ok ex \<longleftrightarrow>
     lf_ok (ex_request_queue ex) \<and> lf_ok (ex_response_queue ex) \<and> lf_ok (ex_update_queue ex)"

definition ex_sound :: "PriceT set \<Rightarrow> nat \<Rightarrow> Exchange \<Rightarrow> bool" where
  "ex_sound P k ex \<longleftrightarrow>
     distinct (map fst (order_books_map ex)) \<and> queues_ok ex
     \<and> (\<forall>(t, p) \<in> set (order_books_map ex).
          \<exists>ob. p = Some ob \<and> ob_ticker_id ob = t \<and> sound P k (book_state ex ob))"

lemma book_state_simps [simp]:
  "book (book_state ex ob) = ob" "client_response_queue (book_state ex ob) = ex_response_queue ex"
  "market_update_queue (book_state ex ob) = ex_update_queue ex"
  "next_trade_id (book_state ex ob) = ex_next_trade_id ex"
  "clock (book_state ex ob) = ex_clock ex" "ticks (book_state ex ob) = ex_ticks ex"
  "book_state (ex\<lparr>next_order_id := n\<rparr>) ob = book_state ex ob"
  "book_state (ex\<lparr>next_request := p\<rparr>) ob = book_state ex ob"
  "book_state (ex\<lparr>ex_request_queue := q\<rparr>) ob = book_state ex ob"
  "book_state (ex\<lparr>running := r\<rparr>) ob = book_state ex ob"
  "book_state (ex\<lparr>run_thread := p'\<rparr>) ob = book_state ex ob"
  "book_state (ex\<lparr>order_books_map := m\<rparr>) ob = book_state ex ob"
  by (simp_all add: book_state_def)

lemma OrderBook_new_ticker [simp]: "ob_ticker_id (OrderBook_new t) = t"
  by (simp add: OrderBook_new_def)

lemma store_book_simps [simp]:
  "map_of (order_books_map (store_book t s ex)) = (map_of (order_books_map ex))(t \<mapsto> Some (book s))"
  "ex_request_queue (store_book t s ex) = ex_request_queue ex"
  "ex_response_queue (store_book t s ex) = client_response_queue s"
  "ex_update_queue (store_book t s ex) = market_update_queue s"
  "next_order_id (store_book t s ex) = next_order_id ex" "running (store_book t s ex) = running ex"
  "run_thread (store_book t s ex) = run_thread ex"
  "ex_next_trade_id (store_book t s ex) = next_trade_id s" "ex_ticks (store_book t s ex) = ticks s"
  "ex_clock (store_book t s ex) = ex_clock ex" "next_request (store_book t s ex) = next_request ex"
  by (simp_all add: store_book_def update_conv')

lemma ex_sound_book:
  "ex_sound P k ex \<Longrightarrow> map_of (order_books_map ex) t = Some p \<Longrightarrow>
     \<exists>ob. p = Some ob \<and> ob_ticker_id ob = t \<and> sound P k (book_state ex ob)"
  unfolding ex_sound_def by (blast dest: map_of_SomeD)

lemma ex_sound_iff:
  "ex_sound P k ex \<longleftrightarrow> distinct (map fst (order_books_map ex)) \<and> queues_ok ex
     \<and> (\<forall>t p. map_of (order_books_map ex) t = Some p \<longrightarrow>
          (\<exists>ob. p = Some ob \<and> ob_ticker_id ob = t \<and> sound P k (book_state ex ob)))"
proof -
  have "(t, p) \<in> set (order_books_map ex) \<longleftrightarrow> map_of (order_books_map ex) t = Some p"
    if "distinct (map fst (order_books_map ex))" for t p
    using that by simp
  then show ?thesis
    unfolding ex_sound_def split_beta by (intro conj_cong refl) (metis fst_conv snd_conv surj_pair)
qed

lemma ex_sound_queues: "ex_sound P k ex \<Longrightarrow> queues_ok ex"
  by (simp add: ex_sound_def)

text \<open>Storing the result of an operation on one book keeps the invariant for all of them.\<close>

lemma ex_sound_store:
  assumes ex: "ex_sound P k ex" and s: "sound P k' s" "ob_ticker_id (book s) = t"
    and q: "lf_ok (ex_request_queue ex)" and k: "k \<le> k'"
  shows "ex_sound P k' (store_book t s ex)"
  unfolding ex_sound_iff
proof (intro conjI allI impI)
  let ?ex = "store_book t s ex"
  note qs = sound_queues [OF s(1)]
  show "distinct (map fst (order_books_map ?ex))"
    using ex by (simp add: ex_sound_def store_book_def distinct_update)
  show "queues_ok ?ex" using q qs by (simp add: queues_ok_def)
  fix u p assume u: "map_of (order_books_map ?ex) u = Some p"
  show "\<exists>ob. p = Some ob \<and> ob_ticker_id ob = u \<and> sound P k' (book_state ?ex ob)"
  proof (cases "u = t")
    case True
    then have p: "p = Some (book s)" using u by simp
    have "sound P k' (book_state ?ex (book s))"
      by (rule sound_book [OF s(1)]) (use qs in simp_all)
    then show ?thesis using p True s(2) by simp
  next
    case False
    then obtain ob where ob: "p = Some ob" "ob_ticker_id ob = u" "sound P k (book_state ex ob)"
      using ex_sound_book [OF ex, of u p] u by auto
    have "sound P k (book_state ?ex ob)"
      by (rule sound_book [OF ob(3)]) (use qs in simp_all)
    then show ?thesis using ob sound_mono [of P k _ k'] k by auto
  qed
qed

section \<open>Registering tickers\<close>

lemma update_absent: "k \<notin> fst ` set al \<Longrightarrow> AList.update k v al = al @ [(k, v)]"
  by (induction al) auto

lemma addTicker_full:
  "length (order_books_map ex) = MAX_TICKERS \<Longrightarrow>
     addTicker t ex = throw (Assertion ''Max tickers count reached'')"
  by (simp add: addTicker_def ASSERT_def)

lemma addTicker_new:
  assumes "ex_sound P k ex" and "few_prices P" and "length (order_books_map ex) < MAX_TICKERS"
    and "map_of (order_books_map ex) t = None"
  shows "addTicker t ex = ret (ex\<lparr>order_books_map := order_books_map ex @ [(t, Some (OrderBook_new t))]\<rparr>)"
    and "ex_sound P k (ex\<lparr>order_books_map := order_books_map ex @ [(t, Some (OrderBook_new t))]\<rparr>)"
proof -
  let ?m = "order_books_map ex @ [(t, Some (OrderBook_new t))]"
  let ?ex = "ex\<lparr>order_books_map := ?m\<rparr>"
  have t: "t \<notin> fst ` set (order_books_map ex)" using assms(4) by (simp add: map_of_eq_None_iff)
  have upd: "AList.update t (Some (OrderBook_new t)) (order_books_map ex) = ?m"
    using t by (simp add: update_absent)
  have "sound P 0 (opened t (ex_response_queue ex) (ex_update_queue ex) (ex_next_trade_id ex)
      (ex_clock ex) (ex_ticks ex))"
    using ex_sound_queues [OF assms(1)] assms(2) by (intro sound_opened) (simp_all add: queues_ok_def)
  then have "sound P k (book_state ex (OrderBook_new t))"
    using sound_mono [of P 0 _ k] by (simp add: opened_def book_state_def)
  then show "ex_sound P k ?ex"
    using assms(1) t unfolding ex_sound_def by (auto simp: queues_ok_def)
  show "addTicker t ex = ret ?ex"
    using assms(3,4) upd by (simp add: addTicker_def ASSERT_def)
qed

lemma addTicker_known:
  "length (order_books_map ex) \<noteq> MAX_TICKERS \<Longrightarrow> map_of (order_books_map ex) t \<noteq> None \<Longrightarrow>
     addTicker t ex = ret ex"
  by (auto simp: addTicker_def ASSERT_def)

lemma addTickers_new:
  assumes "ex_sound P k ex" and "few_prices P" and "distinct ts" and "set ts \<inter> fst ` set (order_books_map ex) = {}"
    and "length (order_books_map ex) + length ts \<le> MAX_TICKERS"
    and "m = order_books_map ex @ map (\<lambda>t. (t, Some (OrderBook_new t))) ts"
  shows "addTickers ts ex = ret (ex\<lparr>order_books_map := m\<rparr>) \<and> ex_sound P k (ex\<lparr>order_books_map := m\<rparr>)"
  using assms
proof (induction ts arbitrary: ex)
  case (Cons t ts)
  let ?ex = "ex\<lparr>order_books_map := order_books_map ex @ [(t, Some (OrderBook_new t))]\<rparr>"
  have "map_of (order_books_map ex) t = None" using Cons.prems(4) by (simp add: map_of_eq_None_iff)
  then have "addTicker t ex = ret ?ex" "ex_sound P k ?ex"
    using addTicker_new [OF Cons.prems(1,2)] Cons.prems(5) by simp_all
  moreover have "addTickers ts ?ex = ret (?ex\<lparr>order_books_map := m\<rparr>) \<and> ex_sound P k (?ex\<lparr>order_books_map := m\<rparr>)"
    using Cons.prems \<open>ex_sound P k ?ex\<close> by (intro Cons.IH) auto
  ultimately show ?case by simp
qed simp

lemma addTickers_queues:
  assumes "addTickers ts ex = ret ex'"
  shows "ex_response_queue ex' = ex_response_queue ex" "ex_update_queue ex' = ex_update_queue ex"
  using assms by (induction ts arbitrary: ex) (auto simp: addTicker_def ASSERT_def obind_eq_ret split: if_splits)

section \<open>Requests\<close>

definition known :: "Exchange \<Rightarrow> TickerIdT \<Rightarrow> bool" where
  "known ex t \<longleftrightarrow> map_of (order_books_map ex) t \<noteq> None"

lemma addOrder_known:
  assumes ex: "ex_sound P k ex" and t: "known ex t" and k: "Suc k < MAX_ORDER_IDS"
    and lim: "lim \<in> P"
  shows "\<exists>ob s. map_of (order_books_map ex) t = Some (Some ob)
    \<and> OrderBook_add (next_order_id ex) cid side q lim (book_state ex ob) = ret s
    \<and> addOrder t cid side q lim ex = ret (store_book t s (ex\<lparr>next_order_id := next_order_id ex + 1\<rparr>))
    \<and> ex_sound P (Suc k) (store_book t s (ex\<lparr>next_order_id := next_order_id ex + 1\<rparr>))"
proof -
  obtain ob where ob: "map_of (order_books_map ex) t = Some (Some ob)" "ob_ticker_id ob = t"
    "sound P k (book_state ex ob)"
    using t ex_sound_book [OF ex, of t] by (auto simp: known_def)
  obtain s where s: "OrderBook_add (next_order_id ex) cid side q lim (book_state ex ob) = ret s"
    "sound P (Suc k) s" "ob_ticker_id (book s) = t"
    using service.add_returns [OF ob(3) k lim, of "next_order_id ex" cid side q] ob(2) by auto
  let ?ex = "ex\<lparr>next_order_id := next_order_id ex + 1\<rparr>"
  have "ex_sound P k ?ex" using ex by (simp add: ex_sound_def queues_ok_def)
  then have "ex_sound P (Suc k) (store_book t s ?ex)"
    using ex s by (intro ex_sound_store [of P k]) (simp_all add: ex_sound_def queues_ok_def)
  moreover have "addOrder t cid side q lim ex = ret (store_book t s ?ex)"
    using ob(1) s(1) by (simp add: addOrder_def getOrderBook_def getNextOrderId_def book_deref_def)
  ultimately show ?thesis using ob(1) s(1) by blast
qed

lemma cancelOrder_known:
  assumes ex: "ex_sound P k ex" and t: "map_of (order_books_map ex) t = Some (Some ob)"
    and on: "level_reachable (book_state ex ob) lim"
  shows "\<exists>s. OrderBook_cancel cid oid side lim (book_state ex ob) = ret s
    \<and> cancelOrder t cid oid side lim ex = ret (store_book t s ex)
    \<and> ex_sound P k (store_book t s ex)"
proof -
  have ob: "ob_ticker_id ob = t" "sound P k (book_state ex ob)"
    using ex_sound_book [OF ex t] by auto
  obtain s where s: "OrderBook_cancel cid oid side lim (book_state ex ob) = ret s"
    "sound P k s" "ob_ticker_id (book s) = t"
    using service.cancel_returns [OF ob(2) on, of cid oid side] ob(1) by auto
  moreover have "ex_sound P k (store_book t s ex)"
    using ex s by (intro ex_sound_store [of P k]) (simp_all add: ex_sound_def queues_ok_def)
  moreover have "cancelOrder t cid oid side lim ex = ret (store_book t s ex)"
    using t s(1) by (simp add: cancelOrder_def getOrderBook_def book_deref_def)
  ultimately show ?thesis by blast
qed

text \<open>A request for a ticker that was never registered reads through a null pointer.\<close>

lemma unknown_ticker:
  assumes "\<not> known ex t"
  shows "addOrder t cid side q lim ex = throw Null_Dereference"
    and "cancelOrder t cid oid side lim ex = throw Null_Dereference"
  using assms
  by (simp_all add: known_def addOrder_def cancelOrder_def getOrderBook_def getNextOrderId_def book_deref_def)

section \<open>The request loop\<close>

text \<open>What the loop does with a request, by value.\<close>

definition serve :: "ClientRequest \<Rightarrow> Exchange \<Rightarrow> Exchange outcome" where
  "serve r ex =
     (case rq_type r of
        RequestType_INVALID \<Rightarrow> ret ex
      | RequestType_ADD \<Rightarrow>
          addOrder (rq_ticker_id r) (rq_client_id r) (rq_side r) (rq_quantity r) (rq_limit_price r) ex
      | RequestType_CANCEL \<Rightarrow>
          cancelOrder (rq_ticker_id r) (rq_client_id r) (rq_order_id r) (rq_side r) (rq_limit_price r) ex)"

lemma run_body_idle:
  "lf_ok (ex_request_queue ex) \<Longrightarrow> contents (ex_request_queue ex) = [] \<Longrightarrow>
     run_body ex = ret (ex\<lparr>next_request := None\<rparr>)"
  by (simp add: run_body_def pop_empty)

lemma run_body_head:
  assumes "lf_ok (ex_request_queue ex)" and "contents (ex_request_queue ex) = r # rs"
  shows "\<exists>i q. run_body ex = serve r (ex\<lparr>next_request := Some i, ex_request_queue := q\<rparr>)
    \<and> lf_ok q \<and> contents q = rs \<and> room q = room (ex_request_queue ex)"
proof -
  obtain i q where q: "pop (ex_request_queue ex) = (Some i, q)" "lf_ok q" "contents q = rs" "slot q i = r"
    "room q = room (ex_request_queue ex)"
    using lfq.pop_some [of "ex_request_queue ex" r rs] assms by blast
  then have "run_body ex = serve r (ex\<lparr>next_request := Some i, ex_request_queue := q\<rparr>)"
    by (simp add: run_body_def processRequest_def serve_def Let_def split: RequestType.splits)
  with q show ?thesis by blast
qed

text \<open>The new orders among requests, and the requests the exchange can serve without a fault.\<close>

definition additions :: "ClientRequest list \<Rightarrow> nat" where
  "additions rs = length (filter (\<lambda>r. rq_type r = RequestType_ADD) rs)"

lemma additions_simps [simp]:
  "additions [] = 0" "additions (r # rs) = (if rq_type r = RequestType_ADD then 1 else 0) + additions rs"
  by (simp_all add: additions_def)

lemma additions_le: "additions rs \<le> length rs"
  by (simp add: additions_def)

definition safe_request :: "PriceT set \<Rightarrow> Exchange \<Rightarrow> ClientRequest \<Rightarrow> bool" where
  "safe_request P ex r \<longleftrightarrow>
     (case rq_type r of
        RequestType_INVALID \<Rightarrow> True
      | RequestType_ADD \<Rightarrow> known ex (rq_ticker_id r) \<and> rq_limit_price r \<in> P
      | RequestType_CANCEL \<Rightarrow>
          (case map_of (order_books_map ex) (rq_ticker_id r) of
             Some (Some ob) \<Rightarrow> level_reachable (book_state ex ob) (rq_limit_price r)
           | _ \<Rightarrow> False))"

lemma ex_sound_mono: "ex_sound P k ex \<Longrightarrow> k \<le> k' \<Longrightarrow> ex_sound P k' ex"
  unfolding ex_sound_iff by (meson sound_mono)

lemma serve_safe:
  assumes ex: "ex_sound P k ex" and safe: "safe_request P ex r"
    and k: "k + additions [r] < MAX_ORDER_IDS"
  shows "\<exists>ex'. serve r ex = ret ex' \<and> ex_sound P (k + additions [r]) ex'
    \<and> ex_request_queue ex' = ex_request_queue ex
    \<and> next_order_id ex' = next_order_id ex + of_nat (additions [r])
    \<and> dom (map_of (order_books_map ex')) = dom (map_of (order_books_map ex))
    \<and> (\<forall>t. t \<noteq> rq_ticker_id r \<longrightarrow> map_of (order_books_map ex') t = map_of (order_books_map ex) t)"
proof (cases "rq_type r")
  case RequestType_INVALID
  then show ?thesis using ex by (simp add: serve_def)
next
  case RequestType_ADD
  then have t: "known ex (rq_ticker_id r)" "rq_limit_price r \<in> P" and k': "Suc k < MAX_ORDER_IDS"
    using safe k by (simp_all add: safe_request_def)
  from addOrder_known [OF ex t(1) k' t(2), of "rq_client_id r" "rq_side r" "rq_quantity r"]
  obtain ob s where "map_of (order_books_map ex) (rq_ticker_id r) = Some (Some ob)"
    "serve r ex = ret (store_book (rq_ticker_id r) s (ex\<lparr>next_order_id := next_order_id ex + 1\<rparr>))"
    "ex_sound P (Suc k) (store_book (rq_ticker_id r) s (ex\<lparr>next_order_id := next_order_id ex + 1\<rparr>))"
    using RequestType_ADD by (auto simp: serve_def)
  then show ?thesis using RequestType_ADD by auto
next
  case RequestType_CANCEL
  then obtain ob where ob: "map_of (order_books_map ex) (rq_ticker_id r) = Some (Some ob)"
    "level_reachable (book_state ex ob) (rq_limit_price r)"
    using safe by (auto simp: safe_request_def split: option.splits)
  from cancelOrder_known [OF ex ob, of "rq_client_id r" "rq_order_id r" "rq_side r"]
  obtain s where "serve r ex = ret (store_book (rq_ticker_id r) s ex)"
    "ex_sound P k (store_book (rq_ticker_id r) s ex)"
    using RequestType_CANCEL by (auto simp: serve_def)
  then show ?thesis using ob(1) RequestType_CANCEL by auto
qed

lemma ex_sound_dequeue:
  "ex_sound P k ex \<Longrightarrow> lf_ok q \<Longrightarrow> ex_sound P k (ex\<lparr>next_request := p, ex_request_queue := q\<rparr>)"
  "ex_sound P k ex \<Longrightarrow> ex_sound P k (ex\<lparr>next_request := p\<rparr>)"
  "ex_sound P k ex \<Longrightarrow> lf_ok q \<Longrightarrow> ex_sound P k (ex\<lparr>ex_request_queue := q\<rparr>)"
  "ex_sound P k ex \<Longrightarrow> ex_sound P k (ex\<lparr>running := b\<rparr>)"
  "ex_sound P k ex \<Longrightarrow> ex_sound P k (ex\<lparr>run_thread := p'\<rparr>)"
  by (simp_all add: ex_sound_def queues_ok_def)

lemma safe_request_dequeue [simp]:
  "safe_request P (ex\<lparr>next_request := p, ex_request_queue := q\<rparr>) r \<longleftrightarrow> safe_request P ex r"
  by (simp add: safe_request_def known_def split: RequestType.splits option.splits)

lemma run_body_safe:
  assumes ex: "ex_sound P k ex" and c: "contents (ex_request_queue ex) = r # rs"
    and safe: "safe_request P ex r" and k: "k + additions [r] < MAX_ORDER_IDS"
  shows "\<exists>ex'. run_body ex = ret ex' \<and> ex_sound P (k + additions [r]) ex' \<and> contents (ex_request_queue ex') = rs
    \<and> next_order_id ex' = next_order_id ex + of_nat (additions [r])
    \<and> dom (map_of (order_books_map ex')) = dom (map_of (order_books_map ex))
    \<and> (\<forall>t. t \<noteq> rq_ticker_id r \<longrightarrow> map_of (order_books_map ex') t = map_of (order_books_map ex) t)"
proof -
  have "lf_ok (ex_request_queue ex)" using ex_sound_queues [OF ex] by (simp add: queues_ok_def)
  from run_body_head [OF this c] obtain i q where
    run: "run_body ex = serve r (ex\<lparr>next_request := Some i, ex_request_queue := q\<rparr>)"
    and q: "lf_ok q" "contents q = rs" by blast
  from serve_safe [OF ex_sound_dequeue(1) [OF ex q(1)] _ k, of "Some i"] safe run q(2)
  show ?thesis by auto
qed

primrec run_times :: "nat \<Rightarrow> Exchange \<Rightarrow> Exchange outcome" where
  "run_times 0 ex = ret ex"
| "run_times (Suc n) ex = obind (run_body ex) (run_times n)"

text \<open>
  Serving requests one after the other, by value, and the lists of requests for which this goes
  well: each request can be served in the state that the ones before it have left.
\<close>

primrec serve_all :: "ClientRequest list \<Rightarrow> Exchange \<Rightarrow> Exchange outcome" where
  "serve_all [] ex = ret ex"
| "serve_all (r # rs) ex = obind (serve r ex) (serve_all rs)"

primrec servable :: "PriceT set \<Rightarrow> ClientRequest list \<Rightarrow> Exchange \<Rightarrow> bool" where
  "servable P [] ex \<longleftrightarrow> True"
| "servable P (r # rs) ex \<longleftrightarrow>
     safe_request P ex r \<and> (case serve r ex of Some (Inr ex') \<Rightarrow> servable P rs ex' | _ \<Rightarrow> False)"

lemma servable_Cons: "serve r ex = ret ex' \<Longrightarrow> servable P (r # rs) ex \<longleftrightarrow> safe_request P ex r \<and> servable P rs ex'"
  by simp

text \<open>New orders for registered tickers are always servable.\<close>

lemma servable_additions:
  assumes "ex_sound P k ex"
    and "\<forall>r \<in> set rs. rq_type r = RequestType_INVALID
      \<or> rq_type r = RequestType_ADD \<and> known ex (rq_ticker_id r) \<and> rq_limit_price r \<in> P"
    and "k + additions rs < MAX_ORDER_IDS"
  shows "servable P rs ex"
  using assms
proof (induction rs arbitrary: k ex)
  case (Cons r rs)
  have safe: "safe_request P ex r" using Cons.prems(2) by (auto simp: safe_request_def)
  from serve_safe [OF Cons.prems(1) safe] Cons.prems(3) obtain ex1 where
    e1: "serve r ex = ret ex1" "ex_sound P (k + additions [r]) ex1"
      "dom (map_of (order_books_map ex1)) = dom (map_of (order_books_map ex))" by auto
  then have "known ex1 t \<longleftrightarrow> known ex t" for t by (auto simp: known_def dom_def set_eq_iff)
  then have "servable P rs ex1" using Cons.prems(2,3) by (intro Cons.IH [OF e1(2)]) auto
  with safe show ?case unfolding servable_Cons [OF e1(1)] by simp
qed simp

text \<open>Serving does not look at the queue of requests or at the pointer to the request at hand.\<close>

lemma store_book_dequeue:
  "store_book t s (ex\<lparr>next_request := p, ex_request_queue := q\<rparr>)
     = (store_book t s ex)\<lparr>next_request := p, ex_request_queue := q\<rparr>"
  "store_book t s (ex\<lparr>next_request := p, ex_request_queue := q, next_order_id := n\<rparr>)
     = (store_book t s (ex\<lparr>next_order_id := n\<rparr>))\<lparr>next_request := p, ex_request_queue := q\<rparr>"
  by (simp_all add: store_book_def)

lemma serve_dequeue:
  assumes "serve r ex = ret ex'"
  shows "serve r (ex\<lparr>next_request := p, ex_request_queue := q\<rparr>) = ret (ex'\<lparr>next_request := p, ex_request_queue := q\<rparr>)"
  using assms
  by (auto simp: serve_def addOrder_def cancelOrder_def getOrderBook_def getNextOrderId_def book_deref_def
      store_book_dequeue Let_def obind_eq_ret split: RequestType.splits option.splits)

lemma serve_all_dequeue:
  "serve_all rs ex = ret ex' \<Longrightarrow>
     serve_all rs (ex\<lparr>next_request := p, ex_request_queue := q\<rparr>) = ret (ex'\<lparr>next_request := p, ex_request_queue := q\<rparr>)"
proof (induction rs arbitrary: ex)
  case (Cons r rs)
  then obtain ex1 where "serve r ex = ret ex1" "serve_all rs ex1 = ret ex'" by (auto simp: obind_eq_ret)
  then show ?case using Cons.IH [of ex1] serve_dequeue by simp
qed simp

lemma servable_dequeue:
  "servable P rs ex \<Longrightarrow> servable P rs (ex\<lparr>next_request := p, ex_request_queue := q\<rparr>)"
proof (induction rs arbitrary: ex)
  case (Cons r rs)
  then obtain ex1 where ex1: "serve r ex = ret ex1"
    by (auto split: option.splits sum.splits)
  with Cons show ?case unfolding servable_Cons [OF ex1] servable_Cons [OF serve_dequeue [OF ex1]] by simp
qed simp

text \<open>The loop does to the books what serving the requests in the queue one after the other does.\<close>

lemma run_times_serves:
  assumes "ex_sound P k ex" and "contents (ex_request_queue ex) = rs" and "servable P rs ex"
    and "k + additions rs < MAX_ORDER_IDS"
  shows "\<exists>ex1 p q. serve_all rs ex = ret ex1
    \<and> run_times (length rs) ex = ret (ex1\<lparr>next_request := p, ex_request_queue := q\<rparr>)
    \<and> contents q = [] \<and> ex_sound P (k + additions rs) (ex1\<lparr>next_request := p, ex_request_queue := q\<rparr>)
    \<and> next_order_id ex1 = next_order_id ex + of_nat (additions rs)
    \<and> dom (map_of (order_books_map ex1)) = dom (map_of (order_books_map ex))"
  using assms
proof (induction rs arbitrary: k ex)
  case Nil
  have "ex\<lparr>next_request := next_request ex, ex_request_queue := ex_request_queue ex\<rparr> = ex" by simp
  then show ?case
    using Nil by (intro exI [of _ ex] exI [of _ "next_request ex"] exI [of _ "ex_request_queue ex"]) simp
next
  case (Cons r rs)
  let ?k = "k + additions [r]"
  have "lf_ok (ex_request_queue ex)" using ex_sound_queues [OF Cons.prems(1)] by (simp add: queues_ok_def)
  from run_body_head [OF this Cons.prems(2)] obtain i q where
    run: "run_body ex = serve r (ex\<lparr>next_request := Some i, ex_request_queue := q\<rparr>)" and q: "lf_ok q" "contents q = rs"
    by blast
  have safe: "safe_request P ex r" using Cons.prems(3) by simp
  from serve_safe [OF Cons.prems(1) safe] Cons.prems(4) obtain ex1 where
    e1: "serve r ex = ret ex1" "ex_sound P ?k ex1" "next_order_id ex1 = next_order_id ex + of_nat (additions [r])"
      "dom (map_of (order_books_map ex1)) = dom (map_of (order_books_map ex))" by auto
  let ?ex1 = "ex1\<lparr>next_request := Some i, ex_request_queue := q\<rparr>"
  have "servable P rs ?ex1" using Cons.prems(3) unfolding servable_Cons [OF e1(1)] by (intro servable_dequeue) simp
  from Cons.IH [OF ex_sound_dequeue(1) [OF e1(2) q(1)] _ this] q(2) Cons.prems(4) obtain ex2 p' q' where
    e2: "serve_all rs ?ex1 = ret ex2" "run_times (length rs) ?ex1 = ret (ex2\<lparr>next_request := p', ex_request_queue := q'\<rparr>)"
      "contents q' = []" "ex_sound P (?k + additions rs) (ex2\<lparr>next_request := p', ex_request_queue := q'\<rparr>)"
      "next_order_id ex2 = next_order_id ?ex1 + of_nat (additions rs)"
      "dom (map_of (order_books_map ex2)) = dom (map_of (order_books_map ?ex1))" by auto
  from serve_all_dequeue [OF e2(1), where p = "next_request ex1" and q = "ex_request_queue ex1"]
  have "serve_all rs ex1 = ret (ex2\<lparr>next_request := next_request ex1, ex_request_queue := ex_request_queue ex1\<rparr>)" by simp
  then show ?case
    using run e1 e2(2-6) serve_dequeue [OF e1(1), where p = "Some i" and q = q]
    by (intro exI [of _ "ex2\<lparr>next_request := next_request ex1, ex_request_queue := ex_request_queue ex1\<rparr>"]
        exI [of _ p'] exI [of _ q']) (simp add: add_ac)
qed

section \<open>Properties\<close>

text \<open>
  An exchange constructed with at most 16 different tickers has one new book per ticker, in the
  order given; a further ticker is refused by the assertion.
\<close>

theorem exchange_construction:
  assumes "lf_ok rq" and "lf_ok rsq" and "lf_ok muq" and "distinct ts" and "length ts \<le> MAX_TICKERS"
    and "few_prices P"
  shows "\<exists>ex. Exchange_new rq rsq muq clk n ts = ret ex \<and> ex_sound P 0 ex
    \<and> order_books_map ex = map (\<lambda>t. (t, Some (OrderBook_new t))) ts
    \<and> (length ts = MAX_TICKERS \<longrightarrow> addTicker t ex = throw (Assertion ''Max tickers count reached''))"
proof -
  let ?ex = "\<lparr>running = False, run_thread = No_Thread, next_order_id = 1, ex_next_trade_id = 1, order_books_map = [],
        next_request = None, ex_request_queue = rq, ex_response_queue = rsq,
        ex_update_queue = muq, ex_clock = clk, ex_ticks = n\<rparr>"
  have "ex_sound P 0 ?ex" using assms(1-3) by (simp add: ex_sound_def queues_ok_def)
  from addTickers_new [OF this assms(6,4) _ _ refl] assms(5) show ?thesis
    by (auto simp: Exchange_new_def addTicker_full)
qed

text \<open>
  A new order goes to the book of its ticker and to no other, under the next order identifier;
  the exchange stays sound and the identifier counter moves on by one.
\<close>

theorem order_is_routed:
  assumes "ex_sound P k ex" and "known ex t" and "Suc k < MAX_ORDER_IDS" and "lim \<in> P"
  shows "\<exists>ob s ex'. map_of (order_books_map ex) t = Some (Some ob)
    \<and> OrderBook_add (next_order_id ex) cid side q lim (book_state ex ob) = ret s
    \<and> addOrder t cid side q lim ex = ret ex' \<and> ex_sound P (Suc k) ex'
    \<and> map_of (order_books_map ex') = (map_of (order_books_map ex))(t \<mapsto> Some (book s))
    \<and> next_order_id ex' = next_order_id ex + 1
    \<and> ex_response_queue ex' = client_response_queue s \<and> ex_update_queue ex' = market_update_queue s
    \<and> ex_next_trade_id ex' = next_trade_id s"
  using addOrder_known [OF assms, of cid side q] by force

text \<open>
  A request for a ticker that was never registered reads through a null pointer: the lookup
  stores a null pointer for it and the book is used unchecked.
\<close>

theorem unknown_ticker_faults:
  assumes "\<not> known ex t"
  shows "addOrder t cid side q lim ex = throw Null_Dereference
    \<and> cancelOrder t cid oid side lim ex = throw Null_Dereference"
  using unknown_ticker [OF assms] by simp

text \<open>
  C26. The request loop serves a queue of additions for registered tickers, at prices that the pools
  of levels can hold and fewer than the pools of orders have blocks left, completely and in order:
  after as many rounds as there are requests the queue is empty, nothing faulted, and every
  addition received an identifier of its own.
\<close>

theorem request_loop_serves_all:
  assumes "ex_sound P k ex" and "contents (ex_request_queue ex) = rs"
    and "\<forall>r \<in> set rs. rq_type r = RequestType_INVALID
      \<or> rq_type r = RequestType_ADD \<and> known ex (rq_ticker_id r) \<and> rq_limit_price r \<in> P"
    and "k + additions rs < MAX_ORDER_IDS"
  shows "\<exists>ex'. run_times (length rs) ex = ret ex' \<and> ex_sound P (k + additions rs) ex'
    \<and> contents (ex_request_queue ex') = []
    \<and> next_order_id ex' = next_order_id ex + of_nat (additions rs)"
  using run_times_serves [OF assms(1,2) servable_additions [OF assms(1,3,4)] assms(4)] by fastforce

abbreviation small_request_queue :: ClientRequestLFQueue where
  "small_request_queue \<equiv> LFQueue_new 8 ClientRequest_default"

abbreviation small_response_queue :: ClientResponseLFQueue where
  "small_response_queue \<equiv> LFQueue_new 8 ClientResponse_default"

abbreviation small_update_queue :: MarketUpdateLFQueue where
  "small_update_queue \<equiv> LFQueue_new 8 MarketUpdate_default"

lemma small_exchange_queues:
  "lf_ok small_request_queue" "lf_ok small_response_queue" "lf_ok small_update_queue"
  by (intro wf_intros; simp)+

lemma small_exchange_prices: "few_prices {100}"
  by (simp add: few_prices_def constants)

lemma small_exchange:
  obtains ex where "Exchange_new small_request_queue small_response_queue small_update_queue int 0 [1, 2] = ret ex"
    "ex_sound {100} 0 ex" "known ex 1" "\<not> known ex 3" "ex_request_queue ex = small_request_queue"
    "run_thread ex = No_Thread"
proof -
  let ?ex = "\<lparr>running = False, run_thread = No_Thread, next_order_id = 1, ex_next_trade_id = 1, order_books_map = [],
        next_request = None, ex_request_queue = small_request_queue, ex_response_queue = small_response_queue,
        ex_update_queue = small_update_queue, ex_clock = int, ex_ticks = 0\<rparr>"
  have "ex_sound {100} 0 ?ex" using small_exchange_queues by (simp add: ex_sound_def queues_ok_def)
  from addTickers_new [OF this small_exchange_prices, of "[1, 2]" "map (\<lambda>t. (t, Some (OrderBook_new t))) [1, 2]"]
  show thesis
    using that [of "?ex\<lparr>order_books_map := map (\<lambda>t. (t, Some (OrderBook_new t))) [1, 2]\<rparr>"]
    by (simp add: Exchange_new_def known_def constants)
qed

abbreviation small_request :: ClientRequest where
  "small_request \<equiv> ClientRequest.make RequestType_ADD 1 7 0 BUY 10 100"

text \<open>The small exchange with one request in its queue.\<close>

lemma small_exchange_request:
  obtains ex0 ex where "ex_sound {100} 0 ex0" "ex_request_queue ex0 = small_request_queue" "run_thread ex0 = No_Thread"
    "submit small_request ex0 = ret ex" "ex_sound {100} 0 ex"
    "contents (ex_request_queue ex) = [small_request]" "known ex 1"
proof -
  obtain ex where ex: "ex_sound {100} 0 ex" "known ex 1" "ex_request_queue ex = small_request_queue"
    "run_thread ex = No_Thread" by (rule small_exchange)
  let ?ex = "ex\<lparr>ex_request_queue := push_slot small_request small_request_queue\<rparr>"
  have "contents (ex_request_queue ?ex) = [small_request]"
    using contents_push [OF small_exchange_queues(1)] by simp
  moreover have "ex_sound {100} 0 ?ex" using small_exchange_queues(1) by (intro ex_sound_dequeue ex) simp
  moreover have "submit small_request ex = ret ?ex"
    using small_exchange_queues(1) ex(3) by (simp add: submit_def)
  ultimately show thesis using that [of ex ?ex] ex by (simp add: known_def)
qed

theorem exchange_construction_witness:
  "\<exists>ex. Exchange_new small_request_queue small_response_queue small_update_queue int 0 [1, 2] = ret ex
     \<and> ex_sound {100} 0 ex"
  using exchange_construction [OF small_exchange_queues, of "[1, 2]" "{100}" int 0] small_exchange_prices
  by (auto simp: constants)

theorem order_is_routed_witness:
  "\<exists>ex ex'. ex_sound {100} 0 ex \<and> addOrder 1 7 BUY 10 100 ex = ret ex' \<and> ex_sound {100} (Suc 0) ex'"
proof -
  obtain ex where ex: "ex_sound {100} 0 ex" "known ex 1" by (rule small_exchange)
  have "Suc 0 < MAX_ORDER_IDS" by (simp add: constants)
  from order_is_routed [OF ex this, of 100 7 BUY 10] ex(1) show ?thesis by blast
qed

theorem unknown_ticker_faults_witness:
  "\<exists>ex. ex_sound {100} 0 ex \<and> addOrder 3 7 BUY 10 100 ex = throw Null_Dereference"
proof -
  obtain ex where "ex_sound {100} 0 ex" "\<not> known ex 3" by (rule small_exchange)
  with unknown_ticker_faults [of ex 3 7 BUY 10 100] show ?thesis by blast
qed

theorem request_loop_serves_all_witness:
  "\<exists>ex ex'. length (contents (ex_request_queue ex)) = 1 \<and> run_times 1 ex = ret ex'
     \<and> contents (ex_request_queue ex') = []"
proof -
  obtain ex where ex: "ex_sound {100} 0 ex" "contents (ex_request_queue ex) = [small_request]" "known ex 1"
    by (rule small_exchange_request)
  from request_loop_serves_all [OF ex(1,2)] obtain ex' where
    "run_times (length [small_request]) ex = ret ex'" "contents (ex_request_queue ex') = []"
    using ex(3) by (auto simp: constants ClientRequest.make_def)
  with ex(2) show ?thesis by (intro exI [of _ ex] exI [of _ ex']) simp
qed

end
