(* ===== verification/Exchange_Thread.thy ===== *)
theory Exchange_Thread
  imports Exchange_Model
begin

text \<open>
  The thread of the exchange among the threads that submit requests and that call \<open>start\<close> and
  \<open>stop\<close> of \<open>include/cppexchange/cppexchange.h\<close>: the loop keeps the books sound under every
  interleaving, and \<open>stop\<close> ends it.
\<close>

section \<open>Interleavings\<close>

text \<open>
  The request at the head of the queue, if there is one, can be served. A history counts the
  new orders that the loop has taken from the queue.
\<close>

definition served :: "PriceT set \<Rightarrow> Exchange \<Rightarrow> bool" where
  "served P ex \<longleftrightarrow> (case contents (ex_request_queue ex) of [] \<Rightarrow> True | r # _ \<Rightarrow> safe_request P ex r)"

text \<open>It only has to be when the thread takes it up; the other threads can always take their steps.\<close>

definition can_go_on :: "PriceT set \<Rightarrow> Exchange \<Rightarrow> bool" where
  "can_go_on P ex \<longleftrightarrow> (run_thread ex = Run_Body \<longrightarrow> served P ex)"

definition head_additions :: "Exchange \<Rightarrow> nat" where
  "head_additions ex = additions (take 1 (contents (ex_request_queue ex)))"

definition taken :: "Exchange \<Rightarrow> nat" where
  "taken ex = (if run_thread ex = Run_Body then head_additions ex else 0)"

inductive exchange_step :: "nat \<Rightarrow> Exchange \<Rightarrow> Exchange \<Rightarrow> bool" where
  loop: "run_step ex = ret ex' \<Longrightarrow> exchange_step (taken ex) ex ex'"
| request: "submit r ex = ret ex' \<Longrightarrow> exchange_step 0 ex ex'"
| start: "Exchange_start ex = ret ex' \<Longrightarrow> exchange_step 0 ex ex'"
| stop: "exchange_step 0 ex (Exchange_stop ex)"
| join: "join_run_thread ex = ret (ended, ex') \<Longrightarrow> exchange_step 0 ex ex'"

inductive exchange_runs :: "PriceT set \<Rightarrow> Exchange \<Rightarrow> nat \<Rightarrow> Exchange \<Rightarrow> bool" for P ex0 where
  start: "exchange_runs P ex0 0 ex0"
| step: "exchange_runs P ex0 k ex \<Longrightarrow> (run_step ex = ret ex' \<Longrightarrow> can_go_on P ex) \<Longrightarrow> exchange_step n ex ex' \<Longrightarrow>
    exchange_runs P ex0 (k + n) ex'"

lemma run_body_served:
  assumes "ex_sound P k ex" and "served P ex" and "k + head_additions ex < MAX_ORDER_IDS"
  shows "\<exists>ex'. run_body ex = ret ex' \<and> ex_sound P (k + head_additions ex) ex'
    \<and> contents (ex_request_queue ex') = drop 1 (contents (ex_request_queue ex))"
proof (cases "contents (ex_request_queue ex)")
  case Nil
  have "lf_ok (ex_request_queue ex)" using ex_sound_queues [OF assms(1)] by (simp add: queues_ok_def)
  then show ?thesis
    using run_body_idle [OF _ Nil] ex_sound_dequeue(2) [OF assms(1)] Nil by (simp add: head_additions_def)
next
  case (Cons r rs)
  then have "head_additions ex = additions [r]" by (simp add: head_additions_def)
  then show ?thesis
    using run_body_safe [OF assms(1) Cons] assms(2,3) Cons by (auto simp: served_def)
qed

text \<open>The body of the loop touches neither the flag nor the thread.\<close>

lemma run_body_thread:
  assumes "run_body ex = ret ex'"
  shows "running ex' = running ex" "run_thread ex' = run_thread ex"
  using assms
  by (auto simp: run_body_def processRequest_def addOrder_def cancelOrder_def getOrderBook_def getNextOrderId_def Let_def
      obind_eq_ret split: prod.splits if_splits option.splits RequestType.splits)

lemma run_step_served:
  assumes "ex_sound P k ex" and "can_go_on P ex" and "k + taken ex < MAX_ORDER_IDS"
  shows "\<exists>ex'. run_step ex = ret ex' \<and> ex_sound P (k + taken ex) ex'
    \<and> contents (ex_request_queue ex') = drop (if run_thread ex = Run_Body then 1 else 0) (contents (ex_request_queue ex))"
proof (cases "run_thread ex = Run_Body")
  case True
  then show ?thesis
    using run_body_served [OF assms(1)] assms(2,3) ex_sound_dequeue(5) by (force simp: run_step_def taken_def can_go_on_def)
next
  case False
  then show ?thesis
    using assms(1) ex_sound_dequeue(5) by (cases "run_thread ex") (auto simp: run_step_def taken_def)
qed

inductive_cases exchange_stepE: "exchange_step n ex ex'"

lemma exchange_step_sound:
  assumes "exchange_step n ex ex'" and "ex_sound P k ex" and "run_step ex = ret ex' \<Longrightarrow> can_go_on P ex"
    and "k + n < MAX_ORDER_IDS"
  shows "ex_sound P (k + n) ex'"
  using assms(1)
proof (cases rule: exchange_stepE [consumes 1, case_names loop request start stop join])
  case loop
  then show ?thesis using run_step_served [OF assms(2)] assms(3,4) by auto
next
  case (request r)
  have "lf_ok (ex_request_queue ex)" using ex_sound_queues [OF assms(2)] by (simp add: queues_ok_def)
  then show ?thesis
    using request ex_sound_dequeue(3) [OF assms(2), of "push_slot r (ex_request_queue ex)"]
    by (auto simp: submit_def)
next
  case start
  then show ?thesis
    using ex_sound_dequeue(5) [OF ex_sound_dequeue(4) [OF assms(2)]] by (auto simp: Exchange_start_def split: if_splits)
next
  case stop
  then show ?thesis using ex_sound_dequeue(4) [OF assms(2)] by (simp add: Exchange_stop_def)
next
  case (join ended)
  then show ?thesis
    using assms(2) ex_sound_dequeue(5) by (auto simp: join_run_thread_def split: run_point.splits)
qed

lemma exchange_runs_sound:
  assumes "exchange_runs P ex0 k ex" and "ex_sound P 0 ex0" and "k < MAX_ORDER_IDS"
  shows "ex_sound P k ex"
  using assms by induction (auto intro: exchange_step_sound)

text \<open>The condition is needed: a request for a ticker that was never registered ends the thread with a fault.\<close>

lemma run_step_unknown:
  assumes "ex_sound P k ex" and "run_thread ex = Run_Body" and c: "contents (ex_request_queue ex) = r # rs"
    and r: "rq_type r \<noteq> RequestType_INVALID" "\<not> known ex (rq_ticker_id r)"
  shows "run_step ex = throw Null_Dereference"
proof -
  have "lf_ok (ex_request_queue ex)" using ex_sound_queues [OF assms(1)] by (simp add: queues_ok_def)
  from run_body_head [OF this c] obtain i q where
    run: "run_body ex = serve r (ex\<lparr>next_request := Some i, ex_request_queue := q\<rparr>)" by blast
  have "\<not> known (ex\<lparr>next_request := Some i, ex_request_queue := q\<rparr>) (rq_ticker_id r)" using r(2) by (simp add: known_def)
  then have "run_body ex = throw Null_Dereference"
    unfolding run serve_def using r(1) unknown_ticker by (simp split: RequestType.splits)
  then show ?thesis using assms(2) by (simp add: run_step_def)
qed

section \<open>Stopping\<close>

text \<open>What can happen after the flag was cleared and before the next start; the rounds are counted.\<close>

inductive winds_down :: "Exchange \<Rightarrow> nat \<Rightarrow> Exchange \<Rightarrow> bool" for ex0 where
  start: "winds_down ex0 0 ex0"
| loop: "winds_down ex0 n ex \<Longrightarrow> run_step ex = ret ex' \<Longrightarrow>
    winds_down ex0 (n + (if run_thread ex = Run_Body then 1 else 0)) ex'"
| request: "winds_down ex0 n ex \<Longrightarrow> submit r ex = ret ex' \<Longrightarrow> winds_down ex0 n ex'"
| join: "winds_down ex0 n ex \<Longrightarrow> join_run_thread ex = ret (ended, ex') \<Longrightarrow> winds_down ex0 n ex'"

lemma run_step_stopped:
  assumes "run_step ex = ret ex'" and "\<not> running ex"
  shows "\<not> running ex'" "run_thread ex' \<noteq> Run_Body"
  using assms run_body_thread by (auto simp: run_step_def obind_eq_ret split: run_point.splits)

lemma winds_down_rounds:
  assumes "winds_down ex0 n ex" and "\<not> running ex0"
  shows "\<not> running ex \<and> n + (if run_thread ex = Run_Body then 1 else 0) \<le> (if run_thread ex0 = Run_Body then 1 else 0)"
  using assms
proof induction
  case (loop n ex ex')
  then show ?case using run_step_stopped [OF loop.hyps(2)] by auto
next
  case (request n ex r ex')
  then show ?case by (auto simp: submit_def obind_eq_ret split: if_splits)
next
  case (join n ex ended ex')
  then show ?case by (auto simp: join_run_thread_def split: run_point.splits if_splits)
qed simp

section \<open>Properties\<close>

text \<open>
  C27. Take any interleaving of the loop with threads that submit requests and start and stop the
  exchange, in which every request that the loop takes up can be served: it names a registered
  ticker, a new order has a price of a set that the pool of levels can hold, and a cancellation
  names a price whose level, if it has one, is on a chain. Then the exchange stays sound, and the
  next step of its thread returns if the request that it is about to take up can be served. The
  condition on the ticker cannot be left out: a request for an unregistered one makes this step
  read through a null pointer. Only new orders count towards the bound, not rounds of the loop,
  submissions or cancellations.
\<close>

theorem exchange_interleavings_sound:
  assumes "exchange_runs P ex0 k ex" and "ex_sound P 0 ex0" and "Suc k < MAX_ORDER_IDS"
  shows "ex_sound P k ex
    \<and> (can_go_on P ex \<longrightarrow> (\<exists>ex'. run_step ex = ret ex' \<and> ex_sound P (k + taken ex) ex'))
    \<and> (\<forall>r rs. run_thread ex = Run_Body \<and> contents (ex_request_queue ex) = r # rs
         \<and> rq_type r \<noteq> RequestType_INVALID \<and> \<not> known ex (rq_ticker_id r) \<longrightarrow> run_step ex = throw Null_Dereference)"
proof -
  have ex: "ex_sound P k ex" using exchange_runs_sound [OF assms(1,2)] assms(3) by simp
  moreover have "k + taken ex < MAX_ORDER_IDS"
    using additions_le [of "take 1 (contents (ex_request_queue ex))"] assms(3) by (simp add: taken_def head_additions_def)
  ultimately show ?thesis using run_step_served run_step_unknown [OF ex] by blast
qed

text \<open>
  C28. Stopping an exchange ends its loop. However the threads interleave after the flag was
  cleared, at most the round that has already begun is completed, and no other starts; within
  two steps the thread is at its end and \<open>stop\<close> returns. The requests behind the one of this round stay in
  the queue, and the exchange can be started again to serve them. A second \<open>start\<close> before this
  ends the program, and so does a second \<open>stop\<close> after it.
\<close>

theorem stop_ends_the_loop:
  assumes "ex_sound P k ex" and "can_go_on P ex" and "Suc k < MAX_ORDER_IDS"
    and "run_thread ex \<in> {Run_Test, Run_Body}"
  shows "(\<forall>n ex'. winds_down (Exchange_stop ex) n ex' \<longrightarrow> n \<le> (if run_thread ex = Run_Body then 1 else 0))
    \<and> (\<exists>ex' ex''. obind (run_step (Exchange_stop ex)) run_step = ret ex' \<and> join_run_thread ex' = ret (True, ex'')
      \<and> ex_sound P (k + taken ex) ex'' \<and> run_step ex'' = ret ex''
      \<and> contents (ex_request_queue ex'') = drop (if run_thread ex = Run_Body then 1 else 0) (contents (ex_request_queue ex))
      \<and> Exchange_start ex'' = ret (ex''\<lparr>running := True, run_thread := Run_Test\<rparr>)
      \<and> join_run_thread (Exchange_stop ex'') = throw (Uncaught ''system_error''))
    \<and> Exchange_start ex = throw (Uncaught ''terminate'')" (is "?down \<and> ?ends \<and> ?again")
proof (intro conjI)
  show ?down
  proof (intro allI impI)
    fix n ex'
    assume w: "winds_down (Exchange_stop ex) n ex'"
    from winds_down_rounds [OF this] show "n \<le> (if run_thread ex = Run_Body then 1 else 0)"
      by (simp add: Exchange_stop_def split: if_splits)
  qed
  show ?again using assms(4) by (auto simp: Exchange_start_def)
  let ?ex = "Exchange_stop ex"
  have "head_additions ex \<le> 1"
    using additions_le [of "take 1 (contents (ex_request_queue ex))"] by (simp add: head_additions_def)
  then have k: "k + taken ?ex < MAX_ORDER_IDS" and t: "taken ?ex = taken ex"
    using assms(3) by (auto simp: taken_def head_additions_def Exchange_stop_def)
  have "ex_sound P k ?ex" "can_go_on P ?ex"
    using assms(1,2) ex_sound_dequeue(4)
    by (simp_all add: Exchange_stop_def can_go_on_def served_def safe_request_def known_def split: list.splits RequestType.splits option.splits)
  from run_step_served [OF this k] obtain ex1 where
    ex1: "run_step ?ex = ret ex1" "ex_sound P (k + taken ex) ex1"
      "contents (ex_request_queue ex1) = drop (if run_thread ex = Run_Body then 1 else 0) (contents (ex_request_queue ex))"
    unfolding t by (auto simp: Exchange_stop_def)
  have off: "\<not> running ex1" using run_step_stopped(1) [OF ex1(1)] by (simp add: Exchange_stop_def)
  have pc: "run_thread ex1 \<in> {Run_Test, Run_Done}"
    using ex1(1) assms(4) run_body_thread by (auto simp: run_step_def Exchange_stop_def obind_eq_ret)
  then have "run_step ex1 = ret (ex1\<lparr>run_thread := Run_Done\<rparr>)" using off by (auto simp: run_step_def)
  moreover have "ex_sound P (k + taken ex) (ex1\<lparr>run_thread := No_Thread\<rparr>)" by (rule ex_sound_dequeue(5) [OF ex1(2)])
  ultimately show ?ends using ex1(1,3)
    by (intro exI [of _ "ex1\<lparr>run_thread := Run_Done\<rparr>"] exI [of _ "ex1\<lparr>run_thread := No_Thread\<rparr>"])
      (simp add: join_run_thread_def run_step_def Exchange_start_def Exchange_stop_def)
qed

text \<open>The small exchange, started with one request in its queue.\<close>

lemma small_exchange_started:
  obtains ex0 ex where "ex_sound {100} 0 ex0" "exchange_runs {100} ex0 0 ex" "run_thread ex = Run_Body"
    "served {100} ex" "taken ex = 1" "contents (ex_request_queue ex) = [small_request]"
proof -
  obtain ex0 ex where ex: "ex_sound {100} 0 ex0" "ex_request_queue ex0 = small_request_queue" "run_thread ex0 = No_Thread"
    "submit small_request ex0 = ret ex" "contents (ex_request_queue ex) = [small_request]" "known ex 1"
    by (rule small_exchange_request)
  let ?ex1 = "ex\<lparr>running := True, run_thread := Run_Test\<rparr>"
  let ?ex2 = "?ex1\<lparr>run_thread := Run_Body\<rparr>"
  have n: "run_thread ex = No_Thread" using ex(3,4) by (auto simp: submit_def obind_eq_ret)
  have serve: "can_go_on {100} ex" "can_go_on {100} ?ex1" "served {100} ?ex2" "taken ?ex2 = 1"
    using ex(5,6) n by (simp_all add: can_go_on_def served_def safe_request_def head_additions_def taken_def known_def ClientRequest.make_def)
  have "exchange_runs {100} ex0 (0 + 0) ex"
    using ex(2-4) by (intro exchange_runs.step [OF exchange_runs.start] exchange_step.request)
      (simp_all add: can_go_on_def)
  then have "exchange_runs {100} ex0 (0 + 0 + 0) ?ex1"
    using serve(1) n by (elim exchange_runs.step) (auto intro: exchange_step.start simp: Exchange_start_def)
  then have "exchange_runs {100} ex0 (0 + 0 + 0 + taken ?ex1) ?ex2"
    using serve(2) by (elim exchange_runs.step) (auto intro: exchange_step.loop simp: run_step_def)
  then have "exchange_runs {100} ex0 0 ?ex2" by (simp add: taken_def)
  then show thesis using that [of ex0 ?ex2] ex(1,5) serve(3,4) by simp
qed

theorem exchange_interleavings_sound_witness:
  "\<exists>ex0 ex ex'. exchange_runs {100} ex0 0 ex \<and> run_thread ex = Run_Body \<and> run_step ex = ret ex' \<and> ex_sound {100} 1 ex'"
proof -
  obtain ex0 ex where ex: "ex_sound {100} 0 ex0" "exchange_runs {100} ex0 0 ex" "run_thread ex = Run_Body"
    "served {100} ex" "taken ex = 1" by (rule small_exchange_started)
  have "Suc 0 < MAX_ORDER_IDS" by (simp add: constants)
  from exchange_interleavings_sound [OF ex(2,1) this] ex show ?thesis by (auto simp: can_go_on_def)
qed

theorem stop_ends_the_loop_witness:
  "\<exists>ex ex' ex''. contents (ex_request_queue ex) = [small_request]
     \<and> obind (run_step (Exchange_stop ex)) run_step = ret ex' \<and> join_run_thread ex' = ret (True, ex'')
     \<and> contents (ex_request_queue ex'') = []"
proof -
  obtain ex0 ex where ex: "ex_sound {100} 0 ex0" "exchange_runs {100} ex0 0 ex" "run_thread ex = Run_Body"
    "served {100} ex" "contents (ex_request_queue ex) = [small_request]" by (rule small_exchange_started)
  have k: "Suc 0 < MAX_ORDER_IDS" "0 < MAX_ORDER_IDS" by (simp_all add: constants)
  have "can_go_on {100} ex" using ex(4) by (simp add: can_go_on_def)
  from stop_ends_the_loop [OF exchange_runs_sound [OF ex(2,1) k(2)] this k(1)] ex(3,5) show ?thesis by auto
qed

end
