(* ===== verification/LF_Queue_Concurrent.thy ===== *)
theory LF_Queue_Concurrent
  imports LF_Queue
begin

text \<open>
  The ring of \<open>include/communication/lf_queue.h\<close> between two threads. \<open>push\<close>, \<open>empty\<close> and \<open>pop\<close> are
  split at every load and store of shared memory; the two threads interleave freely between
  them. The index operations are sequentially consistent atomics (or acquire loads), and the
  slots are shown to be free of data races, so that sequentially consistent interleavings are
  all there is. Two lists record what was sent and what the consumer read.
\<close>

section \<open>Threads\<close>

text \<open>Where the producer is in \<open>push\<close>, with the values it has loaded.\<close>

datatype 'a producer_pc =
    Idle
  | Storing 'a nat
  | Stored 'a
  | Advancing 'a nat

text \<open>
  Where the consumer is in \<open>pop\<close>. It loads the two indices for \<open>empty\<close>, takes the address of the
  slot, advances the index and returns; \<open>Holding\<close> is the client that got the address and has not
  read the item yet.
\<close>

datatype consumer_pc =
    Waiting
  | Read_Loaded nat
  | Non_Empty
  | Addressed nat
  | Advance_Loaded nat nat
  | Holding nat

record 'a shared_ring =
  ring :: "'a LFQueue"
  producer :: "'a producer_pc"
  consumer :: consumer_pc
  sent :: "'a list"
  received :: "'a list"

definition shared_new :: "nat \<Rightarrow> 'a \<Rightarrow> 'a shared_ring" where
  "shared_new n dflt =
     \<lparr>ring = LFQueue_new n dflt, producer = Idle, consumer = Waiting, sent = [], received = []\<rparr>"

definition start_push :: "'a \<Rightarrow> 'a shared_ring \<Rightarrow> 'a shared_ring" where
  "start_push x st = st\<lparr>producer := Storing x (next_write_index (ring st))\<rparr>"

definition producer_step :: "'a shared_ring \<Rightarrow> 'a shared_ring outcome" where
  "producer_step st =
     (case producer st of
        Idle \<Rightarrow> ret st
      | Storing x w \<Rightarrow>
          if w < lf_size (ring st)
          then ret (st\<lparr>ring := (ring st)\<lparr>data_vec := vec_upd w x (data_vec (ring st))\<rparr>, producer := Stored x\<rparr>)
          else throw Out_Of_Range
      | Stored x \<Rightarrow> ret (st\<lparr>producer := Advancing x (next_write_index (ring st))\<rparr>)
      | Advancing x w \<Rightarrow>
          ret (st\<lparr>ring := (ring st)\<lparr>next_write_index := (w + 1) mod lf_size (ring st)\<rparr>,
                  producer := Idle, sent := sent st @ [x]\<rparr>))"

definition consumer_step :: "'a shared_ring \<Rightarrow> 'a shared_ring outcome" where
  "consumer_step st =
     (case consumer st of
        Waiting \<Rightarrow> ret (st\<lparr>consumer := Read_Loaded (next_read_index (ring st))\<rparr>)
      | Read_Loaded r \<Rightarrow>
          ret (st\<lparr>consumer := (if r = next_write_index (ring st) then Waiting else Non_Empty)\<rparr>)
      | Non_Empty \<Rightarrow> ret (st\<lparr>consumer := Addressed (next_read_index (ring st))\<rparr>)
      | Addressed i \<Rightarrow> ret (st\<lparr>consumer := Advance_Loaded i (next_read_index (ring st))\<rparr>)
      | Advance_Loaded i r \<Rightarrow>
          ret (st\<lparr>ring := (ring st)\<lparr>next_read_index := (r + 1) mod lf_size (ring st)\<rparr>, consumer := Holding i\<rparr>)
      | Holding i \<Rightarrow>
          if i < lf_size (ring st)
          then ret (st\<lparr>received := received st @ [slot (ring st) i], consumer := Waiting\<rparr>)
          else throw Out_Of_Range)"

text \<open>
  The interleavings, and those of a producer that starts a call only while the ring has room.
\<close>

inductive shared_step :: "'a shared_ring \<Rightarrow> 'a shared_ring \<Rightarrow> bool" where
  Start: "producer st = Idle \<Longrightarrow> shared_step st (start_push x st)"
| Produce: "producer_step st = ret st' \<Longrightarrow> shared_step st st'"
| Consume: "consumer_step st = ret st' \<Longrightarrow> shared_step st st'"

definition disciplined :: "'a shared_ring \<Rightarrow> 'a shared_ring \<Rightarrow> bool" where
  "disciplined st st' \<longleftrightarrow>
     (producer st = Idle \<and> producer st' \<noteq> Idle \<longrightarrow> lf_length (ring st) < room (ring st))"

inductive reaches :: "'a shared_ring \<Rightarrow> 'a shared_ring \<Rightarrow> bool" for st0 where
  reaches_refl: "reaches st0 st0"
| reaches_step: "reaches st0 st \<Longrightarrow> shared_step st st' \<Longrightarrow> disciplined st st' \<Longrightarrow> reaches st0 st'"

section \<open>One thread at a time\<close>

primrec repeat_step :: "nat \<Rightarrow> ('s \<Rightarrow> 's outcome) \<Rightarrow> 's \<Rightarrow> 's outcome" where
  "repeat_step 0 f s = ret s"
| "repeat_step (Suc k) f s = obind (f s) (repeat_step k f)"

lemma lf_size_simps [simp]:
  "lf_size (q\<lparr>next_write_index := w\<rparr>) = lf_size q" "lf_size (q\<lparr>next_read_index := r\<rparr>) = lf_size q"
  "lf_size (q\<lparr>data_vec := vec_upd i x (data_vec q)\<rparr>) = lf_size q"
  by (simp_all add: lf_size_def)

lemma slot_simps [simp]:
  "slot (q\<lparr>next_write_index := w\<rparr>) = slot q" "slot (q\<lparr>next_read_index := r\<rparr>) = slot q"
  "slot (q\<lparr>data_vec := vec_upd i x (data_vec q)\<rparr>) = (slot q)(i := x)"
  by (auto simp: slot_def fun_eq_iff)

lemma room_simps [simp]:
  "room (q\<lparr>next_write_index := w\<rparr>) = room q" "room (q\<lparr>next_read_index := r\<rparr>) = room q"
  "room (q\<lparr>data_vec := vec_upd i x (data_vec q)\<rparr>) = room q"
  by (simp_all add: room_def)

section \<open>The invariant of the shared ring\<close>

definition holding :: "consumer_pc \<Rightarrow> nat" where
  "holding pc = (case pc of Holding _ \<Rightarrow> 1 | _ \<Rightarrow> 0)"

definition taken :: "'a shared_ring \<Rightarrow> nat" where
  "taken st = length (received st) + holding (consumer st)"

definition producer_ok :: "nat \<Rightarrow> nat \<Rightarrow> (nat \<Rightarrow> 'a) \<Rightarrow> nat \<Rightarrow> 'a producer_pc \<Rightarrow> bool" where
  "producer_ok n e slots s pc \<longleftrightarrow>
     (case pc of
        Idle \<Rightarrow> True
      | Storing x w \<Rightarrow> w = s mod n \<and> s + 1 < e + n
      | Stored x \<Rightarrow> slots (s mod n) = x \<and> s + 1 < e + n
      | Advancing x w \<Rightarrow> slots (s mod n) = x \<and> w = s mod n \<and> s + 1 < e + n)"

definition consumer_ok :: "nat \<Rightarrow> nat \<Rightarrow> nat \<Rightarrow> consumer_pc \<Rightarrow> bool" where
  "consumer_ok n c s pc \<longleftrightarrow>
     (case pc of
        Waiting \<Rightarrow> True
      | Read_Loaded r \<Rightarrow> r = c mod n
      | Non_Empty \<Rightarrow> c < s
      | Addressed i \<Rightarrow> i = c mod n \<and> c < s
      | Advance_Loaded i r \<Rightarrow> i = c mod n \<and> r = c mod n \<and> c < s
      | Holding i \<Rightarrow> i = c mod n \<and> c < s)"

definition shared_inv :: "'a shared_ring \<Rightarrow> bool" where
  "shared_inv st \<longleftrightarrow>
     (let q = ring st; n = lf_size q; s = length (sent st); c = length (received st) in
      0 < n \<and> taken st \<le> s \<and> s < taken st + n \<and> next_write_index q = s mod n
      \<and> next_read_index q = taken st mod n
      \<and> (\<forall>j. c \<le> j \<and> j < s \<longrightarrow> slot q (j mod n) = sent st ! j)
      \<and> received st = take c (sent st)
      \<and> producer_ok n (taken st) (slot q) s (producer st) \<and> consumer_ok n c s (consumer st))"

lemma mod_window:
  fixes a b c n :: nat
  assumes "c \<le> a" and "a < c + n" and "c \<le> b" and "b < c + n" and "a mod n = b mod n"
  shows "a = b"
proof -
  have "a - c = b - c" by (rule offset_inj [where r = c and n = n]) (use assms in auto)
  then show ?thesis using assms(1,3) by simp
qed

lemma shared_inv_new: "0 < n \<Longrightarrow> shared_inv (shared_new n x)"
  by (simp add: shared_inv_def shared_new_def LFQueue_new_def lf_size_def Let_def holding_def taken_def
      producer_ok_def consumer_ok_def)

lemma shared_inv_lf_ok: "shared_inv st \<Longrightarrow> lf_ok (ring st)"
  by (simp add: shared_inv_def lf_ok_def Let_def)

lemma shared_inv_length:
  assumes "shared_inv st"
  shows "lf_length (ring st) = length (sent st) - taken st"
proof -
  have "taken st \<le> length (sent st)" "length (sent st) < taken st + lf_size (ring st)"
    "next_write_index (ring st) = length (sent st) mod lf_size (ring st)"
    "next_read_index (ring st) = taken st mod lf_size (ring st)"
    using assms by (simp_all add: shared_inv_def Let_def)
  moreover from this(1) have "(taken st mod lf_size (ring st) + (length (sent st) - taken st)) mod lf_size (ring st)
      = length (sent st) mod lf_size (ring st)"
    by (simp only: mod_add_left_eq le_add_diff_inverse)
  ultimately show ?thesis by (subst lf_length_eq_iff [OF shared_inv_lf_ok [OF assms]]) simp
qed

lemma start_push_inv:
  assumes "shared_inv st" and "lf_length (ring st) < room (ring st)"
  shows "shared_inv (start_push x st)"
  using assms shared_inv_length [OF assms(1)]
  by (auto simp: shared_inv_def start_push_def taken_def room_def Let_def producer_ok_def)

lemma producer_step_inv:
  assumes "shared_inv st"
  shows "\<exists>st'. producer_step st = ret st' \<and> shared_inv st' \<and> received st' = received st
    \<and> consumer st' = consumer st \<and> lf_size (ring st') = lf_size (ring st)"
proof (cases "producer st")
  case Idle
  with assms show ?thesis by (auto simp: producer_step_def)
next
  case (Storing x w)
  let ?n = "lf_size (ring st)" and ?s = "length (sent st)" and ?c = "length (received st)"
  have "taken st \<le> Suc ?c" by (auto simp: taken_def holding_def split: consumer_pc.splits)
  then have "w = ?s mod ?n" "0 < ?n" "?s < ?c + ?n"
    using assms Storing by (auto simp: shared_inv_def Let_def producer_ok_def)
  moreover from this have "j mod ?n \<noteq> w" if "?c \<le> j" "j < ?s" for j
    using that mod_window [of ?c j ?n ?s] by auto
  ultimately show ?thesis
    using assms Storing by (auto simp: producer_step_def shared_inv_def Let_def producer_ok_def taken_def)
next
  case (Stored x)
  with assms show ?thesis by (auto simp: producer_step_def shared_inv_def Let_def producer_ok_def taken_def)
next
  case (Advancing x w)
  let ?n = "lf_size (ring st)" and ?s = "length (sent st)"
  have "consumer_ok ?n c (Suc ?s) pc" if "consumer_ok ?n c ?s pc" for c pc
    using that by (auto simp: consumer_ok_def split: consumer_pc.splits)
  then show ?thesis
    using assms Advancing
    by (auto simp: producer_step_def shared_inv_def Let_def producer_ok_def taken_def nth_append less_Suc_eq mod_Suc_eq)
qed

lemma consumer_step_inv:
  assumes "shared_inv st"
  shows "\<exists>st'. consumer_step st = ret st' \<and> shared_inv st' \<and> sent st' = sent st
    \<and> producer st' = producer st \<and> lf_size (ring st') = lf_size (ring st)"
proof (cases "consumer st")
  case (Read_Loaded r)
  let ?n = "lf_size (ring st)" and ?s = "length (sent st)" and ?c = "length (received st)"
  have "?c < ?s" if "?c mod ?n \<noteq> ?s mod ?n"
    using that assms Read_Loaded by (cases "?c = ?s") (auto simp: shared_inv_def taken_def holding_def Let_def)
  then show ?thesis
    using assms Read_Loaded by (auto simp: consumer_step_def shared_inv_def Let_def consumer_ok_def taken_def holding_def)
next
  case (Holding i)
  then show ?thesis
    using assms
    by (auto simp: consumer_step_def shared_inv_def Let_def consumer_ok_def taken_def holding_def take_Suc_conv_app_nth)
next
  case (Advance_Loaded i r)
  have "producer_ok n (Suc e) sl s pc" if "producer_ok n e sl s pc" for n e s pc and sl :: "nat \<Rightarrow> 'a"
    using that by (auto simp: producer_ok_def split: producer_pc.splits)
  with assms Advance_Loaded show ?thesis
    by (auto simp: consumer_step_def shared_inv_def Let_def consumer_ok_def taken_def holding_def mod_Suc_eq)
qed (use assms in \<open>auto simp: consumer_step_def shared_inv_def Let_def consumer_ok_def taken_def holding_def mod_Suc_eq\<close>)

lemma reaches_inv: "reaches st0 st \<Longrightarrow> shared_inv st0 \<Longrightarrow> shared_inv st"
proof (induction rule: reaches.induct)
  case (reaches_step st st')
  then have inv: "shared_inv st" by simp
  from reaches_step.hyps(2) show ?case
  proof cases
    case (Start x)
    then show ?thesis using inv reaches_step.hyps(3) start_push_inv
      by (auto simp: disciplined_def start_push_def)
  next
    case Produce
    then show ?thesis using producer_step_inv [OF inv] by auto
  next
    case Consume
    then show ?thesis using consumer_step_inv [OF inv] by auto
  qed
qed

section \<open>Progress of the consumer\<close>

definition steps_left :: "consumer_pc \<Rightarrow> nat" where
  "steps_left pc =
     (case pc of Waiting \<Rightarrow> 6 | Read_Loaded _ \<Rightarrow> 5 | Non_Empty \<Rightarrow> 4 | Addressed _ \<Rightarrow> 3 | Advance_Loaded _ _ \<Rightarrow> 2 | Holding _ \<Rightarrow> 1)"

definition work_left :: "'a shared_ring \<Rightarrow> nat" where
  "work_left st = 6 * (length (sent st) - length (received st)) + steps_left (consumer st) - 6"

lemma consumer_step_works:
  assumes "shared_inv st" and "length (received st) < length (sent st)"
  shows "\<exists>st'. consumer_step st = ret st' \<and> shared_inv st' \<and> sent st' = sent st \<and> work_left st = Suc (work_left st')"
proof -
  let ?n = "lf_size (ring st)" and ?s = "length (sent st)" and ?c = "length (received st)"
  have "r \<noteq> next_write_index (ring st)" if "consumer st = Read_Loaded r" for r
    using assms that mod_window [of ?c ?c ?n ?s]
    by (auto simp: shared_inv_def Let_def consumer_ok_def taken_def holding_def)
  moreover obtain st' where "consumer_step st = ret st'" "shared_inv st'" "sent st' = sent st"
    using consumer_step_inv [OF assms(1)] by blast
  ultimately show ?thesis
    using assms(2)
    by (auto simp: work_left_def steps_left_def consumer_step_def split: consumer_pc.splits if_splits)
qed

lemma consumer_reads_all:
  assumes "shared_inv st"
  shows "\<exists>k st'. repeat_step k consumer_step st = ret st' \<and> received st' = sent st \<and> k \<le> work_left st"
  using assms
proof (induction "work_left st" arbitrary: st rule: less_induct)
  case less
  show ?case
  proof (cases "length (received st) < length (sent st)")
    case True
    then obtain st1 where st1: "consumer_step st = ret st1" "shared_inv st1" "sent st1 = sent st"
      "work_left st = Suc (work_left st1)"
      using consumer_step_works [OF less.prems] by blast
    then obtain k st' where "repeat_step k consumer_step st1 = ret st'" "received st' = sent st1" "k \<le> work_left st1"
      using less.hyps [of st1] by auto
    with st1 show ?thesis by (intro exI [of _ "Suc k"] exI [of _ st']) simp
  next
    case False
    moreover have "received st = take (length (received st)) (sent st)"
      using less.prems by (simp add: shared_inv_def Let_def)
    ultimately have "received st = sent st" by simp
    then show ?thesis by (intro exI [of _ 0] exI [of _ st]) simp
  qed
qed

section \<open>Properties\<close>

text \<open>
  The steps are those of the calls: a \<open>push\<close> that runs without interference has the effect of
  the sequential \<open>push\<close>, including its fault, and so has a \<open>pop\<close>, which ends after two steps when
  the ring is empty and with the address of the slot after five otherwise.
\<close>

theorem calls_are_their_steps:
  assumes "producer st = Idle" and "consumer st = Waiting"
  shows "repeat_step 3 producer_step (start_push x st) =
      obind (push x (ring st)) (\<lambda>q. ret (st\<lparr>ring := q, sent := sent st @ [x]\<rparr>))
    \<and> repeat_step (if fst (pop (ring st)) = None then 2 else 5) consumer_step st =
      ret (st\<lparr>ring := snd (pop (ring st)),
        consumer := (case fst (pop (ring st)) of None \<Rightarrow> Waiting | Some i \<Rightarrow> Holding i)\<rparr>)"
proof
  show "repeat_step 3 producer_step (start_push x st) =
      obind (push x (ring st)) (\<lambda>q. ret (st\<lparr>ring := q, sent := sent st @ [x]\<rparr>))"
    using assms by (simp add: numeral_3_eq_3 producer_step_def start_push_def push_def push_slot_def lf_size_def)
  show "repeat_step (if fst (pop (ring st)) = None then 2 else 5) consumer_step st =
      ret (st\<lparr>ring := snd (pop (ring st)),
        consumer := (case fst (pop (ring st)) of None \<Rightarrow> Waiting | Some i \<Rightarrow> Holding i)\<rparr>)"
    using assms by (simp add: numeral_2_eq_2 eval_nat_numeral consumer_step_def pop_def lf_empty_def lf_size_def Let_def)
qed

theorem calls_are_their_steps_witness:
  "repeat_step 3 producer_step (start_push 7 (shared_new 4 (0 :: nat))) =
     ret ((shared_new 4 0)\<lparr>ring := push_slot 7 (LFQueue_new 4 0), sent := [7]\<rparr>)"
  using calls_are_their_steps [of "shared_new 4 (0 :: nat)" 7] lf_ok_new [of 4 "0 :: nat"]
  by (simp add: shared_new_def)

text \<open>
  C21. The ring is safe between two threads. Whatever the interleaving, as long as the producer
  starts a call only while the ring has room: no step faults, the consumer has received a prefix
  of what was sent, the item it holds by address is the next one, and the producer never
  writes the slot that the consumer may still read.
\<close>

theorem concurrent_ring_safe:
  assumes "0 < n" and "reaches (shared_new n d) st"
  shows "received st = take (length (received st)) (sent st)
    \<and> (\<forall>i. consumer st = Holding i \<longrightarrow> slot (ring st) i = sent st ! length (received st))
    \<and> (\<forall>i x w. consumer st = Holding i \<longrightarrow> producer st = Storing x w \<longrightarrow> w \<noteq> i)
    \<and> (\<exists>st'. producer_step st = ret st') \<and> (\<exists>st'. consumer_step st = ret st')"
proof -
  let ?n = "lf_size (ring st)" and ?s = "length (sent st)" and ?c = "length (received st)"
  have inv: "shared_inv st" by (rule reaches_inv [OF assms(2) shared_inv_new [OF assms(1)]])
  have race: "w \<noteq> i" if pcs: "consumer st = Holding i" "producer st = Storing x w" for i x w
  proof
    assume "w = i"
    then have "?c < ?s" "?s < ?c + ?n" "?c mod ?n = ?s mod ?n" "0 < ?n"
      using inv pcs by (simp_all add: shared_inv_def Let_def taken_def holding_def producer_ok_def consumer_ok_def)
    then show False using mod_window [of ?c ?c ?n ?s] by simp
  qed
  have held: "slot (ring st) i = sent st ! ?c" if "consumer st = Holding i" for i
    using inv that by (simp add: shared_inv_def Let_def consumer_ok_def)
  have "received st = take ?c (sent st)" using inv by (simp add: shared_inv_def Let_def)
  then show ?thesis
    using race held producer_step_inv [OF inv] consumer_step_inv [OF inv] by blast
qed

theorem concurrent_ring_safe_witness:
  "\<exists>st. reaches (shared_new 2 (0 :: nat)) st \<and> producer st = Storing 7 0
     \<and> (\<exists>st'. producer_step st = ret st') \<and> received st = []"
proof -
  let ?st0 = "shared_new 2 (0 :: nat)"
  have "reaches ?st0 (start_push 7 ?st0)"
    by (rule reaches_step [OF reaches_refl Start]) (simp_all add: shared_new_def disciplined_def)
  moreover from concurrent_ring_safe [OF _ this] have "\<exists>st'. producer_step (start_push 7 ?st0) = ret st'" by simp
  moreover have "producer (start_push 7 ?st0) = Storing 7 0" "received (start_push 7 ?st0) = []"
    by (simp_all add: start_push_def shared_new_def LFQueue_new_def)
  ultimately show ?thesis by blast
qed

text \<open>
  C22. Nothing is lost: from every state the two threads can reach, a consumer that keeps calling
  \<open>pop\<close> and reading reads everything that was sent, within six steps for each item.
\<close>

theorem concurrent_ring_delivers:
  assumes "0 < n" and "reaches (shared_new n d) st" and "received st \<noteq> sent st"
  shows "\<exists>k st'. repeat_step k consumer_step st = ret st' \<and> received st' = sent st
    \<and> k \<le> 6 * (length (sent st) - length (received st))"
proof -
  have inv: "shared_inv st" by (rule reaches_inv [OF assms(2) shared_inv_new [OF assms(1)]])
  then obtain k st' where k: "repeat_step k consumer_step st = ret st'" "received st' = sent st" "k \<le> work_left st"
    using consumer_reads_all by blast
  have "steps_left (consumer st) \<le> 6" by (simp add: steps_left_def split: consumer_pc.splits)
  then have "work_left st \<le> 6 * (length (sent st) - length (received st))" by (simp add: work_left_def)
  with k show ?thesis by (meson le_trans)
qed

theorem concurrent_ring_delivers_witness:
  "\<exists>st k st'. reaches (shared_new 2 (0 :: nat)) st \<and> sent st = [7] \<and> received st = []
     \<and> repeat_step k consumer_step st = ret st' \<and> received st' = [7]"
proof -
  let ?st0 = "shared_new 2 (0 :: nat)" and ?q = "LFQueue_new 2 (0 :: nat)"
  let ?st1 = "start_push 7 ?st0"
  let ?st2 = "?st1\<lparr>ring := ?q\<lparr>data_vec := vec_upd 0 7 (data_vec ?q)\<rparr>, producer := Stored 7\<rparr>"
  let ?st3 = "?st2\<lparr>producer := Advancing 7 0\<rparr>"
  let ?st4 = "?st3\<lparr>ring := (ring ?st3)\<lparr>next_write_index := 1\<rparr>, producer := Idle, sent := [7]\<rparr>"
  have defs: "producer_step ?st1 = ret ?st2" "producer_step ?st2 = ret ?st3" "producer_step ?st3 = ret ?st4"
    by (simp_all add: producer_step_def start_push_def shared_new_def LFQueue_new_def lf_size_def)
  have "reaches ?st0 ?st1"
    by (rule reaches_step [OF reaches_refl Start]) (simp_all add: shared_new_def disciplined_def)
  then have "reaches ?st0 ?st2"
    by (rule reaches_step [OF _ Produce [OF defs(1)]]) (simp add: disciplined_def start_push_def)
  then have "reaches ?st0 ?st3"
    by (rule reaches_step [OF _ Produce [OF defs(2)]]) (simp add: disciplined_def)
  then have st4: "reaches ?st0 ?st4"
    by (rule reaches_step [OF _ Produce [OF defs(3)]]) (simp add: disciplined_def)
  have sr: "sent ?st4 = [7]" "received ?st4 = []" by (simp_all add: start_push_def shared_new_def)
  then have "received ?st4 \<noteq> sent ?st4" by simp
  from concurrent_ring_delivers [OF _ st4 this] st4 sr show ?thesis by (metis zero_less_numeral)
qed

end
