(* ===== verification/LF_Queue_Linearizable.thy ===== *)
theory LF_Queue_Linearizable
  imports LF_Queue_Concurrent
begin

text \<open>
  Every call of \<open>push\<close> and \<open>pop\<close> on the ring of \<open>include/communication/lf_queue.h\<close> takes effect at one
  of its steps: \<open>push\<close> when it stores the write index, \<open>pop\<close> when it stores the read index, and a
  \<open>pop\<close> that returns a null pointer when it loads the write index. In the order of these steps
  the calls are a run of the sequential operations, with the same results.
\<close>

section \<open>Histories of calls\<close>

datatype 'a ring_call = Pushed 'a | Popped 'a | Popped_Null

text \<open>The calls that take effect in a step of a thread: at most one.\<close>

definition effect_of :: "'a shared_ring \<Rightarrow> 'a shared_ring \<Rightarrow> 'a ring_call list" where
  "effect_of st st' =
     (case (producer st, producer st') of
        (Advancing x w, Idle) \<Rightarrow> [Pushed x]
      | _ \<Rightarrow>
         (case (consumer st, consumer st') of
            (Advance_Loaded i r, Holding j) \<Rightarrow> [Popped (slot (ring st') j)]
          | (Read_Loaded r, Waiting) \<Rightarrow> [Popped_Null]
          | _ \<Rightarrow> []))"

inductive interleaved :: "'a shared_ring \<Rightarrow> 'a ring_call list \<Rightarrow> 'a shared_ring \<Rightarrow> bool" for st0 where
  interleaved_start: "interleaved st0 [] st0"
| interleaved_step: "interleaved st0 cs st \<Longrightarrow> shared_step st st' \<Longrightarrow> disciplined st st' \<Longrightarrow>
    interleaved st0 (cs @ effect_of st st') st'"

text \<open>Whole calls, one after the other.\<close>

inductive sequential :: "'a LFQueue \<Rightarrow> 'a ring_call list \<Rightarrow> 'a LFQueue \<Rightarrow> bool" for q0 where
  sequential_start: "sequential q0 [] q0"
| sequential_push: "sequential q0 cs q \<Longrightarrow> push x q = ret q' \<Longrightarrow> sequential q0 (cs @ [Pushed x]) q'"
| sequential_pop: "sequential q0 cs q \<Longrightarrow> pop q = (Some i, q') \<Longrightarrow> sequential q0 (cs @ [Popped (slot q' i)]) q'"
| sequential_null: "sequential q0 cs q \<Longrightarrow> pop q = (None, q') \<Longrightarrow> sequential q0 (cs @ [Popped_Null]) q'"

lemma interleaved_reaches: "interleaved st0 cs st \<Longrightarrow> reaches st0 st"
  by (induction rule: interleaved.induct) (auto intro: reaches.intros)

section \<open>Steps and their effects\<close>

text \<open>The ring holds what was sent and not taken yet.\<close>

lemma shared_contents:
  assumes "shared_inv st"
  shows "contents (ring st) = drop (taken st) (sent st)"
proof (rule nth_equalityI)
  show "length (contents (ring st)) = length (drop (taken st) (sent st))"
    using shared_inv_length [OF assms] by simp
  fix k
  let ?n = "lf_size (ring st)"
  assume "k < length (contents (ring st))"
  then have k: "k < length (sent st) - taken st" using shared_inv_length [OF assms] by simp
  have "slot (ring st) ((taken st + k) mod ?n) = sent st ! (taken st + k)"
    "next_read_index (ring st) = taken st mod ?n"
    using assms k by (auto simp: shared_inv_def Let_def taken_def)
  moreover have "contents (ring st) ! k = slot (ring st) ((next_read_index (ring st) + k) mod ?n)"
    using k shared_inv_length [OF assms] by (simp add: contents_def)
  ultimately show "contents (ring st) ! k = drop (taken st) (sent st) ! k"
    using k by (simp add: mod_add_left_eq)
qed

definition matches :: "'a shared_ring \<Rightarrow> 'a LFQueue \<Rightarrow> bool" where
  "matches st q \<longleftrightarrow> lf_ok q \<and> room q = room (ring st) \<and> contents q = contents (ring st)"

lemma matches_same:
  assumes "matches st q" and "shared_inv st" and "shared_inv st'" and "sent st' = sent st" and "taken st' = taken st"
    and "lf_size (ring st') = lf_size (ring st)"
  shows "matches st' q"
  using assms shared_contents [OF assms(2)] shared_contents [OF assms(3)] by (simp add: matches_def room_def)

lemma producer_effect:
  assumes inv: "shared_inv st" and step: "producer_step st = ret st'" and q: "matches st q" "sequential q0 cs q"
  shows "\<exists>q'. matches st' q' \<and> sequential q0 (cs @ effect_of st st') q'"
proof -
  have inv': "shared_inv st'" "lf_size (ring st') = lf_size (ring st)" "consumer st' = consumer st" "received st' = received st"
    using producer_step_inv [OF inv] step by auto
  then have t: "taken st' = taken st" by (simp add: taken_def)
  have quiet: "effect_of st st' = []" if "producer st' \<noteq> Idle \<or> producer st = Idle"
    using that inv'(3) by (auto simp: effect_of_def split: producer_pc.splits consumer_pc.splits)
  show ?thesis
  proof (cases "producer st")
    case (Advancing x w)
    then have st': "sent st' = sent st @ [x]" "effect_of st st' = [Pushed x]"
      using step by (auto simp: producer_step_def effect_of_def)
    have "length (sent st) + 1 < taken st + lf_size (ring st)" "taken st \<le> length (sent st)"
      using inv Advancing by (simp_all add: shared_inv_def Let_def producer_ok_def)
    then have "lf_length q < room q"
      using q(1) length_contents [of q] length_contents [of "ring st"] shared_inv_length [OF inv]
      by (simp add: matches_def room_def)
    then have "contents (push_slot x q) = contents q @ [x]" using q(1) by (simp add: contents_push matches_def)
    moreover have "contents (ring st') = contents (ring st) @ [x]"
      using shared_contents [OF inv] shared_contents [OF inv'(1)] st'(1) t \<open>taken st \<le> length (sent st)\<close> by simp
    ultimately have "matches st' (push_slot x q)" using q(1) inv'(2) by (simp add: matches_def room_def)
    moreover have "sequential q0 (cs @ [Pushed x]) (push_slot x q)"
      using q by (intro sequential_push [OF q(2)]) (simp add: matches_def)
    ultimately show ?thesis unfolding st'(2) by blast
  qed (use step q quiet matches_same [OF q(1) inv inv'(1) _ t inv'(2)] in
      \<open>auto simp: producer_step_def split: if_splits\<close>)
qed

lemma consumer_effect_of:
  assumes "producer st' = producer st"
  shows "effect_of st st' =
      (case (consumer st, consumer st') of
         (Advance_Loaded i r, Holding j) \<Rightarrow> [Popped (slot (ring st') j)]
       | (Read_Loaded r, Waiting) \<Rightarrow> [Popped_Null]
       | _ \<Rightarrow> [])"
  using assms by (auto simp: effect_of_def split: producer_pc.splits)

lemma pop_effect:
  assumes inv: "shared_inv st" and step: "consumer_step st = ret st'" and at: "consumer st = Advance_Loaded i r"
    and q: "matches st q"
  shows "\<exists>j q'. pop q = (Some j, q') \<and> matches st' q' \<and> effect_of st st' = [Popped (slot q' j)]"
proof -
  let ?n = "lf_size (ring st)" and ?c = "length (received st)"
  have inv': "shared_inv st'" "sent st' = sent st" "producer st' = producer st" "lf_size (ring st') = ?n"
    using consumer_step_inv [OF inv] step by auto
  have st': "consumer st' = Holding i" "slot (ring st') i = slot (ring st) i" "taken st = ?c" "taken st' = Suc ?c"
    using step at by (auto simp: consumer_step_def taken_def holding_def)
  have i: "i = ?c mod ?n" "?c < length (sent st)" "slot (ring st) i = sent st ! ?c"
    using inv at by (auto simp: shared_inv_def Let_def consumer_ok_def)
  have "contents q = sent st ! ?c # drop (Suc ?c) (sent st)"
    using q shared_contents [OF inv] st'(3) i(2) by (simp add: matches_def Cons_nth_drop_Suc)
  from pop_nonempty [OF _ this] q obtain q' where
    q': "pop q = (Some (next_read_index q), q')" "lf_ok q'" "contents q' = drop (Suc ?c) (sent st)"
      "slot q' (next_read_index q) = sent st ! ?c" "lf_size q' = lf_size q"
    by (auto simp: matches_def)
  have "matches st' q'"
    using q q'(2,3,5) shared_contents [OF inv'(1)] st'(4) inv'(2,4) by (simp add: matches_def room_def)
  moreover have "effect_of st st' = [Popped (slot q' (next_read_index q))]"
    unfolding consumer_effect_of [OF inv'(3)] using at st'(1,2) i(3) q'(4) by simp
  ultimately show ?thesis using q'(1) by blast
qed

lemma consumer_effect:
  assumes inv: "shared_inv st" and step: "consumer_step st = ret st'" and q: "matches st q" "sequential q0 cs q"
  shows "\<exists>q'. matches st' q' \<and> sequential q0 (cs @ effect_of st st') q'"
proof -
  have inv': "shared_inv st'" "sent st' = sent st" "producer st' = producer st" "lf_size (ring st') = lf_size (ring st)"
    using consumer_step_inv [OF inv] step by auto
  note ef = consumer_effect_of [OF inv'(3)]
  have same: "matches st' q" if "taken st' = taken st"
    by (rule matches_same [OF q(1) inv inv'(1,2) that inv'(4)])
  show ?thesis
  proof (cases "consumer st")
    case (Advance_Loaded i r)
    from pop_effect [OF inv step this q(1)] show ?thesis using sequential_pop [OF q(2)] by force
  next
    case (Read_Loaded r)
    have t: "taken st' = taken st" using step Read_Loaded by (auto simp: consumer_step_def taken_def holding_def)
    show ?thesis
    proof (cases "r = next_write_index (ring st)")
      case True
      then have "effect_of st st' = [Popped_Null]" using step Read_Loaded ef by (auto simp: consumer_step_def)
      moreover have "lf_empty (ring st)"
        using inv Read_Loaded True by (simp add: lf_empty_def shared_inv_def Let_def consumer_ok_def taken_def holding_def)
      then have "pop q = (None, q)"
        using q(1) lf_empty_iff [OF shared_inv_lf_ok [OF inv]] pop_empty [of q] by (simp add: matches_def)
      ultimately show ?thesis using sequential_null [OF q(2)] same [OF t] by auto
    qed (use q(2) same [OF t] step Read_Loaded ef in \<open>auto simp: consumer_step_def\<close>)
  qed (use step q(2) same ef in \<open>auto simp: consumer_step_def taken_def holding_def split: if_splits\<close>)
qed

lemma interleaved_matches:
  assumes "interleaved st0 cs st" and "shared_inv st0" and "matches st0 q0"
  shows "\<exists>q. matches st q \<and> sequential q0 cs q"
  using assms(1)
proof induction
  case interleaved_start
  then show ?case using assms(3) sequential_start by blast
next
  case (interleaved_step cs st st')
  have inv: "shared_inv st" by (rule reaches_inv [OF interleaved_reaches [OF interleaved_step.hyps(1)] assms(2)])
  obtain q where q: "matches st q" "sequential q0 cs q" using interleaved_step.IH by blast
  from interleaved_step.hyps(2) show ?case
  proof cases
    case (Start x)
    have "shared_inv st'"
      using Start interleaved_step.hyps(3) start_push_inv [OF inv] by (auto simp: disciplined_def start_push_def)
    then have "matches st' q"
      by (intro matches_same [OF q(1) inv]) (simp_all add: Start start_push_def taken_def)
    moreover have "effect_of st st' = []"
      using Start by (auto simp: effect_of_def start_push_def split: consumer_pc.splits)
    ultimately show ?thesis using q(2) by auto
  next
    case Produce
    then show ?thesis using producer_effect [OF inv _ q] by simp
  next
    case Consume
    then show ?thesis using consumer_effect [OF inv _ q] by simp
  qed
qed

section \<open>Properties\<close>

text \<open>
  C23. The ring is linearizable. Under every interleaving of the loads and stores of one producer,
  which starts a push only while the ring has room, and one consumer, the calls in the order in
  which they take effect are a run of the sequential \<open>push\<close> and \<open>pop\<close> on a new ring, with the same
  items and null pointers as results; afterwards the sequential ring holds the same items.
\<close>

theorem ring_linearizable:
  assumes "0 < n" and "interleaved (shared_new n d) cs st"
  shows "\<exists>q. sequential (LFQueue_new n d) cs q \<and> contents q = contents (ring st)"
proof -
  have "matches (shared_new n d) (LFQueue_new n d)"
    using assms(1) by (simp add: matches_def shared_new_def lf_ok_new)
  from interleaved_matches [OF assms(2) shared_inv_new [OF assms(1)] this] show ?thesis
    by (auto simp: matches_def)
qed

text \<open>A push that overlaps a pop: the null pointer is returned before the push takes effect.\<close>

theorem ring_linearizable_witness:
  "\<exists>st q. interleaved (shared_new 2 (0 :: nat)) [Popped_Null] st \<and> producer st = Stored 7
     \<and> sequential (LFQueue_new 2 (0 :: nat)) [Popped_Null] q \<and> contents q = []"
proof -
  let ?st0 = "shared_new 2 (0 :: nat)" and ?q = "LFQueue_new 2 (0 :: nat)"
  let ?st1 = "start_push 7 ?st0"
  let ?st2 = "?st1\<lparr>consumer := Read_Loaded 0\<rparr>"
  let ?st3 = "?st2\<lparr>ring := ?q\<lparr>data_vec := vec_upd 0 7 (data_vec ?q)\<rparr>, producer := Stored 7\<rparr>"
  let ?st4 = "?st3\<lparr>consumer := Waiting\<rparr>"
  note defs = producer_step_def consumer_step_def start_push_def shared_new_def LFQueue_new_def lf_size_def
  have steps: "shared_step ?st0 ?st1" "consumer_step ?st1 = ret ?st2" "producer_step ?st2 = ret ?st3"
    "consumer_step ?st3 = ret ?st4"
    by (rule Start) (simp_all add: defs)
  have "interleaved ?st0 ([] @ effect_of ?st0 ?st1) ?st1"
    by (rule interleaved_step [OF interleaved_start steps(1)]) (simp add: disciplined_def shared_new_def)
  then have "interleaved ?st0 (([] @ effect_of ?st0 ?st1) @ effect_of ?st1 ?st2) ?st2"
    by (rule interleaved_step [OF _ Consume [OF steps(2)]]) (simp add: disciplined_def start_push_def)
  then have "interleaved ?st0 ((([] @ effect_of ?st0 ?st1) @ effect_of ?st1 ?st2) @ effect_of ?st2 ?st3) ?st3"
    by (rule interleaved_step [OF _ Produce [OF steps(3)]]) (simp add: disciplined_def start_push_def)
  then have "interleaved ?st0 (((([] @ effect_of ?st0 ?st1) @ effect_of ?st1 ?st2) @ effect_of ?st2 ?st3) @ effect_of ?st3 ?st4) ?st4"
    by (rule interleaved_step [OF _ Consume [OF steps(4)]]) (simp add: disciplined_def start_push_def)
  then have run: "interleaved ?st0 [Popped_Null] ?st4" by (simp add: effect_of_def start_push_def shared_new_def)
  from ring_linearizable [OF _ run] obtain q where
    "sequential ?q [Popped_Null] q" "contents q = contents (ring ?st4)" by auto
  moreover have "contents (ring ?st4) = []" by (simp add: contents_def lf_length_def LFQueue_new_def lf_size_def)
  ultimately show ?thesis using run by (intro exI [of _ ?st4]) auto
qed

end
