(* ===== verification/Socket_Utils.thy ===== *)
theory Socket_Utils
  imports Exchange_Types
begin

text \<open>
  The socket construction of \<open>include/communication/socket_utils.h\<close>. The operating system is a
  parameter: a record of the results of the system calls, functions of the arguments that the
  code computes. The constants are those of macOS, since the server polls with \<open>kqueue\<close>, and the
  byte order is little-endian.
\<close>

unbundle bit_operations_syntax

section \<open>Addresses\<close>

definition htons :: "16 word \<Rightarrow> 16 word" where
  "htons x = (push_bit 8 x OR drop_bit 8 x)"

definition htonl :: "32 word \<Rightarrow> 32 word" where
  "htonl x = (push_bit 24 x OR (push_bit 8 x AND 0x00FF0000) OR (drop_bit 8 x AND 0x0000FF00) OR drop_bit 24 x)"

record sockaddr_in =
  sin_family :: "8 word"
  sin_port :: "16 word"
  sin_addr :: "32 word"

definition AF_INET :: "8 word" where "AF_INET = 2"
definition INADDR_ANY :: "32 word" where "INADDR_ANY = 0"

definition createSockaddrIn :: "16 word \<Rightarrow> sockaddr_in" where
  "createSockaddrIn port = sockaddr_in.make AF_INET (htons port) (htonl INADDR_ANY)"

lemma bit_htons: "bit (htons x) n \<longleftrightarrow> n < 16 \<and> bit x (if n < 8 then n + 8 else n - 8)"
  using bit_imp_le_length [of x "n + 8"]
  by (auto simp: htons_def bit_or_iff bit_push_bit_iff bit_drop_bit_eq add.commute)

lemma htons_htons [simp]: "htons (htons x) = x"
  by (rule bit_word_eqI) (auto simp: bit_htons)

lemma htons_eq_iff [simp]: "htons x = htons y \<longleftrightarrow> x = y"
  by (metis htons_htons)

text \<open>The address determines the 16 bits of the port; a larger port of the settings wraps around.\<close>

lemma createSockaddrIn_port: "htons (sin_port (createSockaddrIn p)) = p"
  by (simp add: createSockaddrIn_def sockaddr_in.make_def)

lemma port_wraps:
  "createSockaddrIn (word_of_int port) = createSockaddrIn (word_of_int port')
     \<longleftrightarrow> port mod 65536 = port' mod 65536"
  by (simp add: createSockaddrIn_def sockaddr_in.make_def word_of_int_eq_iff take_bit_eq_mod)

section \<open>Settings and system calls\<close>

record SocketCfg =
  cfg_ip :: string
  cfg_iface :: string
  cfg_port :: int
  is_udp :: bool
  is_listening :: bool
  needs_so_timestamp :: bool

datatype ai_flag = AI_PASSIVE | AI_NUMERICHOST | AI_NUMERICSERV
datatype socktype = SOCK_DGRAM | SOCK_STREAM
datatype protocol = IPPROTO_UDP | IPPROTO_TCP

record addrinfo =
  ai_flags :: "ai_flag list"
  ai_family :: "8 word"
  ai_socktype :: socktype
  ai_protocol :: protocol

definition MaxTCPServerBacklog :: nat where "MaxTCPServerBacklog = 1024"
definition O_NONBLOCK :: "32 word" where "O_NONBLOCK = 4"

text \<open>
  The results of the system calls, in the order of the source. An entry of the interface list has
  a name, and a numeric address if it is an \<open>AF_INET\<close> one; \<open>rc_getaddrinfo\<close> gets the address, the
  service and the hints, and \<open>found\<close> lists the addresses it stores.
\<close>

record socket_calls =
  rc_getifaddrs :: int
  ifaddrs :: "(string \<times> string option) list"
  rc_getaddrinfo :: "string \<Rightarrow> string \<Rightarrow> addrinfo \<Rightarrow> int"
  found :: "sockaddr_in list"
  rc_socket :: int
  rc_getfl :: "32 word"
  rc_setfl :: "32 word \<Rightarrow> int"
  rc_nodelay :: int
  rc_connect :: "sockaddr_in \<Rightarrow> int"
  rc_reuseaddr :: int
  rc_bind :: "sockaddr_in \<Rightarrow> int"
  rc_listen :: "nat \<Rightarrow> int"
  rc_timestamp :: int

primrec find_iface :: "(string \<times> string option) list \<Rightarrow> string \<Rightarrow> string" where
  "find_iface [] iface = ''''"
| "find_iface (ifa # ifas) iface =
     (case ifa of
        (name, Some address) \<Rightarrow> if iface = name then address else find_iface ifas iface
      | (_, None) \<Rightarrow> find_iface ifas iface)"

definition getIfaceIP :: "socket_calls \<Rightarrow> string \<Rightarrow> string" where
  "getIfaceIP c iface = (if rc_getifaddrs c \<noteq> - 1 then find_iface (ifaddrs c) iface else '''')"

definition setNonBlocking :: "socket_calls \<Rightarrow> bool" where
  "setNonBlocking c =
     (let flags = rc_getfl c
      in if flags AND O_NONBLOCK \<noteq> 0 then True else rc_setfl c (flags OR O_NONBLOCK) \<noteq> - 1)"

definition disableNagle :: "socket_calls \<Rightarrow> bool" where
  "disableNagle c \<longleftrightarrow> rc_nodelay c \<noteq> - 1"

definition setSOTimestamp :: "socket_calls \<Rightarrow> bool" where
  "setSOTimestamp c \<longleftrightarrow> rc_timestamp c \<noteq> - 1"

section \<open>Creating a socket\<close>

fun to_string :: "nat \<Rightarrow> string" where
  "to_string n = (if n < 10 then [char_of (48 + n)] else to_string (n div 10) @ [char_of (48 + n mod 10)])"

declare to_string.simps [simp del]

definition int_to_string :: "int \<Rightarrow> string" where
  "int_to_string i = (if i < 0 then CHR ''-'' # to_string (nat (- i)) else to_string (nat i))"

definition hints :: "SocketCfg \<Rightarrow> addrinfo" where
  "hints cfg =
     addrinfo.make ((if is_listening cfg then [AI_PASSIVE] else []) @ [AI_NUMERICHOST, AI_NUMERICSERV]) AF_INET
       (if is_udp cfg then SOCK_DGRAM else SOCK_STREAM) (if is_udp cfg then IPPROTO_UDP else IPPROTO_TCP)"

definition guard :: "bool \<Rightarrow> unit outcome \<Rightarrow> unit outcome" where
  "guard b m = (if b then m else ret ())"

text \<open>Only the first address is used: the loop over the addresses ends with \<open>break\<close>.\<close>

definition createSocket :: "socket_calls \<Rightarrow> SocketCfg \<Rightarrow> int outcome" where
  "createSocket c cfg =
     (let ip = (if cfg_ip cfg = '''' then getIfaceIP c (cfg_iface cfg) else cfg_ip cfg) in
     obind (ASSERT (rc_getaddrinfo c ip (int_to_string (cfg_port cfg)) (hints cfg) = 0)
              ''getaddrinfo() failed. error:'') (\<lambda>_.
     case found c of [] \<Rightarrow> ret (- 1) | ai_addr # _ \<Rightarrow>
     obind (ASSERT (rc_socket c \<noteq> - 1) ''socket() failed. errno:'') (\<lambda>_.
     obind (ASSERT (setNonBlocking c) ''setNonBlocking() failed. errno:'') (\<lambda>_.
     obind (guard (\<not> is_udp cfg) (ASSERT (disableNagle c) ''disableNagle() failed. errno:'')) (\<lambda>_.
     obind (guard (\<not> is_listening cfg) (ASSERT (rc_connect c ai_addr \<noteq> 1) ''connect() failed. errno:'')) (\<lambda>_.
     obind (guard (is_listening cfg)
              (ASSERT (rc_reuseaddr c = 0) ''setsockopt() SO_REUSEADDR failed. errno:'')) (\<lambda>_.
     obind (guard (is_listening cfg)
              (let addr = createSockaddrIn (word_of_int (cfg_port cfg))
               in ASSERT (rc_bind c (if is_udp cfg then addr else ai_addr) = 0) ''bind() failed. errno:%'')) (\<lambda>_.
     obind (guard (\<not> is_udp cfg \<and> is_listening cfg)
              (ASSERT (rc_listen c MaxTCPServerBacklog = 0) ''listen() failed. errno:'')) (\<lambda>_.
     obind (guard (needs_so_timestamp cfg)
              (ASSERT (setSOTimestamp c) ''setSOTimestamp() failed. errno:'')) (\<lambda>_.
     ret (rc_socket c)))))))))))"

text \<open>
  The result of \<open>connect\<close> is compared with 1, which it never returns: a client whose connection is
  refused gets a descriptor all the same. For listening sockets every failing call is noticed,
  except that of \<open>fcntl\<close> for the flags, whose result \<open>- 1\<close> has the bit of \<open>O_NONBLOCK\<close>.
\<close>

lemma failed_connect_is_not_noticed:
  assumes "\<not> is_listening cfg" and "\<not> needs_so_timestamp cfg" and "cfg_ip cfg \<noteq> ''''"
    and "rc_getaddrinfo c (cfg_ip cfg) (int_to_string (cfg_port cfg)) (hints cfg) = 0"
    and "found c = ai_addr # rest" and "rc_socket c \<noteq> - 1"
    and "setNonBlocking c" and "disableNagle c" and "rc_connect c ai_addr = - 1"
  shows "createSocket c cfg = ret (rc_socket c)"
  using assms by (simp add: createSocket_def ASSERT_def guard_def)

lemma listening_socket_is_bound:
  assumes "createSocket c cfg = ret fd" and "is_listening cfg" and "\<not> is_udp cfg" and "fd \<noteq> - 1"
  shows "\<exists>addr rest. found c = addr # rest \<and> fd = rc_socket c \<and> setNonBlocking c \<and> disableNagle c
    \<and> rc_reuseaddr c = 0 \<and> rc_bind c addr = 0 \<and> rc_listen c MaxTCPServerBacklog = 0
    \<and> (needs_so_timestamp cfg \<longrightarrow> setSOTimestamp c)"
  using assms by (auto simp: createSocket_def ASSERT_def guard_def Let_def split: if_splits list.splits)

text \<open>A datagram socket is bound to the wildcard address and to its port modulo \<open>2 ^ 16\<close>.\<close>

lemma udp_socket_is_bound:
  assumes "createSocket c cfg = ret fd" and "is_listening cfg" and "is_udp cfg" and "fd \<noteq> - 1"
  shows "rc_bind c (createSockaddrIn (word_of_int (cfg_port cfg))) = 0 \<and> fd = rc_socket c"
  using assms by (auto simp: createSocket_def ASSERT_def guard_def Let_def split: if_splits list.splits)

lemma failed_getfl_is_not_noticed: "rc_getfl c = - 1 \<Longrightarrow> setNonBlocking c"
  by (simp add: setNonBlocking_def O_NONBLOCK_def)

end
