(* ===== verification/Tcp_Socket.thy ===== *)
theory Tcp_Socket
  imports Socket_Utils
begin

text \<open>
  The buffered socket of \<open>include/communication/tcp_socket.h\<close>. The kernel is a parameter: what
  \<open>recvmsg\<close> delivered and how many bytes of the send buffer \<open>::send\<close> took (none when it fails)
  are arguments of \<open>sendAndRecv\<close>. A \<open>std::function\<close> is a handle, \<open>None\<close> when it is empty; the code
  behind a handle is a parameter too, a function on the socket it is called for and on an
  environment of any type, whatever the callback captured.
\<close>

section \<open>State and operations\<close>

type_synonym byte = "8 word"

definition TCPBufferSize :: nat where "TCPBufferSize = 64 * 1024 * 1024"

definition NANOS_TO_MICROS :: NsTimestampT where "NANOS_TO_MICROS = 1000"
definition MICROS_TO_MILLIS :: NsTimestampT where "MICROS_TO_MILLIS = 1000"
definition MILLIS_TO_SECS :: NsTimestampT where "MILLIS_TO_SECS = 1000"
definition NANOS_TO_MILLIS :: NsTimestampT where "NANOS_TO_MILLIS = NANOS_TO_MICROS * MICROS_TO_MILLIS"
definition NANOS_TO_SECS :: NsTimestampT where "NANOS_TO_SECS = NANOS_TO_MILLIS * MILLIS_TO_SECS"

record TCPSocket =
  socket_fd :: int
  outbound_data :: "byte vec"
  next_send_valid_index :: nat
  inbound_data :: "byte vec"
  next_rcv_valid_index :: nat
  socket_attrib :: sockaddr_in
  recv_callback :: "nat option"

definition TCPSocket_new :: TCPSocket where
  "TCPSocket_new =
     \<lparr>socket_fd = - 1, outbound_data = vec_new TCPBufferSize 0, next_send_valid_index = 0,
      inbound_data = vec_new TCPBufferSize 0, next_rcv_valid_index = 0,
      socket_attrib = sockaddr_in.make 0 0 0, recv_callback = None\<rparr>"

definition TCPSocket_connect :: "socket_calls \<Rightarrow> SocketCfg \<Rightarrow> TCPSocket \<Rightarrow> (int \<times> TCPSocket) outcome" where
  "TCPSocket_connect c cfg s =
     obind (createSocket c cfg) (\<lambda>fd.
     let s1 = s\<lparr>socket_fd := fd\<rparr>;
         attrib = (socket_attrib s1)\<lparr>sin_addr := INADDR_ANY, sin_port := htons (word_of_int (cfg_port cfg)),
                    sin_family := AF_INET\<rparr>
     in ret (socket_fd s1, s1\<lparr>socket_attrib := attrib\<rparr>))"

definition vec_write :: "nat \<Rightarrow> 'a list \<Rightarrow> 'a vec \<Rightarrow> 'a vec" where
  "vec_write i bs v =
     v\<lparr>elem := (\<lambda>j. if i \<le> j \<and> j < i + length bs then bs ! (j - i) else elem v j)\<rparr>"

text \<open>\<open>memcpy\<close> into the send buffer; the source does not compare the length with the room left.\<close>

definition TCPSocket_send :: "byte list \<Rightarrow> TCPSocket \<Rightarrow> TCPSocket outcome" where
  "TCPSocket_send data s =
     (if next_send_valid_index s + length data \<le> size_of (outbound_data s)
      then ret (s\<lparr>outbound_data := vec_write (next_send_valid_index s) data (outbound_data s),
                  next_send_valid_index := next_send_valid_index s + length data\<rparr>)
      else throw Out_Of_Range)"

text \<open>
  What \<open>recvmsg\<close> delivered: the bytes (none for an error, an empty queue or a closed peer) and the
  receive time of the control message, in seconds and microseconds, if there is one.
\<close>

record recv_result =
  rx_bytes :: "byte list"
  rx_time :: "(int \<times> int) option"

definition kernel_time :: "recv_result \<Rightarrow> NsTimestampT" where
  "kernel_time r =
     (case rx_time r of
        None \<Rightarrow> 0
      | Some (tv_sec, tv_usec) \<Rightarrow> tv_sec * NANOS_TO_SECS + tv_usec * NANOS_TO_MICROS)"

type_synonym 'e recv_callback = "TCPSocket \<Rightarrow> NsTimestampT \<Rightarrow> 'e \<Rightarrow> (TCPSocket \<times> 'e) outcome"

definition call :: "(nat \<Rightarrow> 'e recv_callback) \<Rightarrow> 'e recv_callback" where
  "call code s t e =
     (case recv_callback s of
        None \<Rightarrow> throw (Uncaught ''bad_function_call'')
      | Some h \<Rightarrow> code h s t e)"

text \<open>
  Result: whether something was read, the bytes that left the socket, the socket and the
  environment. The kernel never delivers more than the room it was offered; more would be
  outside the buffer.
\<close>

definition TCPSocket_sendAndRecv ::
  "recv_result \<Rightarrow> (byte list \<Rightarrow> nat) \<Rightarrow> (nat \<Rightarrow> 'e recv_callback) \<Rightarrow> TCPSocket \<Rightarrow> 'e
    \<Rightarrow> (bool \<times> byte list \<times> TCPSocket \<times> 'e) outcome" where
  "TCPSocket_sendAndRecv r ksend code s e =
     (let read_size = length (rx_bytes r) in
      if size_of (inbound_data s) < next_rcv_valid_index s + read_size then throw Out_Of_Range else
      obind
        (if read_size > 0 then
           let s1 = s\<lparr>inbound_data := vec_write (next_rcv_valid_index s) (rx_bytes r) (inbound_data s),
                      next_rcv_valid_index := next_rcv_valid_index s + read_size\<rparr>
           in call code s1 (kernel_time r) e
         else ret (s, e))
        (\<lambda>(s2, e2).
          let buf = map (elem (outbound_data s2)) [0..<next_send_valid_index s2];
              wire = (if next_send_valid_index s2 > 0 then take (ksend buf) buf else [])
          in ret (read_size > 0, wire, s2\<lparr>next_send_valid_index := 0\<rparr>, e2)))"

section \<open>The bytes in the buffers\<close>

definition outgoing :: "TCPSocket \<Rightarrow> byte list" where
  "outgoing s = map (elem (outbound_data s)) [0..<next_send_valid_index s]"

definition incoming :: "TCPSocket \<Rightarrow> byte list" where
  "incoming s = map (elem (inbound_data s)) [0..<next_rcv_valid_index s]"

definition socket_ok :: "TCPSocket \<Rightarrow> bool" where
  "socket_ok s \<longleftrightarrow> size_of (outbound_data s) = TCPBufferSize \<and> size_of (inbound_data s) = TCPBufferSize
     \<and> next_send_valid_index s \<le> TCPBufferSize \<and> next_rcv_valid_index s \<le> TCPBufferSize"

lemma vec_write_simps [simp]:
  "size_of (vec_write i bs v) = size_of v"
  "elem (vec_write i bs v) j = (if i \<le> j \<and> j < i + length bs then bs ! (j - i) else elem v j)"
  by (simp_all add: vec_write_def)

lemma vec_write_list:
  "map (elem (vec_write n bs v)) [0..<n + length bs] = map (elem v) [0..<n] @ bs"
  by (rule nth_equalityI) (auto simp: nth_append)

lemma length_buffers [simp]:
  "length (outgoing s) = next_send_valid_index s" "length (incoming s) = next_rcv_valid_index s"
  by (simp_all add: outgoing_def incoming_def)

lemma socket_ok_new [wf_intros]: "socket_ok TCPSocket_new"
  by (simp add: socket_ok_def TCPSocket_new_def)

lemma TCPSocket_new_empty [simp]: "outgoing TCPSocket_new = []" "incoming TCPSocket_new = []"
  by (simp_all add: outgoing_def incoming_def TCPSocket_new_def)

lemma send_appends:
  assumes "socket_ok s" and "length (outgoing s) + length data \<le> TCPBufferSize"
  shows "\<exists>s'. TCPSocket_send data s = ret s' \<and> socket_ok s' \<and> outgoing s' = outgoing s @ data
    \<and> incoming s' = incoming s"
  using assms by (simp add: TCPSocket_send_def socket_ok_def outgoing_def incoming_def vec_write_list)

lemma send_overflow:
  "socket_ok s \<Longrightarrow> TCPBufferSize < length (outgoing s) + length data \<Longrightarrow>
     TCPSocket_send data s = throw Out_Of_Range"
  by (simp add: TCPSocket_send_def socket_ok_def)

lemma sendAndRecv_eq:
  "TCPSocket_sendAndRecv r ksend code s e =
     (if size_of (inbound_data s) < next_rcv_valid_index s + length (rx_bytes r) then throw Out_Of_Range
      else obind
        (if rx_bytes r \<noteq> [] then
           call code (s\<lparr>inbound_data := vec_write (next_rcv_valid_index s) (rx_bytes r) (inbound_data s),
             next_rcv_valid_index := next_rcv_valid_index s + length (rx_bytes r)\<rparr>) (kernel_time r) e
         else ret (s, e))
        (\<lambda>(s2, e2). ret (rx_bytes r \<noteq> [], take (ksend (outgoing s2)) (outgoing s2),
           s2\<lparr>next_send_valid_index := 0\<rparr>, e2)))"
proof -
  have "(if next_send_valid_index s2 > 0 then take (ksend (outgoing s2)) (outgoing s2) else [])
      = take (ksend (outgoing s2)) (outgoing s2)" for s2
    by (cases "next_send_valid_index s2 > 0") (simp_all add: outgoing_def)
  then show ?thesis
    unfolding TCPSocket_sendAndRecv_def Let_def outgoing_def [symmetric] by simp
qed

text \<open>One round without data to read, and one with data.\<close>

lemma round_idle:
  assumes "socket_ok s" and "rx_bytes r = []"
  shows "\<exists>s'. TCPSocket_sendAndRecv r ksend code s e = ret (False, take (ksend (outgoing s)) (outgoing s), s', e)
    \<and> socket_ok s' \<and> outgoing s' = [] \<and> incoming s' = incoming s \<and> recv_callback s' = recv_callback s
    \<and> socket_fd s' = socket_fd s"
  using assms by (simp add: sendAndRecv_eq socket_ok_def) (simp add: outgoing_def incoming_def)

lemma round_receives:
  assumes "socket_ok s" and "rx_bytes r = bs" and "bs \<noteq> []" and "length (incoming s) + length bs \<le> TCPBufferSize"
    and "recv_callback s = Some h"
  shows "\<exists>s1. socket_ok s1 \<and> incoming s1 = incoming s @ bs \<and> outgoing s1 = outgoing s
    \<and> recv_callback s1 = recv_callback s \<and> socket_fd s1 = socket_fd s
    \<and> TCPSocket_sendAndRecv r ksend code s e =
        obind (code h s1 (kernel_time r) e) (\<lambda>(s2, e2).
          ret (True, take (ksend (outgoing s2)) (outgoing s2), s2\<lparr>next_send_valid_index := 0\<rparr>, e2))"
proof -
  let ?s1 = "s\<lparr>inbound_data := vec_write (next_rcv_valid_index s) bs (inbound_data s),
      next_rcv_valid_index := next_rcv_valid_index s + length bs\<rparr>"
  have "socket_ok ?s1" "incoming ?s1 = incoming s @ bs" "outgoing ?s1 = outgoing s"
    using assms by (simp_all add: socket_ok_def incoming_def outgoing_def vec_write_list)
  moreover have "TCPSocket_sendAndRecv r ksend code s e =
        obind (code h ?s1 (kernel_time r) e) (\<lambda>(s2, e2).
          ret (True, take (ksend (outgoing s2)) (outgoing s2), s2\<lparr>next_send_valid_index := 0\<rparr>, e2))"
    using assms by (simp add: sendAndRecv_eq socket_ok_def call_def)
  moreover have "recv_callback ?s1 = recv_callback s" "socket_fd ?s1 = socket_fd s" by simp_all
  ultimately show ?thesis by blast
qed

lemma flushed [simp]:
  "outgoing (s\<lparr>next_send_valid_index := 0\<rparr>) = []" "incoming (s\<lparr>next_send_valid_index := 0\<rparr>) = incoming s"
  "socket_ok s \<Longrightarrow> socket_ok (s\<lparr>next_send_valid_index := 0\<rparr>)"
  by (simp_all add: outgoing_def incoming_def socket_ok_def)

section \<open>Receive callbacks\<close>

text \<open>
  What a receive callback promises: called on a socket that satisfies its precondition it
  returns, it keeps the buffers well formed, it consumes what was received, and what it does to
  its environment depends on the descriptor, the bytes and the time only.
\<close>

locale recv_handler =
  fixes handler :: "'e recv_callback" and pre :: "TCPSocket \<Rightarrow> bool" and reply :: "byte list \<Rightarrow> byte list"
    and effect :: "int \<Rightarrow> byte list \<Rightarrow> NsTimestampT \<Rightarrow> 'e \<Rightarrow> 'e"
  assumes handles: "socket_ok s \<Longrightarrow> pre s \<Longrightarrow>
    \<exists>s'. handler s t e = ret (s', effect (socket_fd s) (incoming s) t e) \<and> socket_ok s' \<and> incoming s' = []
      \<and> outgoing s' = outgoing s @ reply (incoming s) \<and> recv_callback s' = recv_callback s
      \<and> socket_fd s' = socket_fd s"
begin

lemma round_replies:
  assumes s: "socket_ok s" "incoming s = []" "recv_callback s = Some h" "code h = handler"
    and r: "rx_bytes r \<noteq> []" "length (rx_bytes r) \<le> TCPBufferSize"
    and pre: "\<And>s1. socket_ok s1 \<Longrightarrow> incoming s1 = rx_bytes r \<Longrightarrow> outgoing s1 = outgoing s \<Longrightarrow> pre s1"
  shows "\<exists>s'. TCPSocket_sendAndRecv r ksend code s e =
      ret (True, take (ksend (outgoing s @ reply (rx_bytes r))) (outgoing s @ reply (rx_bytes r)), s',
        effect (socket_fd s) (rx_bytes r) (kernel_time r) e)
    \<and> socket_ok s' \<and> incoming s' = [] \<and> outgoing s' = [] \<and> recv_callback s' = Some h
    \<and> socket_fd s' = socket_fd s"
proof -
  obtain s1 where s1: "socket_ok s1" "incoming s1 = rx_bytes r" "outgoing s1 = outgoing s" "recv_callback s1 = Some h"
    "socket_fd s1 = socket_fd s"
    "TCPSocket_sendAndRecv r ksend code s e =
        obind (code h s1 (kernel_time r) e) (\<lambda>(s2, e2).
          ret (True, take (ksend (outgoing s2)) (outgoing s2), s2\<lparr>next_send_valid_index := 0\<rparr>, e2))"
    using round_receives [OF s(1) refl r(1) _ s(3), of ksend code e] r(2) s(2,3)
    by (auto simp del: length_buffers)
  from handles [OF s1(1) pre [OF s1(1-3)], of "kernel_time r" e] s1(2-5) obtain s2 where
    "handler s1 (kernel_time r) e = ret (s2, effect (socket_fd s) (rx_bytes r) (kernel_time r) e)"
    "socket_ok s2" "incoming s2 = []"
    "outgoing s2 = outgoing s @ reply (rx_bytes r)" "recv_callback s2 = Some h" "socket_fd s2 = socket_fd s"
    by auto
  then show ?thesis using s1(6) s(4) by (intro exI [of _ "s2\<lparr>next_send_valid_index := 0\<rparr>"]) simp
qed

end

text \<open>
  The callbacks of \<open>standalone/socket_example.cpp\<close>: the server answers each message with a text
  that repeats it, the client only reads. Their environment is the output of the program, the
  values that each \<open>printf\<close> is given; the client prints the length after it has reset it.
\<close>

datatype printed =
  Creating string int
| Connecting nat string string int
| Sending nat string
| Server_Received int nat NsTimestampT
| Recv_Finished
| Client_Received int nat NsTimestampT "byte list"

definition bytes_of :: "string \<Rightarrow> byte list" where
  "bytes_of = map of_char"

definition greeting :: "byte list" where
  "greeting = bytes_of ''TCPServer received msg:''"

definition tcpServerRecvCallback :: "printed list recv_callback" where
  "tcpServerRecvCallback socket t out =
     (let out' = out @ [Server_Received (socket_fd socket) (next_rcv_valid_index socket) t];
          reply = greeting @ map (elem (inbound_data socket)) [0..<next_rcv_valid_index socket] in
      obind (TCPSocket_send reply (socket\<lparr>next_rcv_valid_index := 0\<rparr>)) (\<lambda>s. ret (s, out')))"

definition tcpClientRecvCallback :: "printed list recv_callback" where
  "tcpClientRecvCallback socket t out =
     (let recv_msg = map (elem (inbound_data socket)) [0..<next_rcv_valid_index socket];
          socket' = socket\<lparr>next_rcv_valid_index := 0\<rparr>
      in ret (socket', out @ [Client_Received (socket_fd socket') (next_rcv_valid_index socket') t recv_msg]))"

definition server_prints :: "int \<Rightarrow> byte list \<Rightarrow> NsTimestampT \<Rightarrow> printed list \<Rightarrow> printed list" where
  "server_prints fd bs t out = out @ [Server_Received fd (length bs) t]"

definition client_prints :: "int \<Rightarrow> byte list \<Rightarrow> NsTimestampT \<Rightarrow> printed list \<Rightarrow> printed list" where
  "client_prints fd bs t out = out @ [Client_Received fd 0 t bs]"

definition reply_fits :: "TCPSocket \<Rightarrow> bool" where
  "reply_fits s \<longleftrightarrow> length (outgoing s) + length greeting + length (incoming s) \<le> TCPBufferSize"

lemma consumed [simp]:
  "incoming (s\<lparr>next_rcv_valid_index := 0\<rparr>) = []" "outgoing (s\<lparr>next_rcv_valid_index := 0\<rparr>) = outgoing s"
  "socket_ok s \<Longrightarrow> socket_ok (s\<lparr>next_rcv_valid_index := 0\<rparr>)"
  by (simp_all add: outgoing_def incoming_def socket_ok_def)

lemma send_keeps:
  assumes "TCPSocket_send data s = ret s'"
  shows "recv_callback s' = recv_callback s" "socket_fd s' = socket_fd s"
  using assms by (auto simp: TCPSocket_send_def split: if_splits)

interpretation server_cb: recv_handler tcpServerRecvCallback reply_fits "\<lambda>bs. greeting @ bs" server_prints
proof
  fix s :: TCPSocket and t :: NsTimestampT and e :: "printed list"
  assume s: "socket_ok s" "reply_fits s"
  let ?s1 = "s\<lparr>next_rcv_valid_index := 0\<rparr>"
  obtain s' where send: "TCPSocket_send (greeting @ incoming s) ?s1 = ret s'" and s': "socket_ok s'"
    "outgoing s' = outgoing s @ greeting @ incoming s" "incoming s' = []"
    using send_appends [of ?s1 "greeting @ incoming s"] s by (auto simp: reply_fits_def)
  from send s' send_keeps [OF send]
  show "\<exists>s'. tcpServerRecvCallback s t e = ret (s', server_prints (socket_fd s) (incoming s) t e)
      \<and> socket_ok s' \<and> incoming s' = [] \<and> outgoing s' = outgoing s @ greeting @ incoming s
      \<and> recv_callback s' = recv_callback s \<and> socket_fd s' = socket_fd s"
    by (simp add: tcpServerRecvCallback_def incoming_def server_prints_def)
qed

interpretation client_cb: recv_handler tcpClientRecvCallback "\<lambda>_. True" "\<lambda>_. []" client_prints
  by unfold_locales (simp add: tcpClientRecvCallback_def client_prints_def incoming_def [symmetric])

section \<open>Properties\<close>

text \<open>
  A request and its reply make the round trip: what a client writes to its send buffer leaves
  with its next round when the kernel takes all of it, the server's callback answers in the
  round that receives it, and the answer reaches the client, whose callback prints it. Both
  sockets are left with empty buffers. The length that the client prints is always 0.
\<close>

theorem request_reply_round_trip:
  assumes "socket_ok c" and "outgoing c = []" and "incoming c = []" and "recv_callback c = Some hc"
    and "socket_ok p" and "outgoing p = []" and "incoming p = []" and "recv_callback p = Some hp"
    and "code hc = tcpClientRecvCallback" and "code hp = tcpServerRecvCallback"
    and "data \<noteq> []" and "length greeting + length data \<le> TCPBufferSize" and "\<And>buf. ksend buf = length buf"
    and "r0 = \<lparr>rx_bytes = [], rx_time = t0\<rparr>" and "r1 = \<lparr>rx_bytes = data, rx_time = t1\<rparr>"
    and "r2 = \<lparr>rx_bytes = greeting @ data, rx_time = t2\<rparr>"
  shows "\<exists>c1 c2 p1 c3. TCPSocket_send data c = ret c1
    \<and> TCPSocket_sendAndRecv r0 ksend code c1 out = ret (False, data, c2, out)
    \<and> TCPSocket_sendAndRecv r1 ksend code p out =
        ret (True, greeting @ data, p1, out @ [Server_Received (socket_fd p) (length data) (kernel_time r1)])
    \<and> TCPSocket_sendAndRecv r2 ksend code c2 out =
        ret (True, [], c3, out @ [Client_Received (socket_fd c) 0 (kernel_time r2) (greeting @ data)])
    \<and> outgoing p1 = [] \<and> incoming p1 = [] \<and> outgoing c3 = [] \<and> incoming c3 = []"
proof -
  obtain c1 where c1: "TCPSocket_send data c = ret c1" "socket_ok c1" "outgoing c1 = data" "incoming c1 = []"
    using send_appends [OF assms(1), of data] assms(2,3,12) by auto
  have cb: "recv_callback c1 = Some hc" "socket_fd c1 = socket_fd c" using send_keeps [OF c1(1)] assms(4) by simp_all
  obtain c2 where c2: "TCPSocket_sendAndRecv r0 ksend code c1 out = ret (False, data, c2, out)"
    "socket_ok c2" "outgoing c2 = []" "incoming c2 = []" "recv_callback c2 = Some hc" "socket_fd c2 = socket_fd c"
    using round_idle [OF c1(2), of r0 ksend code out] c1(3,4) assms(13,14) cb by auto
  have "reply_fits s1" if "incoming s1 = data" "outgoing s1 = outgoing p" for s1
    using that assms(6,12) by (simp add: reply_fits_def del: length_buffers)
  then obtain p1 where "TCPSocket_sendAndRecv r1 ksend code p out =
      ret (True, greeting @ data, p1, server_prints (socket_fd p) data (kernel_time r1) out)"
    "outgoing p1 = []" "incoming p1 = []"
    using server_cb.round_replies [where code = code and h = hp, OF assms(5,7,8,10), of r1 ksend out]
      assms(6,11,12,13,15) by auto
  moreover obtain c3 where "TCPSocket_sendAndRecv r2 ksend code c2 out =
      ret (True, [], c3, client_prints (socket_fd c) (greeting @ data) (kernel_time r2) out)"
    "outgoing c3 = []" "incoming c3 = []"
    using client_cb.round_replies [where code = code and h = hc, OF c2(2,4,5) assms(9), of r2 ksend out]
      assms(11,12,16) c2(3,6) by auto
  ultimately show ?thesis using c1(1) c2(1) by (auto simp: server_prints_def client_prints_def)
qed

theorem request_reply_round_trip_witness:
  "\<exists>c1 c2 p1 c3. TCPSocket_send [1, 2] (TCPSocket_new\<lparr>recv_callback := Some 0\<rparr>) = ret c1
     \<and> TCPSocket_sendAndRecv \<lparr>rx_bytes = [], rx_time = None\<rparr> length
         (\<lambda>h. if h = 0 then tcpClientRecvCallback else tcpServerRecvCallback) c1 [] = ret (False, [1, 2], c2, [])
     \<and> TCPSocket_sendAndRecv \<lparr>rx_bytes = [1, 2], rx_time = None\<rparr> length
         (\<lambda>h. if h = 0 then tcpClientRecvCallback else tcpServerRecvCallback)
         (TCPSocket_new\<lparr>recv_callback := Some 1\<rparr>) [] = ret (True, greeting @ [1, 2], p1, [Server_Received (- 1) 2 0])
     \<and> TCPSocket_sendAndRecv \<lparr>rx_bytes = greeting @ [1, 2], rx_time = None\<rparr> length
         (\<lambda>h. if h = 0 then tcpClientRecvCallback else tcpServerRecvCallback) c2 []
         = ret (True, [], c3, [Client_Received (- 1) 0 0 (greeting @ [1, 2])])
     \<and> outgoing p1 = [] \<and> incoming p1 = [] \<and> outgoing c3 = [] \<and> incoming c3 = []"
proof -
  have fits: "length greeting + length [1 :: byte, 2] \<le> TCPBufferSize"
    by (simp add: greeting_def bytes_of_def TCPBufferSize_def)
  have new: "socket_ok (TCPSocket_new\<lparr>recv_callback := Some h\<rparr>)" "outgoing (TCPSocket_new\<lparr>recv_callback := Some h\<rparr>) = []"
    "incoming (TCPSocket_new\<lparr>recv_callback := Some h\<rparr>) = []" "socket_fd (TCPSocket_new\<lparr>recv_callback := Some h\<rparr>) = - 1" for h
    using socket_ok_new by (simp_all add: socket_ok_def outgoing_def incoming_def TCPSocket_new_def)
  have "kernel_time \<lparr>rx_bytes = bs, rx_time = None\<rparr> = 0" for bs by (simp add: kernel_time_def)
  then show ?thesis
    using request_reply_round_trip [where hc = 0 and hp = 1 and out = "[]" and
        code = "\<lambda>h. if h = 0 then tcpClientRecvCallback else tcpServerRecvCallback", OF new(1-3) _ new(1-3) _ _ _ _ fits _ refl refl refl,
        of 0 1 length None None None] new(4) by (simp add: numeral_2_eq_2)
qed

text \<open>
  C36. A short write loses data: when the kernel takes only part of the send buffer, the rest does
  not leave the socket in this round and the buffer is emptied all the same, so that it never
  will. \<open>::send\<close> on a non-blocking socket documents exactly such short counts.
\<close>

theorem short_write_loses_data:
  assumes "socket_ok s" and "rx_bytes r = []" and "ksend (outgoing s) < length (outgoing s)"
  shows "\<exists>wire rest s'. TCPSocket_sendAndRecv r ksend code s e = ret (False, wire, s', e)
    \<and> outgoing s = wire @ rest \<and> rest \<noteq> [] \<and> outgoing s' = []"
proof -
  let ?k = "ksend (outgoing s)"
  from round_idle [OF assms(1,2), of ksend code e] obtain s' where
    "TCPSocket_sendAndRecv r ksend code s e = ret (False, take ?k (outgoing s), s', e)" "outgoing s' = []" by blast
  moreover have "drop ?k (outgoing s) \<noteq> []" using assms(3) by simp
  ultimately show ?thesis by (metis append_take_drop_id)
qed

theorem short_write_loses_data_witness:
  "\<exists>s wire rest s'. outgoing s = [1, 2, 3]
     \<and> TCPSocket_sendAndRecv \<lparr>rx_bytes = [], rx_time = None\<rparr> (\<lambda>_. 1) (\<lambda>_. tcpServerRecvCallback) s [] = ret (False, wire, s', [])
     \<and> outgoing s = wire @ rest \<and> rest \<noteq> [] \<and> outgoing s' = []"
proof -
  obtain s where s: "socket_ok s" "outgoing s = [1, 2, 3]"
    using send_appends [OF socket_ok_new, of "[1, 2, 3]"]
    by (auto simp: TCPBufferSize_def simp del: length_buffers)
  then have "(\<lambda>_. 1) (outgoing s) < length (outgoing s)" by (simp del: length_buffers)
  from short_write_loses_data [OF s(1) _ this, of "\<lparr>rx_bytes = [], rx_time = None\<rparr>"] s(2) show ?thesis
    by (metis recv_result.select_convs(1))
qed

end
