(* ===== verification/Tcp_Server.thy ===== *)
theory Tcp_Server
  imports Tcp_Socket
begin

text \<open>
  The server of \<open>include/communication/tcp_server.h\<close>. The operating system is a parameter: the events that
  \<open>kevent\<close> reports, the connections that \<open>accept\<close> returns before it fails, and the results of the
  system calls. What the code registered with the kernel queue is part of the state, since the
  kernel reports events with the registered address. The listener is a member of the server
  and has address 0; the sockets of connections are allocated from address 1 on. Callbacks act
  on the socket they are called for.
\<close>

section \<open>The server\<close>

record TCPServer =
  kqueue_fd :: int
  listener_socket :: TCPSocket
  receive_sockets :: "nat list"
  send_sockets :: "nat list"
  server_recv_callback :: "nat option"
  recv_finished_callback :: "nat option"
  sockets :: "nat \<rightharpoonup> TCPSocket"
  next_address :: nat
  registered :: "nat list"

definition TCPServer_new :: TCPServer where
  "TCPServer_new =
     \<lparr>kqueue_fd = - 1, listener_socket = TCPSocket_new, receive_sockets = [], send_sockets = [],
      server_recv_callback = None, recv_finished_callback = None,
      sockets = Map.empty, next_address = 1, registered = []\<rparr>"

text \<open>\<open>rc\<close> is the result of \<open>kevent\<close>, which registers the address of the socket.\<close>

definition addToKqueueList :: "int \<Rightarrow> nat \<Rightarrow> TCPServer \<Rightarrow> bool \<times> TCPServer" where
  "addToKqueueList rc x sv =
     (rc \<noteq> - 1, if rc \<noteq> - 1 then sv\<lparr>registered := registered sv @ [x]\<rparr> else sv)"

definition TCPServer_listen ::
  "int \<Rightarrow> socket_calls \<Rightarrow> int \<Rightarrow> string \<Rightarrow> int \<Rightarrow> TCPServer \<Rightarrow> TCPServer outcome" where
  "TCPServer_listen rc_kqueue c rc_kevent iface port sv =
     (let sv1 = sv\<lparr>kqueue_fd := rc_kqueue\<rparr> in
      obind (ASSERT (kqueue_fd sv1 \<ge> 0) ''kqueue() failed: '') (\<lambda>_.
      obind (TCPSocket_connect c (SocketCfg.make '''' iface port False True True) (listener_socket sv1))
        (\<lambda>(fd, s).
        obind (ASSERT (fd \<ge> 0) ''Listener socket failed to connect. iface:'') (\<lambda>_.
        let (added, sv2) = addToKqueueList rc_kevent 0 (sv1\<lparr>listener_socket := s\<rparr>) in
        obind (ASSERT added ''kevent() failed to add listener socket. error:'') (\<lambda>_. ret sv2)))))"

definition TCPServer_destroy :: "TCPServer \<Rightarrow> int list" where
  "TCPServer_destroy sv = (if kqueue_fd sv \<noteq> - 1 then [kqueue_fd sv] else [])"

datatype filter_kind = EVFILT_READ | EVFILT_WRITE | EVFILT_OTHER

record event_info =
  ev_filter :: filter_kind
  ev_closed :: bool
  ev_socket :: nat

definition push_missing :: "nat \<Rightarrow> nat list \<Rightarrow> nat list" where
  "push_missing x xs = (if x \<in> set xs then xs else xs @ [x])"

definition delete_socket :: "nat \<Rightarrow> TCPServer \<Rightarrow> TCPServer outcome" where
  "delete_socket x sv =
     (case sockets sv x of
        None \<Rightarrow> throw Invalid_Free
      | Some _ \<Rightarrow> ret (sv\<lparr>sockets := (sockets sv)(x := None)\<rparr>))"

text \<open>One event of the loop in \<open>poll\<close>; the flag is \<open>have_new_connection\<close>.\<close>

definition poll_event :: "event_info \<Rightarrow> bool \<times> TCPServer \<Rightarrow> (bool \<times> TCPServer) outcome" where
  "poll_event ev = (\<lambda>(new, sv).
     let x = ev_socket ev in
     if ev_filter ev = EVFILT_READ \<and> x = 0 then ret (True, sv)
     else
       let sv1 = (if ev_filter ev = EVFILT_READ
                  then sv\<lparr>receive_sockets := push_missing x (receive_sockets sv)\<rparr> else sv);
           sv2 = (if ev_filter ev = EVFILT_WRITE
                  then sv1\<lparr>send_sockets := push_missing x (send_sockets sv1)\<rparr> else sv1)
       in if ev_closed ev
          then obind (delete_socket x (sv2\<lparr>receive_sockets := removeAll x (receive_sockets sv2),
                        send_sockets := removeAll x (send_sockets sv2)\<rparr>)) (\<lambda>sv3. ret (new, sv3))
          else ret (new, sv2))"

primrec poll_events :: "event_info list \<Rightarrow> bool \<times> TCPServer \<Rightarrow> (bool \<times> TCPServer) outcome" where
  "poll_events [] st = ret st"
| "poll_events (ev # evs) st = obind (poll_event ev st) (poll_events evs)"

text \<open>A connection: its descriptor, the results of setting its options, and that of \<open>kevent\<close>.\<close>

type_synonym connection = "int \<times> socket_calls \<times> int"

definition accept_one :: "connection \<Rightarrow> TCPServer \<Rightarrow> TCPServer outcome" where
  "accept_one = (\<lambda>(fd, c, rc) sv.
     obind (ASSERT (setNonBlocking c \<and> disableNagle c)
             ''Failed to set non-blocking or no-delay on socket:'') (\<lambda>_.
     let x = next_address sv;
         socket = TCPSocket_new\<lparr>socket_fd := fd, recv_callback := server_recv_callback sv\<rparr>;
         sv1 = sv\<lparr>sockets := (sockets sv)(x \<mapsto> socket), next_address := Suc x\<rparr>;
         (added, sv2) = addToKqueueList rc x sv1
     in obind (ASSERT added ''Unable to add socket to kqueue. error:'') (\<lambda>_.
        ret (sv2\<lparr>receive_sockets := receive_sockets sv2 @ [x]\<rparr>))))"

primrec accept_all :: "connection list \<Rightarrow> TCPServer \<Rightarrow> TCPServer outcome" where
  "accept_all [] sv = ret sv"
| "accept_all (conn # conns) sv = obind (accept_one conn sv) (accept_all conns)"

definition poll :: "event_info list \<Rightarrow> connection list \<Rightarrow> TCPServer \<Rightarrow> TCPServer outcome" where
  "poll evs conns sv =
     obind (poll_events evs (False, sv)) (\<lambda>(new, sv1). if new then accept_all conns sv1 else ret sv1)"

text \<open>
  A round over a list of sockets. Call number \<open>i\<close> of the round reads \<open>net i\<close> from the kernel,
  which takes \<open>ksend i\<close> of what is sent. The result lists what left each socket.
\<close>

type_synonym 'e round_result = "(bool \<times> (nat \<times> byte list) list \<times> TCPServer \<times> 'e) outcome"

primrec serve_sockets :: "(nat \<Rightarrow> recv_result) \<Rightarrow> (nat \<Rightarrow> byte list \<Rightarrow> nat) \<Rightarrow> (nat \<Rightarrow> 'e recv_callback)
    \<Rightarrow> nat \<Rightarrow> nat list \<Rightarrow> TCPServer \<Rightarrow> 'e \<Rightarrow> 'e round_result" where
  "serve_sockets net ksend code i [] sv e = ret (False, [], sv, e)"
| "serve_sockets net ksend code i (x # xs) sv e =
     (case sockets sv x of
        None \<Rightarrow> throw Dangling_Pointer
      | Some s \<Rightarrow>
          obind (TCPSocket_sendAndRecv (net i) (ksend i) code s e) (\<lambda>(r, wire, s', e').
          obind (serve_sockets net ksend code (Suc i) xs (sv\<lparr>sockets := (sockets sv)(x \<mapsto> s')\<rparr>) e')
            (\<lambda>(rs, wires, sv', e''). ret (r \<or> rs, (x, wire) # wires, sv', e''))))"

definition TCPServer_sendAndRecv :: "(nat \<Rightarrow> recv_result) \<Rightarrow> (nat \<Rightarrow> byte list \<Rightarrow> nat)
    \<Rightarrow> (nat \<Rightarrow> 'e recv_callback) \<Rightarrow> (nat \<Rightarrow> 'e \<Rightarrow> 'e outcome) \<Rightarrow> TCPServer \<Rightarrow> 'e
    \<Rightarrow> ((nat \<times> byte list) list \<times> TCPServer \<times> 'e) outcome" where
  "TCPServer_sendAndRecv net ksend code finished sv e =
     obind (serve_sockets net ksend code 0 (receive_sockets sv) sv e) (\<lambda>(recv, wires, sv1, e1).
     obind (if recv then
              case recv_finished_callback sv1 of
                None \<Rightarrow> throw (Uncaught ''bad_function_call'')
              | Some h \<Rightarrow> finished h e1
            else ret e1) (\<lambda>e2.
     obind (serve_sockets net ksend code (length (receive_sockets sv)) (send_sockets sv1) sv1 e2)
       (\<lambda>(_, wires', sv2, e3). ret (wires @ wires', sv2, e3))))"

section \<open>The state of a server\<close>

definition sv_ok :: "TCPServer \<Rightarrow> bool" where
  "sv_ok sv \<longleftrightarrow> distinct (receive_sockets sv) \<and> distinct (send_sockets sv)
     \<and> set (receive_sockets sv) \<subseteq> dom (sockets sv) \<and> set (send_sockets sv) \<subseteq> dom (sockets sv)
     \<and> dom (sockets sv) \<subseteq> {1..<next_address sv} \<and> 0 < next_address sv
     \<and> (\<forall>x s. sockets sv x = Some s \<longrightarrow> socket_ok s)"

text \<open>No address given to the kernel belongs to a deleted socket.\<close>

definition registrations_live :: "TCPServer \<Rightarrow> bool" where
  "registrations_live sv \<longleftrightarrow> set (registered sv) \<subseteq> insert 0 (dom (sockets sv))"

text \<open>
  What \<open>kevent\<close> reports: the code registers the filter \<open>EVFILT_READ\<close> only, and there is at most
  one event for a descriptor and a filter.
\<close>

definition reported :: "TCPServer \<Rightarrow> event_info \<Rightarrow> bool" where
  "reported sv ev \<longleftrightarrow> ev_filter ev = EVFILT_READ \<and> ev_socket ev \<in> set (registered sv)"

definition gone :: "event_info list \<Rightarrow> nat set" where
  "gone evs = {x. x \<noteq> 0 \<and> (\<exists>ev \<in> set evs. ev_closed ev \<and> ev_socket ev = x)}"

definition readable :: "event_info list \<Rightarrow> nat set" where
  "readable evs = ev_socket ` set evs - {0}"

definition conn_ok :: "connection \<Rightarrow> bool" where
  "conn_ok = (\<lambda>(fd, c, rc). setNonBlocking c \<and> disableNagle c \<and> rc \<noteq> - 1)"

lemma sv_ok_new [wf_intros]: "sv_ok TCPServer_new"
  by (simp add: sv_ok_def TCPServer_new_def)

lemma push_missing_simps [simp]:
  "set (push_missing x xs) = insert x (set xs)" "distinct xs \<Longrightarrow> distinct (push_missing x xs)"
  by (auto simp: push_missing_def)

lemma gone_simps [simp]:
  "gone [] = {}" "gone (ev # evs) = (if ev_closed ev \<and> ev_socket ev \<noteq> 0 then insert (ev_socket ev) (gone evs) else gone evs)"
  by (auto simp: gone_def)

lemma readable_simps [simp]:
  "readable [] = {}" "readable (ev # evs) = insert (ev_socket ev) (readable evs) - {0}"
  by (auto simp: readable_def)

lemma poll_event_effect:
  assumes "sv_ok sv" and "ev_filter ev = EVFILT_READ" and "ev_socket ev \<in> insert 0 (dom (sockets sv))"
  shows "\<exists>sv'. poll_event ev (new, sv) = ret (new \<or> ev_socket ev = 0, sv') \<and> sv_ok sv'
    \<and> sockets sv' = sockets sv |` (- gone [ev]) \<and> next_address sv' = next_address sv
    \<and> set (receive_sockets sv') = set (receive_sockets sv) \<union> readable [ev] - gone [ev]
    \<and> registered sv' = registered sv \<and> server_recv_callback sv' = server_recv_callback sv"
proof (cases "ev_socket ev = 0")
  case True
  with assms show ?thesis by (intro exI [of _ sv]) (auto simp: poll_event_def sv_ok_def)
next
  case False
  then obtain s where s: "sockets sv (ev_socket ev) = Some s" using assms(3) by auto
  show ?thesis
  proof (cases "ev_closed ev")
    case True
    let ?sv = "sv\<lparr>receive_sockets := removeAll (ev_socket ev) (push_missing (ev_socket ev) (receive_sockets sv)),
      send_sockets := removeAll (ev_socket ev) (send_sockets sv), sockets := (sockets sv)(ev_socket ev := None)\<rparr>"
    have "poll_event ev (new, sv) = ret (new, ?sv)"
      using assms(2) False True s by (simp add: poll_event_def delete_socket_def Let_def)
    moreover have "sv_ok ?sv" using assms(1) by (auto simp: sv_ok_def distinct_removeAll)
    ultimately show ?thesis using False True by (auto simp: restrict_map_def fun_eq_iff)
  next
    case no: False
    let ?sv = "sv\<lparr>receive_sockets := push_missing (ev_socket ev) (receive_sockets sv)\<rparr>"
    have "poll_event ev (new, sv) = ret (new, ?sv)"
      using assms(2) False no by (simp add: poll_event_def Let_def)
    moreover have "sv_ok ?sv" using assms(1) s by (auto simp: sv_ok_def)
    ultimately show ?thesis using False no by auto
  qed
qed

lemma poll_events_effect:
  assumes "sv_ok sv" and "\<forall>ev \<in> set evs. ev_filter ev = EVFILT_READ \<and> ev_socket ev \<in> insert 0 (dom (sockets sv))"
    and "distinct (map ev_socket evs)"
  shows "\<exists>sv'. poll_events evs (new, sv) = ret (new \<or> 0 \<in> ev_socket ` set evs, sv') \<and> sv_ok sv'
    \<and> sockets sv' = sockets sv |` (- gone evs) \<and> next_address sv' = next_address sv
    \<and> set (receive_sockets sv') = set (receive_sockets sv) \<union> readable evs - gone evs
    \<and> registered sv' = registered sv \<and> server_recv_callback sv' = server_recv_callback sv"
  using assms
proof (induction evs arbitrary: new sv)
  case Nil
  then show ?case by (auto simp: readable_def)
next
  case (Cons ev evs)
  let ?new = "new \<or> ev_socket ev = 0"
  obtain sv1 where sv1: "poll_event ev (new, sv) = ret (?new, sv1)" "sv_ok sv1"
    "sockets sv1 = sockets sv |` (- gone [ev])" "next_address sv1 = next_address sv"
    "set (receive_sockets sv1) = set (receive_sockets sv) \<union> readable [ev] - gone [ev]"
    "registered sv1 = registered sv" "server_recv_callback sv1 = server_recv_callback sv"
    using poll_event_effect [OF Cons.prems(1), of ev new] Cons.prems(2) by auto
  have "\<forall>e \<in> set evs. ev_filter e = EVFILT_READ \<and> ev_socket e \<in> insert 0 (dom (sockets sv1))"
    using Cons.prems(2,3) by (auto simp: sv1(3) image_iff)
  from Cons.IH [OF sv1(2) this, of ?new] Cons.prems(3) obtain sv2 where
    sv2: "poll_events evs (?new, sv1) = ret (?new \<or> 0 \<in> ev_socket ` set evs, sv2)" "sv_ok sv2"
    "sockets sv2 = sockets sv1 |` (- gone evs)" "next_address sv2 = next_address sv1"
    "set (receive_sockets sv2) = set (receive_sockets sv1) \<union> readable evs - gone evs"
    "registered sv2 = registered sv1" "server_recv_callback sv2 = server_recv_callback sv1"
    by auto
  have "ev_socket ev \<notin> readable evs" using Cons.prems(3) by (auto simp: readable_def)
  then have "set (receive_sockets sv2) = set (receive_sockets sv) \<union> readable (ev # evs) - gone (ev # evs)"
    using sv2(5) sv1(5) by (auto simp: readable_def)
  moreover have "sockets sv2 = sockets sv |` (- gone (ev # evs))"
    using sv2(3) sv1(3) by (auto simp: restrict_map_def fun_eq_iff)
  moreover have "poll_events (ev # evs) (new, sv) = ret (new \<or> 0 \<in> ev_socket ` set (ev # evs), sv2)"
    using sv1(1) sv2(1) by auto
  ultimately show ?case using sv2 sv1 by metis
qed

lemma accept_one_effect:
  assumes "sv_ok sv" and "conn_ok conn"
  shows "\<exists>sv'. accept_one conn sv = ret sv' \<and> sv_ok sv' \<and> next_address sv' = Suc (next_address sv)
    \<and> dom (sockets sv') = insert (next_address sv) (dom (sockets sv))
    \<and> receive_sockets sv' = receive_sockets sv @ [next_address sv]
    \<and> registered sv' = registered sv @ [next_address sv]"
proof -
  obtain fd c rc where conn: "conn = (fd, c, rc)" by (cases conn)
  let ?s = "TCPSocket_new\<lparr>socket_fd := fd, recv_callback := server_recv_callback sv\<rparr>"
  let ?sv = "sv\<lparr>sockets := (sockets sv)(next_address sv \<mapsto> ?s), next_address := Suc (next_address sv),
    registered := registered sv @ [next_address sv], receive_sockets := receive_sockets sv @ [next_address sv]\<rparr>"
  have "accept_one conn sv = ret ?sv"
    using assms(2) by (simp add: accept_one_def conn conn_ok_def addToKqueueList_def ASSERT_def Let_def)
  moreover have "socket_ok ?s" using socket_ok_new by (simp add: socket_ok_def)
  then have "sv_ok ?sv" using assms(1) by (auto simp: sv_ok_def) force+
  ultimately show ?thesis by auto
qed

lemma accept_all_effect:
  "sv_ok sv \<Longrightarrow> \<forall>conn \<in> set conns. conn_ok conn \<Longrightarrow>
     \<exists>sv'. accept_all conns sv = ret sv' \<and> sv_ok sv'
       \<and> dom (sockets sv') = dom (sockets sv) \<union> {next_address sv..<next_address sv + length conns}
       \<and> receive_sockets sv' = receive_sockets sv @ [next_address sv..<next_address sv + length conns]
       \<and> registered sv' = registered sv @ [next_address sv..<next_address sv + length conns]"
proof (induction conns arbitrary: sv)
  case (Cons conn conns)
  then obtain sv1 where sv1: "accept_one conn sv = ret sv1" "sv_ok sv1" "next_address sv1 = Suc (next_address sv)"
    "dom (sockets sv1) = insert (next_address sv) (dom (sockets sv))"
    "receive_sockets sv1 = receive_sockets sv @ [next_address sv]"
    "registered sv1 = registered sv @ [next_address sv]"
    using accept_one_effect [of sv conn] by auto
  from Cons.IH [OF sv1(2)] Cons.prems(2) sv1 show ?case
    by (auto simp: upt_conv_Cons simp del: upt_Suc)
qed simp

section \<open>A round over sockets that are ready\<close>

definition ready :: "nat \<Rightarrow> TCPSocket \<Rightarrow> bool" where
  "ready h s \<longleftrightarrow> socket_ok s \<and> outgoing s = [] \<and> incoming s = [] \<and> recv_callback s = Some h"

definition answer :: "byte list \<Rightarrow> byte list" where
  "answer bs = (if bs = [] then [] else greeting @ bs)"

definition answer_prints :: "int \<Rightarrow> recv_result \<Rightarrow> printed list" where
  "answer_prints fd r =
     (if rx_bytes r = [] then [] else [Server_Received fd (length (rx_bytes r)) (kernel_time r)])"

lemma ready_round:
  assumes "ready h s" and "code h = tcpServerRecvCallback" and "\<And>buf. ksend buf = length buf"
    and "length greeting + length (rx_bytes r) \<le> TCPBufferSize"
  shows "\<exists>s'. TCPSocket_sendAndRecv r ksend code s e =
      ret (rx_bytes r \<noteq> [], answer (rx_bytes r), s', e @ answer_prints (socket_fd s) r)
    \<and> ready h s' \<and> socket_fd s' = socket_fd s"
proof (cases "rx_bytes r = []")
  case True
  then show ?thesis
    using round_idle [of s r ksend code e] assms(1) by (auto simp: ready_def answer_def answer_prints_def)
next
  case False
  have "reply_fits s1" if "incoming s1 = rx_bytes r" "outgoing s1 = outgoing s" for s1
    using that assms(1,4) by (simp add: reply_fits_def ready_def del: length_buffers)
  then show ?thesis
    using server_cb.round_replies [where code = code and h = h, of s r ksend e] assms False
    by (auto simp: ready_def answer_def answer_prints_def server_prints_def)
qed

definition all_ready :: "nat \<Rightarrow> TCPServer \<Rightarrow> bool" where
  "all_ready h sv \<longleftrightarrow> (\<forall>x s. sockets sv x = Some s \<longrightarrow> ready h s)"

definition fd_of :: "TCPServer \<Rightarrow> nat \<Rightarrow> int" where
  "fd_of sv x = (case sockets sv x of None \<Rightarrow> - 1 | Some s \<Rightarrow> socket_fd s)"

primrec round_prints :: "(nat \<Rightarrow> recv_result) \<Rightarrow> (nat \<Rightarrow> int) \<Rightarrow> nat \<Rightarrow> nat list \<Rightarrow> printed list" where
  "round_prints net fds i [] = []"
| "round_prints net fds i (x # xs) = answer_prints (fds x) (net i) @ round_prints net fds (Suc i) xs"

lemma serve_ready:
  assumes "all_ready h sv" and "set xs \<subseteq> dom (sockets sv)" and code: "code h = tcpServerRecvCallback"
    and "\<forall>k \<in> {i..<i + length xs}. \<forall>buf. ksend k buf = length buf"
    and "\<forall>k \<in> {i..<i + length xs}. length greeting + length (rx_bytes (net k)) \<le> TCPBufferSize"
  shows "\<exists>socks. serve_sockets net ksend code i xs sv e =
      ret (\<exists>k \<in> {i..<i + length xs}. rx_bytes (net k) \<noteq> [],
        zip xs (map (\<lambda>k. answer (rx_bytes (net k))) [i..<i + length xs]), sv\<lparr>sockets := socks\<rparr>,
        e @ round_prints net (fd_of sv) i xs)
    \<and> all_ready h (sv\<lparr>sockets := socks\<rparr>) \<and> dom socks = dom (sockets sv) \<and> fd_of (sv\<lparr>sockets := socks\<rparr>) = fd_of sv"
  using assms(1,2,4,5)
proof (induction xs arbitrary: i sv e)
  case Nil
  then show ?case by (intro exI [of _ "sockets sv"]) simp
next
  case (Cons x xs)
  then obtain s where s: "sockets sv x = Some s" "ready h s" by (auto simp: all_ready_def)
  let ?e = "e @ answer_prints (socket_fd s) (net i)"
  obtain s' where s': "ready h s'" "socket_fd s' = socket_fd s"
    "TCPSocket_sendAndRecv (net i) (ksend i) code s e =
       ret (rx_bytes (net i) \<noteq> [], answer (rx_bytes (net i)), s', ?e)"
    using ready_round [where code = code and h = h and ksend = "ksend i" and r = "net i" and e = e, OF s(2) code]
      Cons.prems(3,4) by auto
  let ?sv = "sv\<lparr>sockets := (sockets sv)(x \<mapsto> s')\<rparr>"
  have "all_ready h ?sv" "set xs \<subseteq> dom (sockets ?sv)"
    "\<forall>k \<in> {Suc i..<Suc i + length xs}. \<forall>buf. ksend k buf = length buf"
    "\<forall>k \<in> {Suc i..<Suc i + length xs}. length greeting + length (rx_bytes (net k)) \<le> TCPBufferSize"
    using Cons.prems s'(1) by (auto simp: all_ready_def)
  from Cons.IH [OF this, of ?e] obtain socks where socks: "serve_sockets net ksend code (Suc i) xs ?sv ?e =
      ret (\<exists>k \<in> {Suc i..<Suc i + length xs}. rx_bytes (net k) \<noteq> [],
        zip xs (map (\<lambda>k. answer (rx_bytes (net k))) [Suc i..<Suc i + length xs]), ?sv\<lparr>sockets := socks\<rparr>,
        ?e @ round_prints net (fd_of ?sv) (Suc i) xs)"
    "all_ready h (?sv\<lparr>sockets := socks\<rparr>)" "dom socks = dom (sockets ?sv)"
    "fd_of (?sv\<lparr>sockets := socks\<rparr>) = fd_of ?sv"
    by blast
  have fd: "fd_of ?sv = fd_of sv" "fd_of sv x = socket_fd s" using s(1) s'(2) by (auto simp: fd_of_def)
  have "{i..<i + length (x # xs)} = insert i {Suc i..<Suc i + length xs}" by auto
  then show ?case
    using s(1) s'(3) socks by (intro exI [of _ socks]) (auto simp: upt_conv_Cons fd simp del: upt_Suc)
qed

lemma sv_ok_sockets:
  "sv_ok sv \<Longrightarrow> dom socks = dom (sockets sv) \<Longrightarrow> all_ready h (sv\<lparr>sockets := socks\<rparr>) \<Longrightarrow>
     sv_ok (sv\<lparr>sockets := socks\<rparr>)"
  by (auto simp: sv_ok_def all_ready_def ready_def)

text \<open>A round of the server: the reading sockets, the second callback, the writing sockets.\<close>

lemma serve_round:
  assumes "sv_ok sv" and "all_ready h sv" and "send_sockets sv = []" and "recv_finished_callback sv = Some f"
    and "code h = tcpServerRecvCallback"
    and "\<forall>k < length (receive_sockets sv). \<forall>buf. ksend k buf = length buf"
    and "\<forall>k < length (receive_sockets sv). length greeting + length (rx_bytes (net k)) \<le> TCPBufferSize"
  shows "\<exists>socks. TCPServer_sendAndRecv net ksend code finished sv out =
      (let out' = out @ round_prints net (fd_of sv) 0 (receive_sockets sv) in
       obind (if \<exists>k < length (receive_sockets sv). rx_bytes (net k) \<noteq> [] then finished f out' else ret out')
        (\<lambda>out''. ret (zip (receive_sockets sv)
           (map (\<lambda>k. answer (rx_bytes (net k))) [0..<length (receive_sockets sv)]), sv\<lparr>sockets := socks\<rparr>, out'')))
    \<and> sv_ok (sv\<lparr>sockets := socks\<rparr>) \<and> all_ready h (sv\<lparr>sockets := socks\<rparr>)
    \<and> fd_of (sv\<lparr>sockets := socks\<rparr>) = fd_of sv \<and> dom socks = dom (sockets sv)"
proof -
  have "set (receive_sockets sv) \<subseteq> dom (sockets sv)" using assms(1) by (simp add: sv_ok_def)
  from serve_ready [where code = code and i = 0 and e = out and net = net and ksend = ksend, OF assms(2) this assms(5)]
    assms(6,7) obtain socks where
    socks: "serve_sockets net ksend code 0 (receive_sockets sv) sv out =
      ret (\<exists>k \<in> {0..<length (receive_sockets sv)}. rx_bytes (net k) \<noteq> [],
        zip (receive_sockets sv) (map (\<lambda>k. answer (rx_bytes (net k))) [0..<length (receive_sockets sv)]),
        sv\<lparr>sockets := socks\<rparr>, out @ round_prints net (fd_of sv) 0 (receive_sockets sv))"
    "all_ready h (sv\<lparr>sockets := socks\<rparr>)" "dom socks = dom (sockets sv)"
    "fd_of (sv\<lparr>sockets := socks\<rparr>) = fd_of sv" by auto
  moreover have "(\<exists>k \<in> {0..<n}. rx_bytes (net k) \<noteq> []) \<longleftrightarrow> (\<exists>k < n. rx_bytes (net k) \<noteq> [])" for n by auto
  ultimately show ?thesis
    using assms(3,4) sv_ok_sockets [OF assms(1) socks(3,2)]
    by (intro exI [of _ socks]) (auto simp: TCPServer_sendAndRecv_def Let_def)
qed

section \<open>Properties\<close>

text \<open>
  C37. \<open>poll\<close> keeps track of the connections. When the kernel reports on sockets that were registered
  and are still allocated, each at most once, and new connections can be set up, it returns,
  keeps the server well formed, deletes exactly the sockets reported as closed, receives from the
  readable and the accepted ones, and allocates a socket for each accepted connection. While
  no connection was closed, all registrations stay valid.
\<close>

theorem poll_tracks_connections:
  assumes "sv_ok sv" and "registrations_live sv" and "\<forall>ev \<in> set evs. reported sv ev"
    and "distinct (map ev_socket evs)" and "\<forall>conn \<in> set conns. conn_ok conn"
    and "fresh = (if 0 \<in> ev_socket ` set evs then {next_address sv..<next_address sv + length conns} else {})"
  shows "\<exists>sv'. poll evs conns sv = ret sv' \<and> sv_ok sv'
    \<and> dom (sockets sv') = dom (sockets sv) - gone evs \<union> fresh
    \<and> set (receive_sockets sv') = set (receive_sockets sv) \<union> readable evs - gone evs \<union> fresh
    \<and> (gone evs = {} \<longrightarrow> registrations_live sv')"
proof -
  have "\<forall>ev \<in> set evs. ev_filter ev = EVFILT_READ \<and> ev_socket ev \<in> insert 0 (dom (sockets sv))"
    using assms(2,3) by (auto simp: reported_def registrations_live_def)
  from poll_events_effect [OF assms(1) this assms(4), of False] obtain sv1 where
    sv1: "poll_events evs (False, sv) = ret (0 \<in> ev_socket ` set evs, sv1)" "sv_ok sv1"
    "sockets sv1 = sockets sv |` (- gone evs)" "next_address sv1 = next_address sv"
    "set (receive_sockets sv1) = set (receive_sockets sv) \<union> readable evs - gone evs"
    "registered sv1 = registered sv" by auto
  show ?thesis
  proof (cases "0 \<in> ev_socket ` set evs")
    case True
    from accept_all_effect [OF sv1(2) assms(5)] True sv1 assms(2,6) show ?thesis
      by (auto simp: poll_def registrations_live_def)
  next
    case False
    with sv1 assms(2,6) show ?thesis by (auto simp: poll_def registrations_live_def)
  qed
qed

text \<open>A server that listens and has one connection, for the applications below.\<close>

definition good_calls :: socket_calls where
  "good_calls =
     \<lparr>rc_getifaddrs = 0, ifaddrs = [(''lo'', Some ''127.0.0.1'')], rc_getaddrinfo = (\<lambda>_ _ _. 0),
      found = [sockaddr_in.make AF_INET (htons 12345) (htonl 0x7F000001)], rc_socket = 5,
      rc_getfl = O_NONBLOCK, rc_setfl = (\<lambda>_. 0), rc_nodelay = 0, rc_connect = (\<lambda>_. 0), rc_reuseaddr = 0,
      rc_bind = (\<lambda>_. 0), rc_listen = (\<lambda>_. 0), rc_timestamp = 0\<rparr>"

lemma good_calls_simps [simp]: "setNonBlocking good_calls" "disableNagle good_calls"
  by (simp_all add: good_calls_def setNonBlocking_def O_NONBLOCK_def disableNagle_def)

definition example_server :: TCPServer where
  "example_server = TCPServer_new\<lparr>
     kqueue_fd := 3, listener_socket := TCPSocket_new\<lparr>socket_fd := 5, socket_attrib := createSockaddrIn 12345\<rparr>,
     server_recv_callback := Some 0, recv_finished_callback := Some 0, registered := [0, 1],
     sockets := [1 \<mapsto> TCPSocket_new\<lparr>socket_fd := 6, recv_callback := Some 0\<rparr>], next_address := 2,
     receive_sockets := [1]\<rparr>"

lemma example_server_reached:
  "obind (TCPServer_listen 3 good_calls 0 ''lo'' 12345
      (TCPServer_new\<lparr>server_recv_callback := Some 0, recv_finished_callback := Some 0\<rparr>))
    (poll [\<lparr>ev_filter = EVFILT_READ, ev_closed = False, ev_socket = 0\<rparr>] [(6, good_calls, 0)])
   = ret example_server"
  by (simp add: TCPServer_listen_def TCPSocket_connect_def createSocket_def ASSERT_def guard_def good_calls_def
      SocketCfg.make_def getIfaceIP_def setNonBlocking_def disableNagle_def O_NONBLOCK_def
      createSockaddrIn_def sockaddr_in.make_def INADDR_ANY_def AF_INET_def htonl_def
      setSOTimestamp_def addToKqueueList_def poll_def poll_event_def accept_one_def Let_def
      example_server_def TCPServer_new_def)

lemma example_server_simps [simp]:
  "sv_ok example_server" "registrations_live example_server" "all_ready 0 example_server"
  "registered example_server = [0, 1]" "dom (sockets example_server) = {1}" "next_address example_server = 2"
  "receive_sockets example_server = [1]" "send_sockets example_server = []"
  "recv_finished_callback example_server = Some 0" "fd_of example_server (Suc 0) = 6"
  using socket_ok_new
  by (auto simp: fd_of_def example_server_def TCPServer_new_def sv_ok_def registrations_live_def all_ready_def ready_def
      socket_ok_def TCPSocket_new_def outgoing_def incoming_def)

theorem poll_tracks_connections_witness:
  "\<exists>sv'. poll [\<lparr>ev_filter = EVFILT_READ, ev_closed = False, ev_socket = 0\<rparr>,
      \<lparr>ev_filter = EVFILT_READ, ev_closed = True, ev_socket = 1\<rparr>] [(7, good_calls, 0)] example_server = ret sv'
    \<and> sv_ok sv' \<and> dom (sockets sv') = {2} \<and> set (receive_sockets sv') = {2}"
  using poll_tracks_connections [of example_server "[\<lparr>ev_filter = EVFILT_READ, ev_closed = False, ev_socket = 0\<rparr>,
      \<lparr>ev_filter = EVFILT_READ, ev_closed = True, ev_socket = 1\<rparr>]" "[(7, good_calls, 0)]" "{2}"]
    atLeastLessThan_singleton [of "2 :: nat"]
  by (simp add: reported_def conn_ok_def)

text \<open>
  C38. A closed connection is deleted but stays registered with the kernel, since its descriptor is
  neither closed nor removed from the queue. The end of the connection is therefore reported
  again, and the next \<open>poll\<close> deletes the same socket a second time.
\<close>

theorem closed_connection_is_freed_twice:
  assumes "sv_ok sv" and "ev = \<lparr>ev_filter = EVFILT_READ, ev_closed = True, ev_socket = x\<rparr>"
    and "reported sv ev" and "x \<in> dom (sockets sv)"
  shows "\<exists>sv'. poll [ev] conns sv = ret sv' \<and> sv_ok sv' \<and> x \<notin> dom (sockets sv')
    \<and> reported sv' ev \<and> poll [ev] conns' sv' = throw Invalid_Free"
proof -
  have x: "x \<noteq> 0" using assms(1,4) by (auto simp: sv_ok_def)
  have "\<forall>ev' \<in> set [ev]. ev_filter ev' = EVFILT_READ \<and> ev_socket ev' \<in> insert 0 (dom (sockets sv))"
    using assms(2,4) by simp
  from poll_events_effect [OF assms(1) this, of False] x assms(2) obtain sv' where
    sv': "poll_events [ev] (False, sv) = ret (False, sv')" "sv_ok sv'"
    "sockets sv' = sockets sv |` (- gone [ev])" "registered sv' = registered sv" by auto
  have "sockets sv' x = None" using sv'(3) x assms(2) by simp
  moreover from this have "poll [ev] conns' sv' = throw Invalid_Free"
    using x assms(2) by (simp add: poll_def poll_event_def delete_socket_def Let_def)
  moreover have "reported sv' ev" using assms(3) sv'(4) by (simp add: reported_def)
  ultimately show ?thesis using sv'(1,2) by (auto simp: poll_def)
qed

theorem closed_connection_is_freed_twice_witness:
  "\<exists>sv'. poll [\<lparr>ev_filter = EVFILT_READ, ev_closed = True, ev_socket = 1\<rparr>] [] example_server = ret sv'
     \<and> poll [\<lparr>ev_filter = EVFILT_READ, ev_closed = True, ev_socket = 1\<rparr>] [] sv' = throw Invalid_Free"
  using closed_connection_is_freed_twice [of example_server _ 1 "[]" "[]", OF _ refl] by (auto simp: reported_def)

text \<open>
  C39. A round of the server answers every socket it receives from. With the callback of the
  example and a kernel that takes what is sent, each message read in the round is answered in
  the round on the same socket and printed with its length and time, sockets without a message
  send nothing, the second callback runs once and only if something was read, and all sockets
  are ready for the next round.
\<close>

theorem server_round_answers:
  assumes "sv_ok sv" and "all_ready h sv" and "send_sockets sv = []" and "recv_finished_callback sv = Some f"
    and "code h = tcpServerRecvCallback"
    and "\<forall>k < length (receive_sockets sv). \<forall>buf. ksend k buf = length buf"
    and "\<forall>k < length (receive_sockets sv). length greeting + length (rx_bytes (net k)) \<le> TCPBufferSize"
    and "out' = out @ round_prints net (fd_of sv) 0 (receive_sockets sv)"
  shows "\<exists>sv'. TCPServer_sendAndRecv net ksend code finished sv out =
      obind (if \<exists>k < length (receive_sockets sv). rx_bytes (net k) \<noteq> [] then finished f out' else ret out')
        (\<lambda>out''. ret (zip (receive_sockets sv)
           (map (\<lambda>k. answer (rx_bytes (net k))) [0..<length (receive_sockets sv)]), sv', out''))
    \<and> sv_ok sv' \<and> all_ready h sv' \<and> receive_sockets sv' = receive_sockets sv"
proof -
  from serve_round [where code = code and out = out and net = net and ksend = ksend and finished = finished,
      OF assms(1-7)] obtain socks where
    "TCPServer_sendAndRecv net ksend code finished sv out =
      obind (if \<exists>k < length (receive_sockets sv). rx_bytes (net k) \<noteq> [] then finished f out' else ret out')
        (\<lambda>out''. ret (zip (receive_sockets sv)
           (map (\<lambda>k. answer (rx_bytes (net k))) [0..<length (receive_sockets sv)]), sv\<lparr>sockets := socks\<rparr>, out''))"
    "sv_ok (sv\<lparr>sockets := socks\<rparr>)" "all_ready h (sv\<lparr>sockets := socks\<rparr>)"
    unfolding Let_def assms(8) by blast
  then show ?thesis by (intro exI [of _ "sv\<lparr>sockets := socks\<rparr>"]) simp
qed

theorem server_round_answers_witness:
  "\<exists>sv'. TCPServer_sendAndRecv (\<lambda>_. \<lparr>rx_bytes = [7], rx_time = None\<rparr>) (\<lambda>_. length) (\<lambda>_. tcpServerRecvCallback)
      (\<lambda>_ out. ret (out @ [Recv_Finished])) example_server []
      = ret ([(1, greeting @ [7])], sv', [Server_Received 6 1 0, Recv_Finished]) \<and> all_ready 0 sv'"
  using server_round_answers [of example_server 0 0 "\<lambda>_. tcpServerRecvCallback" "\<lambda>_. length"
      "\<lambda>_. \<lparr>rx_bytes = [7], rx_time = None\<rparr>" _ "[]" "\<lambda>_ out. ret (out @ [Recv_Finished])", OF _ _ _ _ _ _ _ refl]
  by (auto simp: greeting_def bytes_of_def TCPBufferSize_def answer_def answer_prints_def kernel_time_def)

end
