(* ===== verification/Socket_Example.thy ===== *)
theory Socket_Example
  imports Tcp_Server
begin

text \<open>
  The program \<open>standalone/socket_example.cpp\<close>: a server and two clients in one thread, which
  exchange five messages each over the loopback interface. The kernel is a parameter with a
  state of any type; what a loopback network does is stated as hypotheses on it.
\<close>

section \<open>The program\<close>

text \<open>
  The results of the system calls, in the order the program makes them. \<open>kn_io\<close> gives the
  results of one \<open>recvmsg\<close> and one \<open>send\<close> for each descriptor of a list, \<open>kn_io_done\<close> the
  state of the network after them, given the bytes that left each descriptor.
\<close>

record 'n kernel =
  kn_listen :: "int \<times> socket_calls \<times> int"
  kn_connect :: "'n \<Rightarrow> socket_calls \<times> 'n"
  kn_poll :: "'n \<Rightarrow> event_info list \<times> connection list \<times> 'n"
  kn_io :: "int list \<Rightarrow> 'n \<Rightarrow> (nat \<Rightarrow> recv_result) \<times> (nat \<Rightarrow> byte list \<Rightarrow> nat)"
  kn_io_done :: "int list \<Rightarrow> byte list list \<Rightarrow> 'n \<Rightarrow> 'n"
  kn_sleep :: "'n \<Rightarrow> 'n"

record 'n example =
  ex_server :: TCPServer
  ex_clients :: "TCPSocket option list"
  ex_net :: 'n
  ex_out :: "printed list"

definition iface :: string where "iface = ''lo''"
definition ip :: string where "ip = ''127.0.0.1''"
definition port :: int where "port = 12345"

definition client_msg :: "nat \<Rightarrow> nat \<Rightarrow> string" where
  "client_msg itr i = ''CLIENT-['' @ to_string i @ ''] : Sending '' @ to_string (itr * 100 + i)"

text \<open>The callbacks: handle 0 is the one of the server, handle 1 that of the clients.\<close>

definition callbacks :: "nat \<Rightarrow> printed list recv_callback" where
  "callbacks h = (if h = 0 then tcpServerRecvCallback else tcpClientRecvCallback)"

definition tcpServerRecvFinishedCallback :: "nat \<Rightarrow> printed list \<Rightarrow> printed list outcome" where
  "tcpServerRecvFinishedCallback h out = ret (out @ [Recv_Finished])"

definition server_poll :: "'n kernel \<Rightarrow> 'n example \<Rightarrow> 'n example outcome" where
  "server_poll K st =
     (case kn_poll K (ex_net st) of (evs, conns, n) \<Rightarrow>
        obind (poll evs conns (ex_server st)) (\<lambda>sv. ret (st\<lparr>ex_server := sv, ex_net := n\<rparr>)))"

definition server_sendAndRecv :: "'n kernel \<Rightarrow> 'n example \<Rightarrow> 'n example outcome" where
  "server_sendAndRecv K st =
     (let sv = ex_server st;
          fds = map (fd_of sv) (receive_sockets sv @ send_sockets sv);
          (net, ksend) = kn_io K fds (ex_net st)
      in obind (TCPServer_sendAndRecv net ksend callbacks tcpServerRecvFinishedCallback sv (ex_out st))
           (\<lambda>(wires, sv', out').
             ret (st\<lparr>ex_server := sv', ex_out := out', ex_net := kn_io_done K fds (map snd wires) (ex_net st)\<rparr>)))"

definition client_sendAndRecv :: "'n kernel \<Rightarrow> nat \<Rightarrow> TCPSocket \<Rightarrow> 'n example \<Rightarrow> 'n example outcome" where
  "client_sendAndRecv K i c st =
     (let fds = [socket_fd c]; (net, ksend) = kn_io K fds (ex_net st)
      in obind (TCPSocket_sendAndRecv (net 0) (ksend 0) callbacks c (ex_out st)) (\<lambda>(_, wire, c', out').
           ret (st\<lparr>ex_clients := (ex_clients st)[i := Some c'], ex_out := out',
                   ex_net := kn_io_done K fds [wire] (ex_net st)\<rparr>)))"

text \<open>The body of the first loop, and that of the inner of the two nested ones.\<close>

definition connect_client :: "'n kernel \<Rightarrow> nat \<Rightarrow> 'n example \<Rightarrow> 'n example outcome" where
  "connect_client K i st =
     (case kn_connect K (ex_net st) of (calls, n) \<Rightarrow>
        obind (TCPSocket_connect calls (SocketCfg.make ip iface port False False True)
                (TCPSocket_new\<lparr>recv_callback := Some 1\<rparr>)) (\<lambda>(_, c).
        server_poll K (st\<lparr>ex_clients := (ex_clients st)[i := Some c], ex_net := n,
          ex_out := ex_out st @ [Connecting i ip iface port]\<rparr>)))"

definition client_turn :: "'n kernel \<Rightarrow> nat \<Rightarrow> nat \<Rightarrow> 'n example \<Rightarrow> 'n example outcome" where
  "client_turn K itr i st =
     (let msg = client_msg itr i; st1 = st\<lparr>ex_out := ex_out st @ [Sending i msg]\<rparr> in
      case ex_clients st1 ! i of
        None \<Rightarrow> throw Null_Dereference
      | Some c \<Rightarrow>
          obind (TCPSocket_send (bytes_of msg) c) (\<lambda>c1.
          obind (client_sendAndRecv K i c1 st1) (\<lambda>st2.
          obind (server_poll K (st2\<lparr>ex_net := kn_sleep K (ex_net st2)\<rparr>)) (server_sendAndRecv K))))"

primrec for_each :: "('a \<Rightarrow> 's \<Rightarrow> 's outcome) \<Rightarrow> 'a list \<Rightarrow> 's \<Rightarrow> 's outcome" where
  "for_each body [] st = ret st"
| "for_each body (x # xs) st = obind (body x st) (for_each body xs)"

definition example_main :: "'n kernel \<Rightarrow> 'n \<Rightarrow> 'n example outcome" where
  "example_main K n =
     (case kn_listen K of (rc_kqueue, calls, rc_kevent) \<Rightarrow>
        obind (TCPServer_listen rc_kqueue calls rc_kevent iface port
                (TCPServer_new\<lparr>server_recv_callback := Some 0, recv_finished_callback := Some 0\<rparr>)) (\<lambda>sv.
        let clients = replicate 2 None;
            st = \<lparr>ex_server = sv, ex_clients = clients, ex_net = n, ex_out = [Creating iface port]\<rparr>
        in obind (for_each (connect_client K) [0..<length clients] st)
             (for_each (\<lambda>itr. for_each (client_turn K itr) [0..<length clients]) [0..<5])))"

section \<open>A loopback network\<close>

text \<open>
  What the network holds: the connections, as pairs of a client's and a server's descriptor, how
  many of them were accepted, and the bytes on their way to the server and to the client.
\<close>

record net_view =
  links :: "(int \<times> int) list"
  accepted :: nat
  up :: "nat \<Rightarrow> byte list"
  down :: "nat \<Rightarrow> byte list"

definition calls_work :: "socket_calls \<Rightarrow> bool" where
  "calls_work c \<longleftrightarrow> rc_getaddrinfo c = (\<lambda>_ _ _. 0) \<and> found c \<noteq> [] \<and> 0 \<le> rc_socket c \<and> setNonBlocking c
     \<and> disableNagle c \<and> (\<forall>addr. rc_connect c addr = 0 \<and> rc_bind c addr = 0) \<and> rc_reuseaddr c = 0
     \<and> (\<forall>n. rc_listen c n = 0) \<and> setSOTimestamp c"

definition listening_works :: "'n kernel \<Rightarrow> bool" where
  "listening_works K \<longleftrightarrow> (case kn_listen K of (rc_kqueue, c, rc_kevent) \<Rightarrow>
     0 \<le> rc_kqueue \<and> calls_work c \<and> rc_kevent \<noteq> - 1)"

definition connecting_works :: "'n kernel \<Rightarrow> ('n \<Rightarrow> net_view) \<Rightarrow> bool" where
  "connecting_works K view \<longleftrightarrow> (\<forall>n. case kn_connect K n of (c, n') \<Rightarrow>
     calls_work c \<and> (\<exists>fd. view n' = (view n)\<lparr>links := links (view n) @ [(rc_socket c, fd)]\<rparr>))"

text \<open>
  \<open>kevent\<close> reports registered sockets that are readable, and the listener when connections wait;
  the server registers the listener and then, in order, the sockets of the connections it accepts.
\<close>

definition polling_works :: "'n kernel \<Rightarrow> ('n \<Rightarrow> net_view) \<Rightarrow> bool" where
  "polling_works K view \<longleftrightarrow> (\<forall>n. case kn_poll K n of (evs, conns, n') \<Rightarrow>
     (\<forall>ev \<in> set evs. ev_filter ev = EVFILT_READ \<and> \<not> ev_closed ev \<and> ev_socket ev \<le> accepted (view n))
     \<and> (0 \<in> ev_socket ` set evs \<longleftrightarrow> accepted (view n) < length (links (view n)))
     \<and> map fst conns = map snd (drop (accepted (view n)) (links (view n))) \<and> (\<forall>conn \<in> set conns. conn_ok conn)
     \<and> view n' = (view n)\<lparr>accepted := length (links (view n))\<rparr>)"

text \<open>
  Once the two clients are connected, a socket reads all that was sent to it, and the kernel
  takes all that is sent.
\<close>

definition two_links :: "net_view \<Rightarrow> bool" where
  "two_links v \<longleftrightarrow> length (links v) = 2 \<and> accepted v = 2"

definition client_io_works :: "'n kernel \<Rightarrow> ('n \<Rightarrow> net_view) \<Rightarrow> bool" where
  "client_io_works K view \<longleftrightarrow> (\<forall>n. \<forall>i < 2. two_links (view n) \<longrightarrow>
     (let fds = [fst (links (view n) ! i)] in
      rx_bytes (fst (kn_io K fds n) 0) = down (view n) i
      \<and> (\<forall>buf. snd (kn_io K fds n) 0 buf = length buf)
      \<and> (\<forall>w. view (kn_io_done K fds [w] n) =
            (view n)\<lparr>down := (down (view n))(i := []), up := (up (view n))(i := up (view n) i @ w)\<rparr>)))"

definition server_io_works :: "'n kernel \<Rightarrow> ('n \<Rightarrow> net_view) \<Rightarrow> bool" where
  "server_io_works K view \<longleftrightarrow> (\<forall>n. two_links (view n) \<longrightarrow>
     (let fds = map snd (links (view n)) in
      (\<forall>k < 2. rx_bytes (fst (kn_io K fds n) k) = up (view n) k
        \<and> (\<forall>buf. snd (kn_io K fds n) k buf = length buf))
      \<and> (\<forall>ws. length ws = 2 \<longrightarrow> view (kn_io_done K fds ws n) =
            (view n)\<lparr>up := (up (view n))(0 := [], 1 := []),
                     down := (down (view n))(0 := down (view n) 0 @ ws ! 0, 1 := down (view n) 1 @ ws ! 1)\<rparr>)))"

definition loopback :: "'n kernel \<Rightarrow> ('n \<Rightarrow> net_view) \<Rightarrow> bool" where
  "loopback K view \<longleftrightarrow> listening_works K \<and> connecting_works K view \<and> polling_works K view
     \<and> client_io_works K view \<and> server_io_works K view \<and> (\<forall>n. view (kn_sleep K n) = view n)"

section \<open>The server between two calls\<close>

lemma poll_event_known:
  assumes "ev_filter ev = EVFILT_READ" and "\<not> ev_closed ev" and "ev_socket ev \<in> insert 0 (set (receive_sockets sv))"
  shows "poll_event ev (new, sv) = ret (new \<or> ev_socket ev = 0, sv)"
proof (cases "ev_socket ev = 0")
  case True
  then show ?thesis using assms(1) by (simp add: poll_event_def)
next
  case False
  then have "ev_socket ev \<in> set (receive_sockets sv)" using assms(3) by simp
  then show ?thesis using assms(1,2) False by (simp add: poll_event_def push_missing_def Let_def)
qed

lemma poll_events_known:
  assumes "\<forall>ev \<in> set evs. ev_filter ev = EVFILT_READ \<and> \<not> ev_closed ev \<and> ev_socket ev \<in> insert 0 (set (receive_sockets sv))"
  shows "poll_events evs (new, sv) = ret (new \<or> 0 \<in> ev_socket ` set evs, sv)"
  using assms
proof (induction evs arbitrary: new)
  case (Cons ev evs)
  have "poll_event ev (new, sv) = ret (new \<or> ev_socket ev = 0, sv)"
    by (rule poll_event_known) (use Cons.prems in auto)
  moreover have "poll_events evs (new \<or> ev_socket ev = 0, sv) = ret ((new \<or> ev_socket ev = 0) \<or> 0 \<in> ev_socket ` set evs, sv)"
    by (rule Cons.IH) (use Cons.prems in simp)
  ultimately show ?case by (auto simp: eq_commute [of 0])
qed simp

definition serving :: "(int \<times> int) list \<Rightarrow> TCPServer \<Rightarrow> bool" where
  "serving ls sv \<longleftrightarrow> sv_ok sv \<and> all_ready 0 sv \<and> send_sockets sv = [] \<and> recv_finished_callback sv = Some 0
     \<and> server_recv_callback sv = Some 0 \<and> receive_sockets sv = [1..<Suc (length ls)]
     \<and> next_address sv = Suc (length ls) \<and> (\<forall>j < length ls. fd_of sv (Suc j) = snd (ls ! j))"

lemma serving_accept:
  assumes "serving ls sv" and "conn_ok conn"
  shows "\<exists>sv'. accept_one conn sv = ret sv' \<and> serving (ls @ [(cfd, fst conn)]) sv'"
proof -
  obtain fd c rc where conn: "conn = (fd, c, rc)" by (cases conn)
  let ?s = "TCPSocket_new\<lparr>socket_fd := fd, recv_callback := server_recv_callback sv\<rparr>"
  let ?sv = "sv\<lparr>sockets := (sockets sv)(next_address sv \<mapsto> ?s), next_address := Suc (next_address sv),
    registered := registered sv @ [next_address sv], receive_sockets := receive_sockets sv @ [next_address sv]\<rparr>"
  have run: "accept_one conn sv = ret ?sv"
    using assms(2) by (simp add: accept_one_def conn conn_ok_def addToKqueueList_def ASSERT_def Let_def)
  then have "sv_ok ?sv" using accept_one_effect [of sv conn] assms by (auto simp: serving_def)
  moreover have "ready 0 ?s" using socket_ok_new assms(1)
    by (simp add: ready_def socket_ok_def outgoing_def incoming_def TCPSocket_new_def serving_def)
  then have "all_ready 0 ?sv" using assms(1) by (auto simp: serving_def all_ready_def)
  moreover have "fd_of ?sv (Suc j) = snd ((ls @ [(cfd, fst conn)]) ! j)" if "j < Suc (length ls)" for j
  proof (cases "j = length ls")
    case True
    then show ?thesis using assms(1) conn by (simp add: serving_def fd_of_def)
  next
    case False
    then have j: "j < length ls" using that by simp
    then have "fd_of ?sv (Suc j) = fd_of sv (Suc j)" using assms(1) by (simp add: serving_def fd_of_def)
    then show ?thesis using assms(1) j by (simp add: serving_def nth_append)
  qed
  ultimately have "serving (ls @ [(cfd, fst conn)]) ?sv" using assms(1) by (simp add: serving_def)
  then show ?thesis using run by blast
qed

text \<open>A call of \<open>poll\<close> accepts the connection that waits, and changes nothing when none does.\<close>

lemma server_poll_serves:
  assumes net: "polling_works K view" and sv: "serving (take (accepted v) (links v)) (ex_server st)"
    and v: "v = view (ex_net st)" "accepted v \<le> length (links v)" "length (links v) \<le> Suc (accepted v)"
  shows "\<exists>sv n. server_poll K st = ret (st\<lparr>ex_server := sv, ex_net := n\<rparr>) \<and> serving (links v) sv
    \<and> view n = v\<lparr>accepted := length (links v)\<rparr>"
proof -
  obtain evs conns n where k: "kn_poll K (ex_net st) = (evs, conns, n)" by (cases "kn_poll K (ex_net st)") auto
  have law: "\<forall>ev \<in> set evs. ev_filter ev = EVFILT_READ \<and> \<not> ev_closed ev \<and> ev_socket ev \<le> accepted v"
    "0 \<in> ev_socket ` set evs \<longleftrightarrow> accepted v < length (links v)"
    "map fst conns = map snd (drop (accepted v) (links v))" "\<forall>conn \<in> set conns. conn_ok conn"
    "view n = v\<lparr>accepted := length (links v)\<rparr>"
    using net v(1) k by (auto simp: polling_works_def split: prod.splits)
  have "set (receive_sockets (ex_server st)) = {1..accepted v}" using sv v(2) by (auto simp: serving_def)
  then have "\<forall>ev \<in> set evs. ev_socket ev \<in> insert 0 (set (receive_sockets (ex_server st)))" using law(1) by auto
  then have evs: "poll_events evs (False, ex_server st) = ret (accepted v < length (links v), ex_server st)"
    using poll_events_known [of evs "ex_server st" False] law(1,2) by simp
  show ?thesis
  proof (cases "accepted v = length (links v)")
    case True
    then have "server_poll K st = ret (st\<lparr>ex_server := ex_server st, ex_net := n\<rparr>)"
      using evs k by (simp add: server_poll_def poll_def)
    then show ?thesis using True law(5) sv by (intro exI [of _ "ex_server st"] exI [of _ n]) simp
  next
    case False
    then have len: "length (links v) = Suc (accepted v)" using v by simp
    then have split: "take (accepted v) (links v) @ [links v ! accepted v] = links v"
      "drop (accepted v) (links v) = [links v ! accepted v]"
      by (metis take_Suc_conv_app_nth lessI take_all order_refl, metis Cons_nth_drop_Suc lessI drop_all order_refl)
    then obtain conn where conn: "conns = [conn]" "fst conn = snd (links v ! accepted v)" using law(3) by auto
    from serving_accept [OF sv, of conn "fst (links v ! accepted v)"] law(4) conn split(1)
    obtain sv' where "accept_one conn (ex_server st) = ret sv'" "serving (links v) sv'" by auto
    then show ?thesis using evs k law(5) conn len by (auto simp: server_poll_def poll_def)
  qed
qed

section \<open>A turn of a client\<close>

text \<open>The replies that the clients' callback printed, with the descriptor of the client.\<close>

primrec seen :: "printed list \<Rightarrow> (int \<times> byte list) list" where
  "seen [] = []"
| "seen (x # xs) = (case x of Client_Received fd n t msg \<Rightarrow> [(fd, msg)] | _ \<Rightarrow> []) @ seen xs"

lemma seen_append [simp]: "seen (xs @ ys) = seen xs @ seen ys"
  by (induction xs) simp_all

lemma seen_round [simp]: "seen (round_prints net fds i xs) = []"
  by (induction xs arbitrary: i) (simp_all add: answer_prints_def)

lemma finished_seen:
  "\<exists>out'. (if b then tcpServerRecvFinishedCallback h out else ret out) = ret out' \<and> seen out' = seen out"
  by (simp add: tcpServerRecvFinishedCallback_def)

lemma client_round:
  assumes c: "ready 1 c" and data: "length data \<le> TCPBufferSize" "length (rx_bytes r) \<le> TCPBufferSize"
    and take: "\<And>buf. ksend buf = length buf"
  shows "\<exists>c1 c2 out'. TCPSocket_send data c = ret c1 \<and> socket_fd c1 = socket_fd c
    \<and> TCPSocket_sendAndRecv r ksend callbacks c1 out = ret (rx_bytes r \<noteq> [], data, c2, out')
    \<and> ready 1 c2 \<and> socket_fd c2 = socket_fd c
    \<and> seen out' = seen out @ (if rx_bytes r = [] then [] else [(socket_fd c, rx_bytes r)])"
proof -
  obtain c1 where send: "TCPSocket_send data c = ret c1" and c1: "socket_ok c1" "outgoing c1 = data" "incoming c1 = []"
    using send_appends [of c data] c data(1) by (auto simp: ready_def simp del: length_buffers)
  have k: "recv_callback c1 = Some 1" "socket_fd c1 = socket_fd c"
    using send_keeps [OF send] c by (simp_all add: ready_def)
  show ?thesis
  proof (cases "rx_bytes r = []")
    case True
    then show ?thesis using round_idle [OF c1(1) True, of ksend callbacks out] send c1 k take by (auto simp: ready_def)
  next
    case False
    have "callbacks 1 = tcpClientRecvCallback" by (simp add: callbacks_def)
    from client_cb.round_replies [where code = callbacks, OF c1(1,3) k(1) this False data(2), of ksend out] send c1 k take False
    show ?thesis by (auto simp: ready_def client_prints_def)
  qed
qed

lemma server_round:
  assumes net: "server_io_works K view" and sv: "serving ls (ex_server st)" and two: "two_links v"
    and v: "v = view (ex_net st)" "ls = links v"
    and fits: "\<forall>k < 2. length greeting + length (up v k) \<le> TCPBufferSize"
  shows "\<exists>st'. server_sendAndRecv K st = ret st' \<and> serving ls (ex_server st') \<and> ex_clients st' = ex_clients st
    \<and> view (ex_net st') = v\<lparr>up := (up v)(0 := [], 1 := []),
        down := (down v)(0 := down v 0 @ answer (up v 0), 1 := down v 1 @ answer (up v 1))\<rparr>
    \<and> seen (ex_out st') = seen (ex_out st)"
proof -
  let ?sv = "ex_server st" and ?fds = "map snd ls"
  obtain net ksend where io: "kn_io K ?fds (ex_net st) = (net, ksend)" by (cases "kn_io K ?fds (ex_net st)")
  have law: "\<forall>k < 2. rx_bytes (net k) = up v k" "\<forall>k < 2. \<forall>buf. ksend k buf = length buf"
    "\<And>ws. length ws = 2 \<Longrightarrow> view (kn_io_done K ?fds ws (ex_net st)) = v\<lparr>up := (up v)(0 := [], 1 := []),
        down := (down v)(0 := down v 0 @ ws ! 0, 1 := down v 1 @ ws ! 1)\<rparr>"
    using net io two v by (auto simp: server_io_works_def Let_def)
  have two': "length ls = 2" using two v by (simp add: two_links_def)
  then have rs: "receive_sockets ?sv = [1, 2]" and fds: "fd_of ?sv 1 = snd (ls ! 0)" "fd_of ?sv 2 = snd (ls ! 1)"
    using sv by (auto simp: serving_def numeral_2_eq_2 upt_rec)
  have sok: "sv_ok ?sv" "all_ready 0 ?sv" "send_sockets ?sv = []" "recv_finished_callback ?sv = Some 0"
    using sv by (simp_all add: serving_def)
  have eq: "map (fd_of ?sv) (receive_sockets ?sv @ send_sockets ?sv) = ?fds"
    using rs fds sok(3) two' by (cases ls rule: list.exhaust; cases "tl ls") auto
  have "callbacks 0 = tcpServerRecvCallback" by (simp add: callbacks_def)
  from serve_round [where code = callbacks and net = net and ksend = ksend and finished = tcpServerRecvFinishedCallback and out = "ex_out st",
      OF sok this] rs law(1,2) fits obtain socks where
    run: "TCPServer_sendAndRecv net ksend callbacks tcpServerRecvFinishedCallback ?sv (ex_out st) =
      (let out' = ex_out st @ round_prints net (fd_of ?sv) 0 (receive_sockets ?sv) in
       obind (if \<exists>k < length (receive_sockets ?sv). rx_bytes (net k) \<noteq> []
              then tcpServerRecvFinishedCallback 0 out' else ret out')
        (\<lambda>out''. ret (zip (receive_sockets ?sv)
           (map (\<lambda>k. answer (rx_bytes (net k))) [0..<length (receive_sockets ?sv)]), ?sv\<lparr>sockets := socks\<rparr>, out'')))"
    and sv': "sv_ok (?sv\<lparr>sockets := socks\<rparr>)" "all_ready 0 (?sv\<lparr>sockets := socks\<rparr>)"
      "fd_of (?sv\<lparr>sockets := socks\<rparr>) = fd_of ?sv" by auto
  have "serving ls (?sv\<lparr>sockets := socks\<rparr>)" using sv sv' by (simp add: serving_def)
  moreover obtain out' where out': "seen out' = seen (ex_out st)"
    "(if \<exists>k < length (receive_sockets ?sv). rx_bytes (net k) \<noteq> []
      then tcpServerRecvFinishedCallback 0 (ex_out st @ round_prints net (fd_of ?sv) 0 (receive_sockets ?sv))
      else ret (ex_out st @ round_prints net (fd_of ?sv) 0 (receive_sockets ?sv))) = ret out'"
    using finished_seen [of "\<exists>k < length (receive_sockets ?sv). rx_bytes (net k) \<noteq> []" 0
        "ex_out st @ round_prints net (fd_of ?sv) 0 (receive_sockets ?sv)"] by auto
  moreover from run out'(2) have "TCPServer_sendAndRecv net ksend callbacks tcpServerRecvFinishedCallback ?sv (ex_out st)
       = ret ([(1, answer (up v 0)), (2, answer (up v 1))], ?sv\<lparr>sockets := socks\<rparr>, out')"
    unfolding Let_def using law(1) by (simp add: rs upt_rec)
  ultimately show ?thesis using law(3) [of "[answer (up v 0), answer (up v 1)]"] io
    unfolding server_sendAndRecv_def Let_def eq by auto
qed

text \<open>
  The state between two turns: the server serves the connections \<open>ls\<close>, the clients of these
  connections are ready, nothing is on its way to the server, and \<open>d i\<close> is on its way to client \<open>i\<close>.
\<close>

definition exchanging ::
  "('n \<Rightarrow> net_view) \<Rightarrow> (int \<times> int) list \<Rightarrow> (nat \<Rightarrow> byte list) \<Rightarrow> 'n example \<Rightarrow> bool" where
  "exchanging view ls d st \<longleftrightarrow> serving ls (ex_server st) \<and> length (ex_clients st) = 2
     \<and> (\<forall>i < length ls. \<exists>c. ex_clients st ! i = Some c \<and> ready 1 c \<and> socket_fd c = fst (ls ! i))
     \<and> links (view (ex_net st)) = ls \<and> accepted (view (ex_net st)) = length ls
     \<and> (\<forall>i < 2. up (view (ex_net st)) i = [] \<and> down (view (ex_net st)) i = d i)"

definition reply :: "nat \<Rightarrow> nat \<Rightarrow> byte list" where
  "reply itr i = greeting @ bytes_of (client_msg itr i)"

definition fits :: "byte list \<Rightarrow> bool" where
  "fits bs \<longleftrightarrow> length bs \<le> TCPBufferSize"

text \<open>The first half of a turn: the client sends its message and prints what it receives.\<close>

lemma client_turn_sends:
  assumes net: "client_io_works K view" and ex: "exchanging view ls d st" and i: "i < 2" "length ls = 2"
    and data: "fits data" "fits (d i)" and c: "ex_clients st ! i = Some c"
  shows "\<exists>c1 st'. TCPSocket_send data c = ret c1 \<and> client_sendAndRecv K i c1 st = ret st'
    \<and> ex_server st' = ex_server st \<and> length (ex_clients st') = 2
    \<and> (\<forall>j < 2. \<exists>c. ex_clients st' ! j = Some c \<and> ready 1 c \<and> socket_fd c = fst (ls ! j))
    \<and> view (ex_net st') = (view (ex_net st))\<lparr>down := (down (view (ex_net st)))(i := []),
        up := (up (view (ex_net st)))(i := data)\<rparr>
    \<and> seen (ex_out st') = seen (ex_out st) @ (if d i = [] then [] else [(fst (ls ! i), d i)])"
proof -
  let ?v = "view (ex_net st)" and ?fds = "[fst (ls ! i)]"
  have v: "two_links ?v" "links ?v = ls" "up ?v i = []" "down ?v i = d i"
    using ex i by (auto simp: exchanging_def two_links_def)
  obtain nt ksend where io: "kn_io K ?fds (ex_net st) = (nt, ksend)" by (cases "kn_io K ?fds (ex_net st)")
  have law: "rx_bytes (nt 0) = d i" "\<And>buf. ksend 0 buf = length buf"
    "\<And>w. view (kn_io_done K ?fds [w] (ex_net st)) = ?v\<lparr>down := (down ?v)(i := []), up := (up ?v)(i := w)\<rparr>"
    using net io v i(1) unfolding client_io_works_def Let_def by fastforce+
  have cl: "ready 1 c" "socket_fd c = fst (ls ! i)" using ex i c by (auto simp: exchanging_def)
  from client_round [where ksend = "ksend 0" and r = "nt 0" and out = "ex_out st" and data = data, OF cl(1)]
    data law(1,2) obtain c1 c2 out' where
    run: "TCPSocket_send data c = ret c1" "socket_fd c1 = socket_fd c"
      "TCPSocket_sendAndRecv (nt 0) (ksend 0) callbacks c1 (ex_out st) = ret (d i \<noteq> [], data, c2, out')"
    and c2: "ready 1 c2" "socket_fd c2 = socket_fd c"
    and out': "seen out' = seen (ex_out st) @ (if d i = [] then [] else [(socket_fd c, d i)])"
    by (auto simp: fits_def)
  let ?st = "st\<lparr>ex_clients := (ex_clients st)[i := Some c2], ex_out := out', ex_net := kn_io_done K ?fds [data] (ex_net st)\<rparr>"
  have "client_sendAndRecv K i c1 st = ret ?st"
    using run(2,3) cl(2) io by (simp add: client_sendAndRecv_def)
  moreover have "\<exists>c. ex_clients ?st ! j = Some c \<and> ready 1 c \<and> socket_fd c = fst (ls ! j)" if "j < 2" for j
    using that ex i c2 cl(2) by (cases "j = i") (auto simp: exchanging_def)
  ultimately show ?thesis using run(1) law(3) [of data] out' cl(2) ex
    by (intro exI [of _ c1] exI [of _ ?st]) (auto simp: exchanging_def)
qed

lemma client_turn_replies:
  assumes net: "loopback K view" and ex: "exchanging view ls d st" and i: "i < 2" "length ls = 2"
    and data: "fits (reply itr i)" "fits (d i)"
  shows "\<exists>st'. client_turn K itr i st = ret st' \<and> exchanging view ls (d(i := reply itr i)) st'
    \<and> seen (ex_out st') = seen (ex_out st) @ (if d i = [] then [] else [(fst (ls ! i), d i)])"
proof -
  let ?v = "view (ex_net st)" and ?msg = "client_msg itr i"
  let ?st1 = "st\<lparr>ex_out := ex_out st @ [Sending i ?msg]\<rparr>"
  obtain c where c: "ex_clients st ! i = Some c" using ex i by (auto simp: exchanging_def)
  have ex1: "exchanging view ls d ?st1" using ex by (simp add: exchanging_def)
  have fit: "fits (bytes_of ?msg)" using data(1) by (simp add: fits_def reply_def)
  from client_turn_sends [OF _ ex1 i fit data(2), of K c] net c obtain c1 st2 where
    st2: "TCPSocket_send (bytes_of ?msg) c = ret c1" "client_sendAndRecv K i c1 ?st1 = ret st2"
      "ex_server st2 = ex_server st" "length (ex_clients st2) = 2"
      "\<forall>j < 2. \<exists>c. ex_clients st2 ! j = Some c \<and> ready 1 c \<and> socket_fd c = fst (ls ! j)"
      "view (ex_net st2) = ?v\<lparr>down := (down ?v)(i := []), up := (up ?v)(i := bytes_of ?msg)\<rparr>"
      "seen (ex_out st2) = seen (ex_out st) @ (if d i = [] then [] else [(fst (ls ! i), d i)])"
    by (auto simp: loopback_def)
  let ?st3 = "st2\<lparr>ex_net := kn_sleep K (ex_net st2)\<rparr>"
  let ?v2 = "view (ex_net st2)"
  have v2: "view (ex_net ?st3) = ?v2" "links ?v2 = ls" "accepted ?v2 = length ls"
    using net st2(6) ex by (simp_all add: loopback_def exchanging_def)
  have "polling_works K view" "serving (take (accepted ?v2) (links ?v2)) (ex_server ?st3)"
    using net ex st2(3) v2 by (simp_all add: loopback_def exchanging_def)
  from server_poll_serves [OF this v2(1) [symmetric]] obtain sv n where
    p: "server_poll K ?st3 = ret (?st3\<lparr>ex_server := sv, ex_net := n\<rparr>)" "serving ls sv"
    and n: "view n = ?v2\<lparr>accepted := length ls\<rparr>" unfolding v2(2,3) by (metis order_refl le_SucI)
  have p3: "view n = ?v2" using n v2(3) by simp
  let ?st4 = "?st3\<lparr>ex_server := sv, ex_net := n\<rparr>"
  have msg: "answer (bytes_of ?msg) = reply itr i" by (simp add: answer_def reply_def bytes_of_def client_msg_def)
  have up2: "up ?v2 k = (if k = i then bytes_of ?msg else [])" "down ?v2 k = (if k = i then [] else d k)" if "k < 2" for k
    using st2(6) ex that by (simp_all add: exchanging_def)
  have "server_io_works K view" "serving ls (ex_server ?st4)" "two_links ?v2" "?v2 = view (ex_net ?st4)" "ls = links ?v2"
    using net p(2) p3 v2 i(2) by (simp_all add: loopback_def two_links_def)
  moreover have "\<forall>k < 2. length greeting + length (up ?v2 k) \<le> TCPBufferSize"
    using up2(1) data(1) by (auto simp: fits_def reply_def)
  ultimately obtain st5 where st5: "server_sendAndRecv K ?st4 = ret st5" "serving ls (ex_server st5)"
    "ex_clients st5 = ex_clients st2" "seen (ex_out st5) = seen (ex_out st2)"
    "view (ex_net st5) = ?v2\<lparr>up := (up ?v2)(0 := [], 1 := []),
        down := (down ?v2)(0 := down ?v2 0 @ answer (up ?v2 0), 1 := down ?v2 1 @ answer (up ?v2 1))\<rparr>"
    using server_round [of K view ls ?st4 ?v2] by auto
  have "client_turn K itr i st = ret st5"
    using c st2(1,2) p(1) st5(1) by (simp add: client_turn_def Let_def)
  moreover have "up (view (ex_net st5)) k = [] \<and> down (view (ex_net st5)) k = (d(i := reply itr i)) k" if "k < 2" for k
    using that up2 [of 0] up2 [of 1] st5(5) msg by (auto simp: less_2_cases_iff answer_def)
  ultimately show ?thesis using st5 st2 v2 i(2) by (auto simp: exchanging_def)
qed

section \<open>The loops\<close>

lemma for_each_append: "for_each body (xs @ ys) st = obind (for_each body xs st) (for_each body ys)"
proof (induction xs arbitrary: st)
  case (Cons x xs)
  then have "for_each body (xs @ ys) = (\<lambda>st. obind (for_each body xs st) (for_each body ys))" by (rule ext)
  then show ?case by (simp add: obind_assoc)
qed simp

lemma length_to_string: "length (to_string n) \<le> Suc n"
proof (induction n rule: less_induct)
  case (less n)
  have "length (to_string (n div 10)) \<le> n" if "\<not> n < 10"
  proof -
    have "n div 10 < n" using that by simp
    then show ?thesis using less [of "n div 10"] by simp
  qed
  then show ?case by (subst to_string.simps) simp
qed

lemma reply_fits_buffer: "itr < 5 \<Longrightarrow> i < 2 \<Longrightarrow> fits (reply itr i)"
  using length_to_string [of i] length_to_string [of "itr * 100 + i"]
  by (simp add: fits_def reply_def client_msg_def bytes_of_def greeting_def TCPBufferSize_def)

lemma exchanging_cong: "exchanging view ls d st \<Longrightarrow> \<forall>i < 2. d i = d' i \<Longrightarrow> exchanging view ls d' st"
  by (simp add: exchanging_def)

definition heard :: "(int \<times> int) list \<Rightarrow> (nat \<Rightarrow> byte list) \<Rightarrow> (int \<times> byte list) list" where
  "heard ls d = concat (map (\<lambda>i. if d i = [] then [] else [(fst (ls ! i), d i)]) [0..<2])"

lemma iteration:
  assumes net: "loopback K view" and ex: "exchanging view ls d st" and ls: "length ls = 2" and itr: "itr < 5"
    and d: "\<forall>i < 2. fits (d i)"
  shows "\<exists>st'. for_each (client_turn K itr) [0..<2] st = ret st' \<and> exchanging view ls (reply itr) st'
    \<and> seen (ex_out st') = seen (ex_out st) @ heard ls d"
proof -
  let ?d = "d(0 := reply itr 0)"
  obtain st1 where st1: "client_turn K itr 0 st = ret st1" "exchanging view ls ?d st1"
    "seen (ex_out st1) = seen (ex_out st) @ (if d 0 = [] then [] else [(fst (ls ! 0), d 0)])"
    using client_turn_replies [OF net ex _ ls reply_fits_buffer [OF itr], of 0] d by auto
  obtain st2 where st2: "client_turn K itr 1 st1 = ret st2" "exchanging view ls (?d(1 := reply itr 1)) st2"
    "seen (ex_out st2) = seen (ex_out st1) @ (if d 1 = [] then [] else [(fst (ls ! 1), d 1)])"
    using client_turn_replies [OF net st1(2) _ ls reply_fits_buffer [OF itr], of 1] d by auto
  have "exchanging view ls (reply itr) st2" by (rule exchanging_cong [OF st2(2)]) (auto simp: less_2_cases_iff)
  then show ?thesis using st1 st2 by (simp add: upt_rec heard_def)
qed

lemma iterations:
  assumes net: "loopback K view" and ex: "exchanging view ls (\<lambda>_. []) st" and ls: "length ls = 2" and n: "n < 5"
  shows "\<exists>st'. for_each (\<lambda>itr. for_each (client_turn K itr) [0..<2]) [0..<Suc n] st = ret st'
    \<and> exchanging view ls (reply n) st'
    \<and> seen (ex_out st') = seen (ex_out st) @ concat (map (\<lambda>itr. heard ls (reply itr)) [0..<n])"
  using n
proof (induction n)
  case 0
  have "heard ls (\<lambda>_. []) = []" by (simp add: heard_def)
  then show ?case using iteration [OF net ex ls, of 0] by (auto simp: fits_def)
next
  case (Suc n)
  then obtain st1 where st1: "for_each (\<lambda>itr. for_each (client_turn K itr) [0..<2]) [0..<Suc n] st = ret st1"
    "exchanging view ls (reply n) st1"
    "seen (ex_out st1) = seen (ex_out st) @ concat (map (\<lambda>itr. heard ls (reply itr)) [0..<n])" by auto
  from iteration [OF net st1(2) ls Suc.prems] reply_fits_buffer [of n] Suc.prems obtain st2 where
    st2: "for_each (client_turn K (Suc n)) [0..<2] st1 = ret st2" "exchanging view ls (reply (Suc n)) st2"
    "seen (ex_out st2) = seen (ex_out st1) @ heard ls (reply n)" by auto
  have "[0..<Suc (Suc n)] = [0..<Suc n] @ [Suc n]" by simp
  then show ?case using st1 st2 by (simp only: for_each_append) simp
qed

section \<open>Setting up the connections\<close>

lemma createSocket_works: "calls_work c \<Longrightarrow> createSocket c cfg = ret (rc_socket c)"
  by (auto simp: createSocket_def calls_work_def ASSERT_def guard_def Let_def split: list.splits)

lemma connect_client_links:
  assumes net: "loopback K view" and ex: "exchanging view ls d st" and ls: "length ls < 2"
  shows "\<exists>l st'. connect_client K (length ls) st = ret st' \<and> exchanging view (ls @ [l]) d st'
    \<and> seen (ex_out st') = seen (ex_out st)"
proof -
  let ?v = "view (ex_net st)"
  obtain c n where k: "kn_connect K (ex_net st) = (c, n)" by (cases "kn_connect K (ex_net st)")
  have "connecting_works K view" using net by (simp add: loopback_def)
  from this [unfolded connecting_works_def, rule_format, of "ex_net st"] k obtain fd where
    works: "calls_work c" and v: "view n = ?v\<lparr>links := links ?v @ [(rc_socket c, fd)]\<rparr>" by auto
  let ?l = "(rc_socket c, fd)" and ?c = "TCPSocket_new\<lparr>recv_callback := Some 1, socket_fd := rc_socket c, socket_attrib :=
    (socket_attrib TCPSocket_new)\<lparr>sin_addr := INADDR_ANY, sin_port := htons (word_of_int port), sin_family := AF_INET\<rparr>\<rparr>"
  let ?st1 = "st\<lparr>ex_clients := (ex_clients st)[length ls := Some ?c], ex_net := n,
    ex_out := ex_out st @ [Connecting (length ls) ip iface port]\<rparr>"
  have run: "connect_client K (length ls) st = server_poll K ?st1"
    using k createSocket_works [OF works] by (simp add: connect_client_def TCPSocket_connect_def SocketCfg.make_def)
  have vn: "links (view n) = ls @ [?l]" "accepted (view n) = length ls" using v ex by (simp_all add: exchanging_def)
  have "polling_works K view" "serving (take (accepted (view n)) (links (view n))) (ex_server ?st1)"
    "view n = view (ex_net ?st1)"
    using net ex vn by (simp_all add: loopback_def exchanging_def)
  from server_poll_serves [OF this] vn obtain sv n' where
    p: "server_poll K ?st1 = ret (?st1\<lparr>ex_server := sv, ex_net := n'\<rparr>)" "serving (ls @ [?l]) sv"
      "view n' = (view n)\<lparr>accepted := Suc (length ls)\<rparr>" by (auto simp del: obind_simps)
  let ?st = "?st1\<lparr>ex_server := sv, ex_net := n'\<rparr>"
  have "ready 1 ?c" using socket_ok_new
    by (simp add: ready_def socket_ok_def outgoing_def incoming_def TCPSocket_new_def)
  then have "\<exists>c. ex_clients ?st ! i = Some c \<and> ready 1 c \<and> socket_fd c = fst ((ls @ [?l]) ! i)"
    if "i < Suc (length ls)" for i
    using that ex ls by (cases "i = length ls") (auto simp: exchanging_def nth_append)
  then have "exchanging view (ls @ [?l]) d ?st" using ex p v by (simp add: exchanging_def)
  then show ?thesis using run p(1) by (intro exI [of _ ?l] exI [of _ ?st]) simp
qed

lemma connect_clients:
  assumes net: "loopback K view" and ex: "exchanging view [] d st"
  shows "\<exists>ls st'. for_each (connect_client K) [0..<2] st = ret st' \<and> exchanging view ls d st' \<and> length ls = 2
    \<and> seen (ex_out st') = seen (ex_out st)"
proof -
  from connect_client_links [OF net ex] obtain l1 st1 where
    st1: "connect_client K 0 st = ret st1" "exchanging view [l1] d st1" "seen (ex_out st1) = seen (ex_out st)" by auto
  from connect_client_links [OF net st1(2)] obtain l2 st2 where
    st2: "connect_client K 1 st1 = ret st2" "exchanging view [l1, l2] d st2" "seen (ex_out st2) = seen (ex_out st1)" by auto
  show ?thesis using st1 st2 by (intro exI [of _ "[l1, l2]"] exI [of _ st2]) (simp add: upt_rec)
qed

lemma listen_serves:
  assumes "listening_works K" and "kn_listen K = (rq, c, rk)"
  shows "\<exists>sv. TCPServer_listen rq c rk iface port
      (TCPServer_new\<lparr>server_recv_callback := Some 0, recv_finished_callback := Some 0\<rparr>) = ret sv \<and> serving [] sv"
proof -
  have w: "0 \<le> rq" "calls_work c" "rk \<noteq> - 1" using assms by (simp_all add: listening_works_def)
  then have "0 \<le> rc_socket c" by (simp add: calls_work_def)
  then show ?thesis using w createSocket_works [OF w(2)] sv_ok_new
    by (simp add: TCPServer_listen_def TCPSocket_connect_def addToKqueueList_def ASSERT_def serving_def
        TCPServer_new_def sv_ok_def all_ready_def)
qed

section \<open>Properties\<close>

lemma heard_replies: "heard ls (reply itr) = map (\<lambda>i. (fst (ls ! i), reply itr i)) [0..<2]"
  by (simp add: heard_def reply_def greeting_def bytes_of_def upt_rec)

text \<open>
  C35. The example program on a loopback network runs to its end. The two clients read, in order
  and each on its own connection, the server's replies to their first four messages; the replies
  to the fifth are on their way when the program returns, and nobody reads them.
\<close>

theorem example_conversation:
  assumes "loopback K view" and "links (view n) = []" and "accepted (view n) = 0"
    and "\<forall>i < 2. up (view n) i = [] \<and> down (view n) i = []"
  shows "\<exists>st ls. example_main K n = ret st \<and> links (view (ex_net st)) = ls \<and> length ls = 2
    \<and> seen (ex_out st) = concat (map (\<lambda>itr. map (\<lambda>i. (fst (ls ! i), reply itr i)) [0..<2]) [0..<4])
    \<and> (\<forall>i < 2. down (view (ex_net st)) i = reply 4 i)"
proof -
  obtain rq c rk where k: "kn_listen K = (rq, c, rk)" by (cases "kn_listen K") auto
  have "listening_works K" using assms(1) by (simp add: loopback_def)
  from listen_serves [OF this k] obtain sv where
    sv: "TCPServer_listen rq c rk iface port
      (TCPServer_new\<lparr>server_recv_callback := Some 0, recv_finished_callback := Some 0\<rparr>) = ret sv" "serving [] sv" by blast
  let ?st = "\<lparr>ex_server = sv, ex_clients = replicate 2 None, ex_net = n, ex_out = [Creating iface port]\<rparr>"
  have "exchanging view [] (\<lambda>_. []) ?st" using sv(2) assms(2-4) by (simp add: exchanging_def)
  from connect_clients [OF assms(1) this] obtain ls st1 where
    st1: "for_each (connect_client K) [0..<2] ?st = ret st1" "exchanging view ls (\<lambda>_. []) st1" "length ls = 2"
    "seen (ex_out st1) = []" by auto
  from iterations [OF assms(1) st1(2,3), of 4] obtain st2 where
    st2: "for_each (\<lambda>itr. for_each (client_turn K itr) [0..<2]) [0..<5] st1 = ret st2" "exchanging view ls (reply 4) st2"
    "seen (ex_out st2) = seen (ex_out st1) @ concat (map (\<lambda>itr. heard ls (reply itr)) [0..<4])" by auto
  have "example_main K n = ret st2"
    using k sv(1) st1(1) st2(1) by (simp add: example_main_def Let_def)
  then show ?thesis using st1(3,4) st2(2,3) heard_replies by (auto simp: exchanging_def)
qed

text \<open>A loopback network: connection \<open>i\<close> has the descriptors \<open>10 + 2 * i\<close> and \<open>11 + 2 * i\<close>.\<close>

type_synonym lo_net = "nat \<times> nat \<times> (nat \<Rightarrow> byte list) \<times> (nat \<Rightarrow> byte list)"

definition lo_view :: "lo_net \<Rightarrow> net_view" where
  "lo_view = (\<lambda>(k, a, u, d). \<lparr>links = map (\<lambda>i. (10 + 2 * int i, 11 + 2 * int i)) [0..<k], accepted = a, up = u, down = d\<rparr>)"

definition lo_index :: "int \<Rightarrow> nat" where
  "lo_index fd = nat ((fd - 10) div 2)"

definition lo_send :: "int \<times> byte list \<Rightarrow> (nat \<Rightarrow> byte list) \<times> (nat \<Rightarrow> byte list) \<Rightarrow> (nat \<Rightarrow> byte list) \<times> (nat \<Rightarrow> byte list)" where
  "lo_send = (\<lambda>(fd, w) (u, d). let i = lo_index fd in
     if even fd then (u(i := u i @ w), d(i := [])) else (u(i := []), d(i := d i @ w)))"

definition lo_kernel :: "lo_net kernel" where
  "lo_kernel =
     \<lparr>kn_listen = (3, good_calls, 0),
      kn_connect = (\<lambda>(k, a, u, d). (good_calls\<lparr>rc_socket := 10 + 2 * int k\<rparr>, (Suc k, a, u, d))),
      kn_poll = (\<lambda>(k, a, u, d). (if a < k then [\<lparr>ev_filter = EVFILT_READ, ev_closed = False, ev_socket = 0\<rparr>] else [],
         map (\<lambda>i. (11 + 2 * int i, good_calls, 0)) [a..<k], (k, k, u, d))),
      kn_io = (\<lambda>fds (k, a, u, d). (\<lambda>j. \<lparr>rx_bytes = (if even (fds ! j) then d else u) (lo_index (fds ! j)), rx_time = None\<rparr>, \<lambda>_. length)),
      kn_io_done = (\<lambda>fds ws (k, a, u, d). (k, a, fold lo_send (zip fds ws) (u, d))),
      kn_sleep = (\<lambda>n. n)\<rparr>"

lemma good_calls_work [simp]: "0 \<le> fd \<Longrightarrow> calls_work (good_calls\<lparr>rc_socket := fd\<rparr>)" "calls_work good_calls"
  by (simp_all add: calls_work_def good_calls_def setNonBlocking_def O_NONBLOCK_def disableNagle_def setSOTimestamp_def)

lemma lo_index_simps [simp]: "lo_index 10 = 0" "lo_index 11 = 0" "lo_index 12 = 1" "lo_index 13 = 1"
  by (simp_all add: lo_index_def)

lemma lo_two: "two_links (lo_view (k, a, u, d)) \<longleftrightarrow> k = 2 \<and> a = 2"
  by (auto simp: two_links_def lo_view_def)

lemma lo_links: "links (lo_view (2, a, u, d)) = [(10, 11), (12, 13)]"
  by (simp add: lo_view_def upt_rec numeral_2_eq_2)

lemma lo_polling: "polling_works lo_kernel lo_view"
  by (auto simp: polling_works_def lo_kernel_def lo_view_def drop_map conn_ok_def)

lemma lo_client_io: "client_io_works lo_kernel lo_view"
  unfolding client_io_works_def
  by (auto simp: lo_two lo_links less_2_cases_iff Let_def lo_kernel_def lo_send_def) (simp_all add: lo_view_def)

lemma lo_server_io: "server_io_works lo_kernel lo_view"
  unfolding server_io_works_def
  by (auto simp: lo_two lo_links less_2_cases_iff Let_def lo_kernel_def lo_send_def length_Suc_conv numeral_2_eq_2
      less_Suc_eq)
    (simp_all add: lo_view_def)

lemma lo_loopback: "loopback lo_kernel lo_view"
proof -
  have "listening_works lo_kernel" "connecting_works lo_kernel lo_view"
    by (auto simp: listening_works_def connecting_works_def lo_kernel_def lo_view_def)
  then show ?thesis using lo_polling lo_client_io lo_server_io by (simp add: loopback_def) (simp add: lo_kernel_def)
qed

theorem example_conversation_witness:
  "\<exists>st ls. example_main lo_kernel (0, 0, \<lambda>_. [], \<lambda>_. []) = ret st \<and> links (lo_view (ex_net st)) = ls \<and> length ls = 2
    \<and> seen (ex_out st) = concat (map (\<lambda>itr. map (\<lambda>i. (fst (ls ! i), reply itr i)) [0..<2]) [0..<4])
    \<and> (\<forall>i < 2. down (lo_view (ex_net st)) i = reply 4 i)"
  using example_conversation [OF lo_loopback, of "(0, 0, \<lambda>_. [], \<lambda>_. [])"] by (simp add: lo_view_def)

end
