(* ===== verification/Dotenv.thy ===== *)
theory Dotenv
  imports Exchange_Prelude
begin

text \<open>
  The loader of environment files, \<open>include/cppexchange/dotenv.h\<close>. The environment of the process
  is a map and part of the state; the contents of the file are an argument, \<open>None\<close> if it cannot
  be opened. What the code prints is a list of messages. A position in a string is a number,
  \<open>None\<close> is \<open>std::string::npos\<close>; differences of positions are taken modulo \<open>2 ^ 64\<close>, as the code
  computes them.
\<close>

unbundle bit_operations_syntax

section \<open>Strings of the standard library\<close>

type_synonym environment = "string \<rightharpoonup> string"
type_synonym position = "nat option"

definition size_diff :: "nat \<Rightarrow> nat \<Rightarrow> nat" where
  "size_diff a b = nat ((int a - int b) mod 2 ^ 64)"

definition str_find :: "string \<Rightarrow> string \<Rightarrow> position \<Rightarrow> position" where
  "str_find s pat pos =
     (case pos of
        None \<Rightarrow> None
      | Some p \<Rightarrow> List.find (\<lambda>i. take (length pat) (drop i s) = pat) [p..<length s])"

definition npos_min :: "position \<Rightarrow> position \<Rightarrow> position" where
  "npos_min a b =
     (case a of None \<Rightarrow> b | Some x \<Rightarrow> (case b of None \<Rightarrow> a | Some y \<Rightarrow> Some (min x y)))"

text \<open>\<open>substr\<close> throws when it starts behind the end of the string.\<close>

definition substr :: "string \<Rightarrow> nat \<Rightarrow> nat \<Rightarrow> string outcome" where
  "substr s pos len = (if pos \<le> length s then ret (take len (drop pos s)) else throw Out_Of_Range)"

definition c_str :: "string \<Rightarrow> string" where
  "c_str s = takeWhile (\<lambda>c. c \<noteq> CHR 0x00) s"

definition isspace :: "char \<Rightarrow> bool" where
  "isspace c \<longleftrightarrow> (of_char c :: nat) \<in> {9, 10, 11, 12, 13, 32}"

text \<open>\<open>setenv\<close> refuses an empty name and a name with an equality sign.\<close>

definition setenv :: "string \<Rightarrow> string \<Rightarrow> bool \<Rightarrow> environment \<Rightarrow> environment" where
  "setenv name val overwrite env =
     (if name = '''' \<or> CHR ''='' \<in> set name then env
      else if \<not> overwrite \<and> env name \<noteq> None then env
      else env(name \<mapsto> val))"

text \<open>\<open>std::getline\<close> until it fails: a final line without a newline counts, an empty rest does not.\<close>

function getlines :: "string \<Rightarrow> string list" where
  "getlines [] = []"
| "getlines (c # cs) =
     takeWhile (\<lambda>c. c \<noteq> CHR 0x0A) (c # cs) # getlines (drop 1 (dropWhile (\<lambda>c. c \<noteq> CHR 0x0A) (c # cs)))"
  by pat_completeness auto
termination
proof (relation "measure length", goal_cases)
  case (2 c cs)
  have "length (dropWhile (\<lambda>c. c \<noteq> CHR 0x0A) (c # cs)) \<le> length (c # cs)" by (rule length_dropWhile_le)
  then show ?case by simp
qed simp

section \<open>The class\<close>

definition Preserve :: "32 word" where "Preserve = 1"
definition OptionsNone :: "32 word" where "OptionsNone = 0"

datatype message = Not_Defined string nat | Ill_Formed nat string

definition dotenv_getenv :: "string \<Rightarrow> string \<Rightarrow> environment \<Rightarrow> string" where
  "dotenv_getenv name def env = (case env (c_str name) of Some str \<Rightarrow> str | None \<Rightarrow> def)"

definition find_var_start :: "string \<Rightarrow> position \<Rightarrow> position \<times> string" where
  "find_var_start str pos =
     (let p1 = str_find str ''$'' pos;
          p2 = str_find str ''${'' pos;
          pos_var = npos_min p1 p2
      in (pos_var, if pos_var \<noteq> None then (if pos_var = p2 then ''${'' else ''$'') else ''''))"

definition find_var_end :: "string \<Rightarrow> position \<Rightarrow> string \<Rightarrow> position" where
  "find_var_end str pos start_tag =
     (let end_tag = (if start_tag = ''${'' then CHR ''}'' else CHR '' '');
          pos_end = str_find str [end_tag] pos
      in if pos_end = None \<and> end_tag = CHR '' '' then Some (length str) else pos_end)"

definition ltrim :: "string \<Rightarrow> string" where
  "ltrim s = dropWhile isspace s"

definition rtrim :: "string \<Rightarrow> string" where
  "rtrim s = rev (dropWhile isspace (rev s))"

definition trim_copy :: "string \<Rightarrow> string" where
  "trim_copy s = rtrim (ltrim s)"

text \<open>
  The loop of \<open>resolve_vars\<close>; its state is \<open>pos\<close>, \<open>pre_pos\<close>, the number of unresolved variables,
  the text resolved so far and the messages.
\<close>

partial_function (option) resolve_loop ::
  "environment \<Rightarrow> nat \<Rightarrow> string \<Rightarrow> position \<Rightarrow> nat \<Rightarrow> nat \<Rightarrow> string \<Rightarrow> message list
    \<Rightarrow> (nat \<times> nat \<times> string \<times> message list) outcome" where
  "resolve_loop env iline str pos pre_pos nvar resolved out =
     (case find_var_start str pos of
        (None, _) \<Rightarrow> ret (pre_pos, nvar, resolved, out)
      | (Some pos_start, start_tag) \<Rightarrow>
          (let lstart = length start_tag; lend = (if lstart > 1 then 1 else 0) in
           obind (substr str pre_pos (size_diff pos_start pre_pos)) (\<lambda>pre.
           case find_var_end str (Some pos_start) start_tag of
             None \<Rightarrow> resolve_loop env iline str None pre_pos (nvar + 1) (resolved @ pre) out
           | Some pos' \<Rightarrow>
               obind (substr str pos_start (size_diff pos' pos_start + 1)) (\<lambda>var.
               obind (substr var lstart (size_diff (size_diff (length var) lstart) lend)) (\<lambda>env_var.
               case env (c_str (rtrim env_var)) of
                 Some env_str \<Rightarrow>
                   resolve_loop env iline str (Some pos') (pos' + lend) nvar (resolved @ pre @ env_str) out
               | None \<Rightarrow>
                   resolve_loop env iline str (Some pos') (pos' + lend) (nvar + 1) (resolved @ pre)
                     (out @ [Not_Defined var iline]))))))"

definition resolve_vars :: "environment \<Rightarrow> nat \<Rightarrow> string \<Rightarrow> (string \<times> bool \<times> message list) outcome" where
  "resolve_vars env iline str =
     obind (resolve_loop env iline str (Some 0) 0 0 '''' []) (\<lambda>(pre_pos, nvar, resolved, out).
     if pre_pos < length str
     then obind (substr str pre_pos (length str)) (\<lambda>rest. ret (resolved @ rest, nvar = 0, out))
     else ret (resolved, nvar = 0, out))"

definition strip_quotes :: "string \<Rightarrow> string" where
  "strip_quotes str =
     (let len = length str in
      if len < 2 then str
      else let first = str ! 0; lst = str ! (len - 1) in
        if first = lst \<and> (CHR 0x22 = first \<or> CHR 0x27 = first) then take (len - 2) (drop 1 str) else str)"

definition init_line :: "32 word \<Rightarrow> 32 word \<Rightarrow> string \<Rightarrow> environment \<times> message list
    \<Rightarrow> (environment \<times> message list) outcome" where
  "init_line flags i line = (\<lambda>(env, out).
     case str_find line ''='' (Some 0) of
       None \<Rightarrow> ret (env, out @ [Ill_Formed (unat i) line])
     | Some pos \<Rightarrow>
         obind (substr line 0 pos) (\<lambda>lhs.
         obind (substr line (pos + 1) (length line)) (\<lambda>rhs.
         let name = trim_copy lhs; line_stripped = strip_quotes (trim_copy rhs) in
         obind (resolve_vars env (unat i) line_stripped) (\<lambda>(val, ok, out').
         if \<not> ok then ret (env, out @ out' @ [Ill_Formed (unat i) line])
         else ret (setenv (c_str name) (c_str val) ((NOT flags AND Preserve) \<noteq> 0) env, out @ out')))))"

primrec init_lines :: "32 word \<Rightarrow> 32 word \<Rightarrow> string list \<Rightarrow> environment \<times> message list
    \<Rightarrow> (environment \<times> message list) outcome" where
  "init_lines flags i [] st = ret st"
| "init_lines flags i (line # lines) st = obind (init_line flags i line st) (init_lines flags (i + 1) lines)"

definition do_init :: "32 word \<Rightarrow> string option \<Rightarrow> environment \<Rightarrow> (environment \<times> message list) outcome" where
  "do_init flags file env =
     (case file of
        None \<Rightarrow> ret (env, [])
      | Some content \<Rightarrow> init_lines flags 1 (getlines content) (env, []))"

definition dotenv_init :: "string option \<Rightarrow> environment \<Rightarrow> (environment \<times> message list) outcome" where
  "dotenv_init file env = do_init OptionsNone file env"

definition dotenv_init_flags :: "32 word \<Rightarrow> string option \<Rightarrow> environment \<Rightarrow> (environment \<times> message list) outcome" where
  "dotenv_init_flags flags file env = do_init flags file env"

section \<open>The replacement of setenv on Windows\<close>

text \<open>
  The C library of Windows has no \<open>setenv\<close>; the code builds it from \<open>getenv_s\<close>, which gives an error
  code and the size of the value with its terminator, and \<open>_putenv_s\<close>. Both are parameters, and
  so is what they act on.
\<close>

definition setenv_msvc ::
  "(string \<Rightarrow> 'e \<Rightarrow> int \<times> nat) \<Rightarrow> (string \<Rightarrow> string \<Rightarrow> 'e \<Rightarrow> int \<times> 'e) \<Rightarrow> string \<Rightarrow> string \<Rightarrow> bool \<Rightarrow> 'e \<Rightarrow> int \<times> 'e"
where
  "setenv_msvc getenv_s putenv_s name val overwrite e =
     (if \<not> overwrite then
        (case getenv_s name e of
           (errcode, envsize) \<Rightarrow>
             if errcode \<noteq> 0 \<or> envsize \<noteq> 0 then (errcode, e) else putenv_s name val e)
      else putenv_s name val e)"

text \<open>
  As documented: the size is 0 for a name that is not set, and an empty value removes the name.
\<close>

definition crt_environment ::
  "(string \<Rightarrow> 'e \<Rightarrow> int \<times> nat) \<Rightarrow> (string \<Rightarrow> string \<Rightarrow> 'e \<Rightarrow> int \<times> 'e) \<Rightarrow> ('e \<Rightarrow> environment) \<Rightarrow> bool"
where
  "crt_environment getenv_s putenv_s view \<longleftrightarrow> (\<forall>name val e.
     getenv_s name e = (0, case view e name of None \<Rightarrow> 0 | Some v \<Rightarrow> length v + 1)
     \<and> fst (putenv_s name val e) = 0
     \<and> view (snd (putenv_s name val e)) = (view e)(name := if val = '''' then None else Some val))"

text \<open>It agrees with \<open>setenv\<close> for the values that are not empty; an empty one deletes the variable.\<close>

lemma setenv_msvc_agrees:
  assumes "crt_environment getenv_s putenv_s view" and "name \<noteq> ''''" and "CHR ''='' \<notin> set name" and "val \<noteq> ''''"
  shows "view (snd (setenv_msvc getenv_s putenv_s name val overwrite e)) = setenv name val overwrite (view e)"
    and "fst (setenv_msvc getenv_s putenv_s name val overwrite e) = 0"
proof -
  note crt = assms(1) [unfolded crt_environment_def, rule_format, of name e val]
  show "view (snd (setenv_msvc getenv_s putenv_s name val overwrite e)) = setenv name val overwrite (view e)"
    using crt assms(2-4) by (cases "view e name") (auto simp: setenv_msvc_def setenv_def)
  show "fst (setenv_msvc getenv_s putenv_s name val overwrite e) = 0"
    using crt by (cases "view e name") (auto simp: setenv_msvc_def)
qed

lemma setenv_msvc_empty_value:
  assumes "crt_environment getenv_s putenv_s view" and "name \<noteq> ''''" and "CHR ''='' \<notin> set name"
  shows "view (snd (setenv_msvc getenv_s putenv_s name '''' True e)) name = None"
    and "setenv name '''' True (view e) name = Some ''''"
  using assms(1) [unfolded crt_environment_def, rule_format, of name e "''''"] assms(2,3)
  by (simp_all add: setenv_msvc_def setenv_def)

text \<open>A process whose environment is a map has such functions.\<close>

lemma crt_environment_map:
  "crt_environment (\<lambda>name e. (0, case e name of None \<Rightarrow> 0 | Some v \<Rightarrow> length v + 1))
     (\<lambda>name val e. (0, e(name := if val = '''' then None else Some val))) (\<lambda>e. e)"
  by (simp add: crt_environment_def)

end
