(* ===== verification/Dotenv_Properties.thy ===== *)
theory Dotenv_Properties
  imports Dotenv
begin

text \<open>
  What loading an environment file does: the search for references, the reference definition of
  a text with references, the proof that the loop of the source computes it, and files as lists
  of assignments.
\<close>

section \<open>Searching and cutting\<close>

lemma size_diff [simp]:
  assumes "b \<le> a" and "a < 2 ^ 64"
  shows "size_diff a b = a - b"
proof -
  have "int a < int (2 ^ 64)" using assms(2) unfolding of_nat_less_iff .
  then have "int a - int b < 2 ^ 64" "0 \<le> int a - int b" using assms(1) by simp_all
  then have "(int a - int b) mod 2 ^ 64 = int a - int b" by (intro mod_pos_pos_trivial)
  then show ?thesis by (simp add: size_diff_def nat_diff_distrib assms(1))
qed

lemma find_upt_Some:
  assumes "P i" and "p \<le> i" and "i < n" and "\<And>j. p \<le> j \<Longrightarrow> j < i \<Longrightarrow> \<not> P j"
  shows "List.find P [p..<n] = Some i"
  unfolding find_Some_iff using assms by (intro exI [of _ "i - p"]) auto

lemma find_upt_None: "(\<And>j. p \<le> j \<Longrightarrow> j < n \<Longrightarrow> \<not> P j) \<Longrightarrow> List.find P [p..<n] = None"
  by (simp add: find_None_iff)

lemma find_upt_SomeD: "List.find P [p..<n] = Some i \<Longrightarrow> P i \<and> p \<le> i \<and> i < n"
  unfolding find_Some_iff by auto

lemma take_one: "j < length s \<Longrightarrow> take (length [c]) (drop j s) = [c] \<longleftrightarrow> s ! j = c"
  by (metis Cons_nth_drop_Suc One_nat_def length_Cons list.inject list.size(3) take_0 take_Suc_Cons)

lemma find_char:
  assumes "s = a @ pre @ c # post" and "p = length a" and "c \<notin> set pre"
  shows "str_find s [c] (Some p) = Some (p + length pre)"
  unfolding str_find_def option.case
proof (rule find_upt_Some)
  show "take (length [c]) (drop (p + length pre) s) = [c]" using assms by simp
  show "\<not> take (length [c]) (drop j s) = [c]" if "p \<le> j" "j < p + length pre" for j
  proof -
    have "s ! j = pre ! (j - p)" "j < length s" "j - p < length pre" using that assms by (auto simp: nth_append)
    then show ?thesis using assms(3) by (metis nth_mem take_one)
  qed
qed (use assms in simp_all)

lemma find_char_None:
  assumes "s = a @ post" and "p = length a" and "c \<notin> set post"
  shows "str_find s [c] (Some p) = None"
  unfolding str_find_def option.case
proof (rule find_upt_None)
  show "\<not> take (length [c]) (drop j s) = [c]" if "p \<le> j" "j < length s" for j
  proof -
    have "s ! j = post ! (j - p)" "j - p < length post" using that assms by (auto simp: nth_append)
    then show ?thesis using assms(3) take_one [OF that(2)] by (metis nth_mem)
  qed
qed

text \<open>The next reference: the text before it, and whether it has braces.\<close>

lemma not_brace_at: "j < length s \<Longrightarrow> s ! j \<noteq> CHR ''$'' \<Longrightarrow> \<not> take (length ''${'') (drop j s) = ''${''"
  by (metis Cons_nth_drop_Suc length_Cons list.inject take_Suc_Cons)

lemma find_start_None:
  assumes "s = a @ post" and "p = length a" and "CHR ''$'' \<notin> set post"
  shows "find_var_start s (Some p) = (None, '''')"
proof -
  have "str_find s ''${'' (Some p) = None"
    unfolding str_find_def option.case
  proof (rule find_upt_None, rule not_brace_at)
    show "s ! j \<noteq> CHR ''$''" if "p \<le> j" "j < length s" for j
      using that assms by (auto simp: nth_append) (metis add_diff_inverse_nat linorder_not_less nat_add_left_cancel_less nth_mem)
  qed
  then show ?thesis using find_char_None [OF assms] by (simp add: find_var_start_def npos_min_def)
qed

lemma find_start_Some:
  assumes "s = a @ pre @ CHR ''$'' # post" and "p = length a" and "CHR ''$'' \<notin> set pre"
  shows "find_var_start s (Some p) =
    (Some (p + length pre), if post \<noteq> [] \<and> hd post = CHR ''{'' then ''${'' else ''$'')"
proof -
  let ?q = "p + length pre"
  have p1: "str_find s ''$'' (Some p) = Some ?q" by (rule find_char [OF assms])
  have at: "take (length ''${'') (drop ?q s) = ''${'' \<longleftrightarrow> post \<noteq> [] \<and> hd post = CHR ''{''"
    using assms(1,2) by (cases post) auto
  have below: "\<not> take (length ''${'') (drop j s) = ''${''" if "p \<le> j" "j < ?q" for j
  proof (rule not_brace_at)
    have "s ! j = pre ! (j - p)" "j - p < length pre" using that assms by (auto simp: nth_append)
    then show "s ! j \<noteq> CHR ''$''" using assms(3) by (metis nth_mem)
  qed (use that assms in simp)
  show ?thesis
  proof (cases "post \<noteq> [] \<and> hd post = CHR ''{''")
    case True
    have "str_find s ''${'' (Some p) = Some ?q"
      unfolding str_find_def option.case
      by (rule find_upt_Some) (use True at below assms(1,2) in auto)
    then show ?thesis using p1 True by (simp add: find_var_start_def npos_min_def)
  next
    case False
    have later: "str_find s ''${'' (Some p) \<noteq> Some i" if "i \<le> ?q" for i
    proof
      assume "str_find s ''${'' (Some p) = Some i"
      then have i: "take (length ''${'') (drop i s) = ''${''" "p \<le> i"
        unfolding str_find_def option.case by (blast dest: find_upt_SomeD)+
      from that consider "i < ?q" | "i = ?q" by linarith
      then show False
      proof cases
        case 1
        then show ?thesis using below i by blast
      next
        case 2
        then show ?thesis using at False i(1) by blast
      qed
    qed
    show ?thesis
    proof (cases "str_find s ''${'' (Some p)")
      case None
      then show ?thesis using p1 False by (auto simp: find_var_start_def npos_min_def)
    next
      case (Some i)
      then have "?q < i" using later [of i] by (meson linorder_not_less)
      then show ?thesis using Some p1 False by (auto simp: find_var_start_def npos_min_def min_def)
    qed
  qed
qed

section \<open>The reference definition\<close>

text \<open>
  What a text with references stands for: a reference is a dollar sign and either a name in
  braces or a name up to the next blank; it is replaced by the value of its variable. The
  result is \<open>None\<close> when a brace is not closed or a variable is not set.
\<close>

definition spliced :: "string \<Rightarrow> string option \<Rightarrow> string option \<Rightarrow> string option" where
  "spliced pre val rest = (case val of None \<Rightarrow> None | Some v \<Rightarrow> map_option (\<lambda>r. pre @ v @ r) rest)"

definition lookup :: "environment \<Rightarrow> string \<Rightarrow> string option" where
  "lookup env name = env (c_str (rtrim name))"

function expand :: "environment \<Rightarrow> string \<Rightarrow> string option" where
  "expand env s =
     (let pre = takeWhile (\<lambda>c. c \<noteq> CHR ''$'') s in
      case dropWhile (\<lambda>c. c \<noteq> CHR ''$'') s of
        [] \<Rightarrow> Some pre
      | _ # post \<Rightarrow>
          if post \<noteq> [] \<and> hd post = CHR ''{'' then
            if CHR ''}'' \<in> set post
            then spliced pre (lookup env (takeWhile (\<lambda>c. c \<noteq> CHR ''}'') (tl post)))
                   (expand env (drop 1 (dropWhile (\<lambda>c. c \<noteq> CHR ''}'') post)))
            else None
          else spliced pre (lookup env (takeWhile (\<lambda>c. c \<noteq> CHR '' '') post))
                 (expand env (dropWhile (\<lambda>c. c \<noteq> CHR '' '') post)))"
  by pat_completeness auto
termination
proof (relation "measure (\<lambda>(env, s). length s)", goal_cases)
  case (2 env s pre d post)
  then have "length (d # post) \<le> length s" by (metis length_dropWhile_le)
  then show ?case using length_dropWhile_le [of "\<lambda>c. c \<noteq> CHR ''}''" post] by simp
next
  case (3 env s pre d post)
  then have "length (d # post) \<le> length s" by (metis length_dropWhile_le)
  then show ?case using length_dropWhile_le [of "\<lambda>c. c \<noteq> CHR '' ''" post] by simp
qed simp

declare expand.simps [simp del]

text \<open>The reference definition on a text that is cut at its first reference.\<close>

lemma takeWhile_cut: "c \<notin> set pre \<Longrightarrow> takeWhile (\<lambda>x. x \<noteq> c) (pre @ c # post) = pre"
  by (induction pre) auto

lemma dropWhile_cut: "c \<notin> set pre \<Longrightarrow> dropWhile (\<lambda>x. x \<noteq> c) (pre @ c # post) = c # post"
  by (induction pre) auto

lemma expand_plain:
  assumes "CHR ''$'' \<notin> set s"
  shows "expand env s = Some s"
proof -
  have "dropWhile (\<lambda>c. c \<noteq> CHR ''$'') s = []" "takeWhile (\<lambda>c. c \<noteq> CHR ''$'') s = s"
    using assms by (auto simp: takeWhile_eq_all_conv)
  then show ?thesis by (subst expand.simps) (simp only: Let_def list.case)
qed

lemma expand_braces:
  assumes "CHR ''$'' \<notin> set pre" and "CHR ''}'' \<notin> set name"
  shows "expand env (pre @ ''${'' @ name @ CHR ''}'' # rest) = spliced pre (lookup env name) (expand env rest)"
  using assms takeWhile_cut [OF assms(2), of rest] dropWhile_cut [OF assms(2), of rest]
  by (subst expand.simps) (simp add: takeWhile_cut dropWhile_cut Let_def)

lemma expand_unclosed:
  "CHR ''$'' \<notin> set pre \<Longrightarrow> CHR ''}'' \<notin> set post \<Longrightarrow> expand env (pre @ ''${'' @ post) = None"
  by (subst expand.simps) (simp add: takeWhile_cut dropWhile_cut Let_def)

lemma expand_blank:
  assumes "CHR ''$'' \<notin> set pre" and "CHR '' '' \<notin> set name" and "rest = [] \<or> hd rest = CHR '' ''"
    and "hd (name @ rest) \<noteq> CHR ''{'' \<or> name @ rest = []"
  shows "expand env (pre @ CHR ''$'' # name @ rest) = spliced pre (lookup env name) (expand env rest)"
proof -
  have "takeWhile (\<lambda>c. c \<noteq> CHR '' '') (name @ rest) = name" "dropWhile (\<lambda>c. c \<noteq> CHR '' '') (name @ rest) = rest"
    using assms(2,3) by (cases rest; auto simp: takeWhile_eq_all_conv takeWhile_cut dropWhile_cut)+
  then show ?thesis using assms(1,4) by (subst expand.simps) (auto simp: takeWhile_cut dropWhile_cut Let_def)
qed

section \<open>The loop computes the reference definition\<close>

lemma loop_end:
  "find_var_start s pos = (None, t) \<Longrightarrow>
     resolve_loop env i s pos pre_pos nvar resolved out = ret (pre_pos, nvar, resolved, out)"
  by (subst resolve_loop.simps) simp

lemma loop_npos: "resolve_loop env i s None pre_pos nvar resolved out = ret (pre_pos, nvar, resolved, out)"
  by (rule loop_end [where t = "''''"]) (simp add: find_var_start_def str_find_def npos_min_def)

lemma loop_step:
  assumes "find_var_start s (Some p) = (Some q, tag)" and "length tag = l" and "lend = (if l > 1 then 1 else 0)"
    and "substr s pre_pos (size_diff q pre_pos) = ret pre" and "find_var_end s (Some q) tag = Some e"
    and "substr s q (size_diff e q + 1) = ret var"
    and "substr var l (size_diff (size_diff (length var) l) lend) = ret name"
  shows "resolve_loop env i s (Some p) pre_pos nvar resolved out =
    (case env (c_str (rtrim name)) of
       Some v \<Rightarrow> resolve_loop env i s (Some e) (e + lend) nvar (resolved @ pre @ v) out
     | None \<Rightarrow> resolve_loop env i s (Some e) (e + lend) (nvar + 1) (resolved @ pre) (out @ [Not_Defined var i]))"
  using assms by (subst resolve_loop.simps) (simp only: prod.case option.case Let_def obind_simps)

lemma loop_stuck:
  assumes "find_var_start s (Some p) = (Some q, tag)" and "substr s pre_pos (size_diff q pre_pos) = ret pre"
    and "find_var_end s (Some q) tag = None"
  shows "resolve_loop env i s (Some p) pre_pos nvar resolved out = ret (pre_pos, nvar + 1, resolved @ pre, out)"
  using assms by (subst resolve_loop.simps) (simp only: prod.case option.case Let_def obind_simps loop_npos)

text \<open>
  The three kinds of reference. The text up to \<open>pre_pos\<close> is \<open>a0 @ mid\<close>; the search starts behind
  \<open>a0\<close>, which is at the closing brace of the reference before, and \<open>mid\<close> has no dollar sign.
\<close>

lemma loop_braces:
  assumes s: "s = a0 @ mid @ pre @ ''${'' @ name @ CHR ''}'' # rest" and "length s < 2 ^ 64"
    and clean: "CHR ''$'' \<notin> set mid" "CHR ''$'' \<notin> set pre" "CHR ''}'' \<notin> set name"
    and e: "e = length (a0 @ mid @ pre) + 2 + length name"
  shows "resolve_loop env i s (Some (length a0)) (length (a0 @ mid)) nvar resolved out =
    (case lookup env name of
       Some v \<Rightarrow> resolve_loop env i s (Some e) (e + 1) nvar (resolved @ pre @ v) out
     | None \<Rightarrow> resolve_loop env i s (Some e) (e + 1) (nvar + 1) (resolved @ pre)
         (out @ [Not_Defined (''${'' @ name @ ''}'') i]))"
proof -
  let ?q = "length (a0 @ mid @ pre)"
  have start: "find_var_start s (Some (length a0)) = (Some ?q, ''${'')"
    using find_start_Some [of s a0 "mid @ pre" "CHR ''{'' # name @ CHR ''}'' # rest" "length a0"] s clean by simp
  have "str_find s [CHR ''}''] (Some ?q) = Some (?q + length (''${'' @ name))"
    using s clean by (intro find_char [where a = "a0 @ mid @ pre" and post = rest]) simp_all
  then have stop: "find_var_end s (Some ?q) ''${'' = Some e" using e by (simp add: find_var_end_def)
  have lt: "?q < 2 ^ 64" "e < 2 ^ 64" "length name + 3 < 2 ^ 64" using s assms(2) e by auto
  have pre: "substr s (length (a0 @ mid)) (size_diff ?q (length (a0 @ mid))) = ret pre"
    using s lt(1) by (simp add: substr_def)
  have var: "substr s ?q (size_diff e ?q + 1) = ret (''${'' @ name @ ''}'')"
    using s lt(2) e by (simp add: substr_def)
  have name: "substr (''${'' @ name @ ''}'') 2 (size_diff (size_diff (length (''${'' @ name @ ''}'')) 2) 1) = ret name"
    using lt(3) by (simp add: substr_def)
  show ?thesis
    unfolding lookup_def by (rule loop_step [OF start _ _ pre stop var name]) simp_all
qed

lemma loop_blank:
  assumes s: "s = a0 @ mid @ pre @ CHR ''$'' # name @ rest" and "length s < 2 ^ 64"
    and clean: "CHR ''$'' \<notin> set mid" "CHR ''$'' \<notin> set pre" "CHR '' '' \<notin> set name"
    and rest: "rest = [] \<or> hd rest = CHR '' ''" "hd (name @ rest) \<noteq> CHR ''{'' \<or> name @ rest = []"
    and e: "e = length (a0 @ mid @ pre) + 1 + length name"
  shows "resolve_loop env i s (Some (length a0)) (length (a0 @ mid)) nvar resolved out =
    (case lookup env name of
       Some v \<Rightarrow> resolve_loop env i s (Some e) e nvar (resolved @ pre @ v) out
     | None \<Rightarrow> resolve_loop env i s (Some e) e (nvar + 1) (resolved @ pre)
         (out @ [Not_Defined (CHR ''$'' # name @ take 1 rest) i]))"
proof -
  let ?q = "length (a0 @ mid @ pre)"
  have start: "find_var_start s (Some (length a0)) = (Some ?q, ''$'')"
    using find_start_Some [of s a0 "mid @ pre" "name @ rest" "length a0"] s clean rest(2) by auto
  have stop: "find_var_end s (Some ?q) ''$'' = Some e"
  proof (cases rest)
    case Nil
    then have "str_find s '' '' (Some ?q) = None"
      using s clean by (intro find_char_None [where a = "a0 @ mid @ pre" and post = "CHR ''$'' # name"]) simp_all
    then show ?thesis using Nil s e by (simp add: find_var_end_def)
  next
    case (Cons b more)
    then have "str_find s '' '' (Some ?q) = Some (?q + length (CHR ''$'' # name))"
      using s clean rest(1) by (intro find_char [where a = "a0 @ mid @ pre" and post = more]) simp_all
    then show ?thesis using e by (simp add: find_var_end_def)
  qed
  have lt: "?q < 2 ^ 64" "e < 2 ^ 64" "length name + length (take 1 rest) + 1 < 2 ^ 64" using s assms(2) e by auto
  have pre: "substr s (length (a0 @ mid)) (size_diff ?q (length (a0 @ mid))) = ret pre"
    using s lt(1) by (simp add: substr_def)
  let ?var = "CHR ''$'' # name @ take 1 rest"
  have var: "substr s ?q (size_diff e ?q + 1) = ret ?var"
    using s lt(2) e by (simp add: substr_def)
  have name: "substr ?var 1 (size_diff (size_diff (length ?var) 1) 0) = ret (name @ take 1 rest)"
    using lt(3) by (cases rest) (simp_all add: substr_def)
  have "rtrim (name @ take 1 rest) = rtrim name"
    using rest(1) by (cases rest) (auto simp: rtrim_def isspace_def)
  then have env: "env (c_str (rtrim (name @ take 1 rest))) = lookup env name" by (simp add: lookup_def)
  have "resolve_loop env i s (Some (length a0)) (length (a0 @ mid)) nvar resolved out =
    (case env (c_str (rtrim (name @ take 1 rest))) of
       Some v \<Rightarrow> resolve_loop env i s (Some e) (e + 0) nvar (resolved @ pre @ v) out
     | None \<Rightarrow> resolve_loop env i s (Some e) (e + 0) (nvar + 1) (resolved @ pre) (out @ [Not_Defined ?var i]))"
    by (rule loop_step [OF start _ _ pre stop var name]) simp_all
  then show ?thesis by (simp only: env add_0_right)
qed

lemma loop_unclosed:
  assumes s: "s = a0 @ mid @ pre @ ''${'' @ post" and "length s < 2 ^ 64"
    and clean: "CHR ''$'' \<notin> set mid" "CHR ''$'' \<notin> set pre" "CHR ''}'' \<notin> set post"
  shows "resolve_loop env i s (Some (length a0)) (length (a0 @ mid)) nvar resolved out =
    ret (length (a0 @ mid), nvar + 1, resolved @ pre, out)"
proof -
  let ?q = "length (a0 @ mid @ pre)"
  have start: "find_var_start s (Some (length a0)) = (Some ?q, ''${'')"
    using find_start_Some [of s a0 "mid @ pre" "CHR ''{'' # post" "length a0"] s clean by simp
  have "str_find s [CHR ''}''] (Some ?q) = None"
    using s clean by (intro find_char_None [where a = "a0 @ mid @ pre" and post = "''${'' @ post"]) simp_all
  then have stop: "find_var_end s (Some ?q) ''${'' = None" by (simp add: find_var_end_def)
  have pre: "substr s (length (a0 @ mid)) (size_diff ?q (length (a0 @ mid))) = ret pre"
    using s assms(2) by (simp add: substr_def)
  show ?thesis
    by (rule loop_stuck [OF start pre stop])
qed

text \<open>A text either has no reference or is cut at its first one in one of three ways.\<close>

lemma first_reference:
  obtains (plain) "CHR ''$'' \<notin> set s"
  | (braces) pre name rest where "s = pre @ ''${'' @ name @ CHR ''}'' # rest"
      "CHR ''$'' \<notin> set pre" "CHR ''}'' \<notin> set name"
  | (unclosed) pre post where "s = pre @ ''${'' @ post" "CHR ''$'' \<notin> set pre" "CHR ''}'' \<notin> set post"
  | (blank) pre name rest where "s = pre @ CHR ''$'' # name @ rest" "CHR ''$'' \<notin> set pre" "CHR '' '' \<notin> set name"
      "rest = [] \<or> hd rest = CHR '' ''" "hd (name @ rest) \<noteq> CHR ''{'' \<or> name @ rest = []"
proof (cases "CHR ''$'' \<in> set s")
  case True
  then obtain pre post where s: "s = pre @ CHR ''$'' # post" "CHR ''$'' \<notin> set pre"
    by (metis split_list_first)
  show thesis
  proof (cases "post \<noteq> [] \<and> hd post = CHR ''{''")
    case brace: True
    then obtain post' where p: "post = CHR ''{'' # post'" by (cases post) auto
    show thesis
    proof (cases "CHR ''}'' \<in> set post'")
      case True
      then obtain name rest where "post' = name @ CHR ''}'' # rest" "CHR ''}'' \<notin> set name"
        by (metis split_list_first)
      with s p show thesis by (intro braces) auto
    next
      case False
      with s p show thesis by (intro unclosed) auto
    qed
  next
    case False
    let ?name = "takeWhile (\<lambda>c. c \<noteq> CHR '' '') post" and ?rest = "dropWhile (\<lambda>c. c \<noteq> CHR '' '') post"
    have "CHR '' '' \<notin> set ?name" by (auto dest: set_takeWhileD)
    moreover have "?rest = [] \<or> hd ?rest = CHR '' ''"
      using hd_dropWhile [of "\<lambda>c. c \<noteq> CHR '' ''" post] by auto
    moreover have "post = ?name @ ?rest" by simp
    ultimately show thesis using s False by (intro blank [of pre ?name ?rest]) auto
  qed
qed (rule plain)

definition loop_result :: "string \<Rightarrow> nat \<Rightarrow> string \<Rightarrow> message list \<Rightarrow> string option \<Rightarrow> (nat \<times> nat \<times> string \<times> message list) outcome \<Rightarrow> bool" where
  "loop_result s nvar resolved out value r \<longleftrightarrow>
     (\<exists>pre_pos nvar' resolved' out'. r = ret (pre_pos, nvar', resolved', out') \<and> pre_pos \<le> length s
        \<and> (case value of
             Some v \<Rightarrow> nvar' = nvar \<and> resolved' @ drop pre_pos s = resolved @ v \<and> out' = out
           | None \<Rightarrow> nvar < nvar'))"

lemma loop_result_spliced:
  assumes "\<And>v. val = Some v \<Longrightarrow> loop_result s nvar (resolved @ pre @ v) out rest (r1 v)"
    and "val = None \<Longrightarrow> loop_result s (nvar + 1) (resolved @ pre) out' rest r2"
  shows "loop_result s nvar resolved out (spliced pre val rest) (case val of Some v \<Rightarrow> r1 v | None \<Rightarrow> r2)"
  using assms by (cases val; cases rest) (fastforce simp: loop_result_def spliced_def)+

lemma loop_computes:
  assumes "length s < 2 ^ 64" and "s = a0 @ mid @ b" and "CHR ''$'' \<notin> set mid"
  shows "loop_result s nvar resolved out (expand env b)
    (resolve_loop env i s (Some (length a0)) (length (a0 @ mid)) nvar resolved out)"
  using assms(2,3)
proof (induction "length b" arbitrary: a0 mid b nvar resolved out rule: less_induct)
  case less
  show ?case
  proof (cases b rule: first_reference)
    case plain
    then have "find_var_start s (Some (length a0)) = (None, '''')"
      using less.prems by (intro find_start_None [where a = a0 and post = "mid @ b"]) auto
    then show ?thesis using less.prems(1) by (simp add: loop_end expand_plain [OF plain] loop_result_def)
  next
    case (braces pre name rest)
    let ?e = "length (a0 @ mid @ pre) + 2 + length name"
    have s: "s = (a0 @ mid @ pre @ ''${'' @ name) @ ''}'' @ rest" using less.prems(1) braces(1) by simp
    have "loop_result s n res o' (expand env rest) (resolve_loop env i s (Some ?e) (?e + 1) n res o')" for n res o'
      using less.hyps [OF _ s] braces(1) by (simp add: add.assoc)
    note IH = this
    have s': "s = a0 @ mid @ pre @ ''${'' @ name @ CHR ''}'' # rest" using s by simp
    show ?thesis
      unfolding braces(1) expand_braces [OF braces(2,3)] loop_braces [OF s' assms(1) less.prems(2) braces(2,3) refl]
      by (rule loop_result_spliced) (rule IH)+
  next
    case (unclosed pre post)
    then show ?thesis
      using loop_unclosed [of s a0 mid pre post env i nvar resolved out] less.prems assms(1)
      by (simp add: expand_unclosed [simplified] loop_result_def)
  next
    case (blank pre name rest)
    let ?e = "length (a0 @ mid @ pre) + 1 + length name"
    have s: "s = (a0 @ mid @ pre @ CHR ''$'' # name) @ [] @ rest" using less.prems(1) blank(1) by simp
    have "loop_result s n res o' (expand env rest) (resolve_loop env i s (Some ?e) ?e n res o')" for n res o'
      using less.hyps [OF _ s] blank(1) by (simp add: add.assoc)
    note IH = this
    have s': "s = a0 @ mid @ pre @ CHR ''$'' # name @ rest" using s by simp
    show ?thesis
      unfolding blank(1) expand_blank [OF blank(2-5)] loop_blank [OF s' assms(1) less.prems(2) blank(2-5) refl]
      by (rule loop_result_spliced) (rule IH)+
  qed
qed

lemma resolve_vars_computes:
  assumes "length s < 2 ^ 64"
  shows "\<exists>val out. resolve_vars env i s = ret (val, expand env s \<noteq> None, out)
    \<and> (\<forall>v. expand env s = Some v \<longrightarrow> val = v \<and> out = [])"
proof -
  have "loop_result s 0 '''' [] (expand env s) (resolve_loop env i s (Some 0) 0 0 '''' [])"
    using loop_computes [OF assms, of "[]" "[]"] by simp
  then obtain pre_pos nvar resolved out where
    "resolve_loop env i s (Some 0) 0 0 '''' [] = ret (pre_pos, nvar, resolved, out)" "pre_pos \<le> length s"
    "case expand env s of Some v \<Rightarrow> nvar = 0 \<and> resolved @ drop pre_pos s = v \<and> out = [] | None \<Rightarrow> 0 < nvar"
    by (auto simp: loop_result_def split: option.splits)
  then show ?thesis
    by (cases "expand env s") (auto simp: resolve_vars_def substr_def)
qed

section \<open>Files\<close>

text \<open>The assignment a line stands for, and the environment after a list of lines.\<close>

definition assignment :: "environment \<Rightarrow> string \<Rightarrow> (string \<times> string) option" where
  "assignment env line =
     (if CHR ''='' \<notin> set line then None
      else map_option (\<lambda>v. (trim_copy (takeWhile (\<lambda>c. c \<noteq> CHR ''='') line), v))
        (expand env (strip_quotes (trim_copy (tl (dropWhile (\<lambda>c. c \<noteq> CHR ''='') line))))))"

definition assign :: "bool \<Rightarrow> environment \<Rightarrow> string \<Rightarrow> environment" where
  "assign overwrite env line =
     (case assignment env line of None \<Rightarrow> env | Some (n, v) \<Rightarrow> setenv (c_str n) (c_str v) overwrite env)"

lemma trimmed_length: "length (trim_copy s) \<le> length s"
  unfolding trim_copy_def rtrim_def ltrim_def length_rev
  by (metis length_dropWhile_le length_rev order_trans)

lemma stripped_length: "length (strip_quotes s) \<le> length s"
  by (simp add: strip_quotes_def Let_def)

lemma overwrite_iff: "(NOT flags AND Preserve) \<noteq> 0 \<longleftrightarrow> \<not> bit flags 0" for flags :: "32 word"
  by (simp add: Preserve_def and_one_eq bit_0 mod_2_eq_odd)

lemma init_line_computes:
  assumes "length line < 2 ^ 64"
  shows "\<exists>out'. init_line flags i line (env, out) = ret (assign (\<not> bit flags 0) env line, out @ out')
    \<and> (assignment env line \<noteq> None \<longrightarrow> out' = [])"
proof (cases "CHR ''='' \<in> set line")
  case False
  then have "str_find line ''='' (Some 0) = None"
    by (intro find_char_None [where a = "[]" and post = line]) simp_all
  then show ?thesis using False by (simp add: init_line_def assign_def assignment_def)
next
  case True
  then obtain lhs rhs where line: "line = lhs @ CHR ''='' # rhs" "CHR ''='' \<notin> set lhs"
    by (metis split_list_first)
  then have find: "str_find line ''='' (Some 0) = Some (length lhs)"
    using find_char [of line "[]" lhs _ rhs 0] by simp
  have a: "assignment env line = map_option (Pair (trim_copy lhs)) (expand env (strip_quotes (trim_copy rhs)))"
    using line by (simp add: assignment_def takeWhile_cut dropWhile_cut)
  have "length (strip_quotes (trim_copy rhs)) \<le> length rhs"
    using stripped_length trimmed_length by (rule order_trans)
  then have "length (strip_quotes (trim_copy rhs)) < 2 ^ 64" using assms line(1) by simp
  from resolve_vars_computes [OF this, of env "unat i"] obtain val out' where
    r: "resolve_vars env (unat i) (strip_quotes (trim_copy rhs)) =
      ret (val, expand env (strip_quotes (trim_copy rhs)) \<noteq> None, out')"
    "\<And>v. expand env (strip_quotes (trim_copy rhs)) = Some v \<Longrightarrow> val = v \<and> out' = []" by blast
  have sub: "substr line 0 (length lhs) = ret lhs" "substr line (length lhs + 1) (length line) = ret rhs"
    using line(1) by (simp_all add: substr_def)
  show ?thesis
  proof (cases "expand env (strip_quotes (trim_copy rhs))")
    case None
    then show ?thesis using a r(1) find sub by (simp add: init_line_def assign_def)
  next
    case (Some v)
    then show ?thesis using a r find sub by (simp add: init_line_def assign_def overwrite_iff)
  qed
qed

lemma init_lines_compute:
  assumes "\<forall>line \<in> set lines. length line < 2 ^ 64"
  shows "\<exists>out'. init_lines flags i lines (env, out) = ret (foldl (assign (\<not> bit flags 0)) env lines, out @ out')"
  using assms
proof (induction lines arbitrary: i env out)
  case (Cons line lines)
  then obtain out1 where
    "init_line flags i line (env, out) = ret (assign (\<not> bit flags 0) env line, out @ out1)"
    using init_line_computes [of line flags i env out] by auto
  moreover obtain out2 where "init_lines flags (i + 1) lines (assign (\<not> bit flags 0) env line, out @ out1) =
      ret (foldl (assign (\<not> bit flags 0)) (assign (\<not> bit flags 0) env line) lines, (out @ out1) @ out2)"
    using Cons.IH Cons.prems by fastforce
  ultimately show ?case by simp
qed simp

lemma getlines_length: "line \<in> set (getlines content) \<Longrightarrow> length line \<le> length content"
proof (induction content rule: getlines.induct)
  case (2 c cs)
  let ?P = "\<lambda>c. c \<noteq> CHR 0x0A"
  have "length (drop 1 (dropWhile ?P (c # cs))) \<le> length (c # cs)"
    using length_dropWhile_le [of ?P "c # cs"] by (simp only: length_drop)
  moreover have "length (takeWhile ?P (c # cs)) \<le> length (c # cs)" by (rule length_takeWhile_le)
  moreover from "2.prems" have "line = takeWhile ?P (c # cs) \<or> line \<in> set (getlines (drop 1 (dropWhile ?P (c # cs))))"
    by (simp only: getlines.simps list.set insert_iff)
  ultimately show ?case using "2.IH" by (metis order_trans)
qed simp

lemma do_init_computes:
  assumes "length content < 2 ^ 64"
  shows "\<exists>out. do_init flags (Some content) env = ret (foldl (assign (\<not> bit flags 0)) env (getlines content), out)"
proof -
  have "\<forall>line \<in> set (getlines content). length line < 2 ^ 64"
    using assms getlines_length by (meson order_le_less_trans)
  from init_lines_compute [OF this, of flags 1 env "[]"] show ?thesis by (auto simp: do_init_def)
qed

section \<open>Printing bindings\<close>

definition print_binding :: "string \<times> string \<Rightarrow> string" where
  "print_binding = (\<lambda>(n, v). n @ CHR ''='' # CHR 0x22 # v @ [CHR 0x22])"

definition print_file :: "(string \<times> string) list \<Rightarrow> string" where
  "print_file kvs = concat (map (\<lambda>b. print_binding b @ [CHR 0x0A]) kvs)"

definition clean_binding :: "string \<times> string \<Rightarrow> bool" where
  "clean_binding = (\<lambda>(n, v). n \<noteq> '''' \<and> \<not> isspace (hd n) \<and> \<not> isspace (last n)
     \<and> CHR ''='' \<notin> set n \<and> CHR 0x00 \<notin> set n \<union> set v \<and> CHR 0x0A \<notin> set n \<union> set v \<and> CHR ''$'' \<notin> set v)"

lemma trim_copy_id:
  assumes "s \<noteq> []" and "\<not> isspace (hd s)" and "\<not> isspace (last s)"
  shows "trim_copy s = s"
proof -
  have "ltrim s = s" using assms(1,2) by (cases s) (simp_all add: ltrim_def)
  moreover have "rtrim s = s" using assms(1,3) by (cases s rule: rev_cases) (simp_all add: rtrim_def)
  ultimately show ?thesis by (simp add: trim_copy_def)
qed

lemma c_str_id: "CHR 0x00 \<notin> set s \<Longrightarrow> c_str s = s"
  by (auto simp: c_str_def takeWhile_eq_all_conv)

lemma strip_quoted: "strip_quotes (CHR 0x22 # v @ [CHR 0x22]) = v"
  by (simp add: strip_quotes_def)

lemma assignment_printed:
  assumes "clean_binding (n, v)"
  shows "assignment env (print_binding (n, v)) = Some (n, v)"
proof -
  let ?q = "CHR 0x22 # v @ [CHR 0x22]"
  have "trim_copy n = n" using assms by (intro trim_copy_id) (auto simp: clean_binding_def)
  moreover have "trim_copy ?q = ?q" by (rule trim_copy_id) (simp_all add: isspace_def)
  moreover have "expand env v = Some v" using assms by (intro expand_plain) (simp add: clean_binding_def)
  ultimately show ?thesis
    using assms strip_quoted [of v]
    by (simp add: assignment_def print_binding_def clean_binding_def takeWhile_cut dropWhile_cut)
qed

lemma assign_printed:
  assumes "clean_binding (n, v)"
  shows "assign True env (print_binding (n, v)) = env(n \<mapsto> v)"
  using assms assignment_printed [OF assms, of env]
  by (auto simp: assign_def clean_binding_def c_str_id setenv_def)

lemma getlines_line:
  assumes "CHR 0x0A \<notin> set l"
  shows "getlines (l @ CHR 0x0A # rest) = l # getlines rest"
proof -
  obtain c cs where c: "c # cs = l @ CHR 0x0A # rest" by (metis list.exhaust append_is_Nil_conv list.discI)
  show ?thesis
    using getlines.simps(2) [of c cs] unfolding c takeWhile_cut [OF assms] dropWhile_cut [OF assms] by simp
qed

lemma getlines_print: "\<forall>b \<in> set kvs. clean_binding b \<Longrightarrow> getlines (print_file kvs) = map print_binding kvs"
proof (induction kvs)
  case (Cons b kvs)
  then have "CHR 0x0A \<notin> set (print_binding b)"
    by (cases b) (auto simp: clean_binding_def print_binding_def)
  from getlines_line [OF this, of "print_file kvs"] Cons show ?case by (simp add: print_file_def)
qed (simp add: print_file_def)

lemma init_lines_silent:
  assumes "\<forall>b \<in> set kvs. clean_binding b \<and> length (print_binding b) < 2 ^ 64" and "\<not> bit flags 0"
  shows "init_lines flags i (map print_binding kvs) (env, out) = ret (env ++ map_of (rev kvs), out)"
  using assms(1)
proof (induction kvs arbitrary: i env)
  case (Cons b kvs)
  obtain n v where b: "b = (n, v)" by (cases b)
  with Cons.prems have "init_line flags i (print_binding b) (env, out) = ret (env(n \<mapsto> v), out)"
    using init_line_computes [of "print_binding b" flags i env out] assms(2)
    by (auto simp: assign_printed assignment_printed)
  then show ?case using Cons b by simp
qed simp

lemma assign_keeps: "env \<subseteq>\<^sub>m assign False env line"
  by (auto simp: assign_def setenv_def map_le_def split: option.splits)

lemma foldl_assign_keeps: "env \<subseteq>\<^sub>m foldl (assign False) env lines"
proof (induction lines arbitrary: env)
  case (Cons line lines)
  show ?case using map_le_trans [OF assign_keeps Cons.IH] by simp
qed simp

section \<open>Properties\<close>

text \<open>
  C33. The loop that replaces references always ends, never cuts a string out of range, and
  computes the reference definition: the text is reported as resolved exactly when every
  reference has a value, and is then the text with the values in place of the references.
\<close>

theorem resolve_vars_expands:
  assumes "length str < 2 ^ 64"
  shows "\<exists>val out. resolve_vars env iline str = ret (val, expand env str \<noteq> None, out)
    \<and> (\<forall>v. expand env str = Some v \<longrightarrow> val = v \<and> out = [])"
  by (rule resolve_vars_computes [OF assms])

theorem resolve_vars_expands_witness:
  "expand [''A'' \<mapsto> ''1''] ''x${A}y $A'' = Some ''x1y 1''
   \<and> (\<exists>val out. resolve_vars [''A'' \<mapsto> ''1''] 1 ''x${A}y $A'' = ret (val, True, out) \<and> val = ''x1y 1'')"
proof -
  have e: "expand [''A'' \<mapsto> ''1''] ''x${A}y $A'' = Some ''x1y 1''"
    by (simp add: expand.simps lookup_def spliced_def c_str_def rtrim_def isspace_def)
  then show ?thesis
    using resolve_vars_expands [of "''x${A}y $A''" "[''A'' \<mapsto> ''1'']" 1] by auto
qed

text \<open>
  C34. A file is read back as it was printed: for names and values without the characters that have
  a meaning in a file, loading the quoted bindings sets exactly these variables, the last
  binding of a name wins, and nothing is printed.
\<close>

theorem dotenv_round_trip:
  assumes "\<forall>b \<in> set kvs. clean_binding b" and "length (print_file kvs) < 2 ^ 64" and "\<not> bit flags 0"
  shows "do_init flags (Some (print_file kvs)) env = ret (env ++ map_of (rev kvs), [])"
proof -
  have lines: "getlines (print_file kvs) = map print_binding kvs" by (rule getlines_print [OF assms(1)])
  have "length (print_binding b) < 2 ^ 64" if "b \<in> set kvs" for b
    using getlines_length [of "print_binding b" "print_file kvs"] that lines assms(2) by simp
  with assms(1,3) init_lines_silent [of kvs flags 1 env "[]"] lines show ?thesis by (simp add: do_init_def)
qed

theorem dotenv_round_trip_witness:
  "do_init OptionsNone (Some (print_file [(''HOST'', '' a b''), (''PORT'', ''1'')])) Map.empty =
     ret ([''HOST'' \<mapsto> '' a b'', ''PORT'' \<mapsto> ''1''], [])"
  using dotenv_round_trip [of "[(''HOST'', '' a b''), (''PORT'', ''1'')]" OptionsNone Map.empty]
  by (simp add: clean_binding_def isspace_def print_file_def print_binding_def OptionsNone_def)

text \<open>
  With the flag \<open>Preserve\<close> a file, whatever it contains, never changes a variable that was set
  before; loading it returns.
\<close>

theorem dotenv_preserves:
  assumes "bit flags 0" and "length content < 2 ^ 64"
  shows "\<exists>env' out. do_init flags (Some content) env = ret (env', out) \<and> env \<subseteq>\<^sub>m env'"
  using do_init_computes [OF assms(2), of flags env] assms(1) foldl_assign_keeps [of env "getlines content"] by auto

theorem dotenv_preserves_witness:
  "\<exists>env' out. do_init Preserve (Some ''A=2'') [''A'' \<mapsto> ''1''] = ret (env', out) \<and> env' ''A'' = Some ''1''"
proof -
  obtain env' out where "do_init Preserve (Some ''A=2'') [''A'' \<mapsto> ''1''] = ret (env', out)"
    "[''A'' \<mapsto> ''1''] \<subseteq>\<^sub>m env'"
    using dotenv_preserves [of Preserve "''A=2''" "[''A'' \<mapsto> ''1'']"] by (auto simp: Preserve_def)
  then show ?thesis by (auto simp: map_le_def)
qed

text \<open>
  A reference without braces ends only at a blank, so that two of them separated by another
  character are taken for one name; and a variable that is set to the empty string is not
  replaced by the default of \<open>getenv\<close>.
\<close>

lemma adjacent_references_are_one_name:
  "expand [''A'' \<mapsto> ''1'', ''B'' \<mapsto> ''2''] ''$A/$B'' = None"
  by (simp add: expand.simps lookup_def spliced_def c_str_def rtrim_def isspace_def)

lemma empty_value_is_no_default: "dotenv_getenv ''A'' ''default'' [''A'' \<mapsto> ''''] = ''''"
  by (simp add: dotenv_getenv_def c_str_def)

end
