(* ===== verification/Benchmark.thy ===== *)
theory Benchmark
  imports Exchange_Thread
begin

text \<open>
  The benchmark of \<open>standalone/benchmark_exchange_mt.cpp\<close>: the main thread warms the exchange up,
  then a producer sends orders, never more than one ahead of a consumer that reads the responses
  and computes latencies. Each thread is a function that takes its next step from its program
  point; \<open>bench_step\<close> interleaves them with the loop of the exchange. A step of the producer or
  consumer is one access to memory that the threads share; the body of the loop of the exchange
  is one step.
\<close>

section \<open>State\<close>

definition TOTAL_ORDERS :: nat where "TOTAL_ORDERS = 5000000"
definition MAX_IN_FLIGHT :: nat where "MAX_IN_FLIGHT = 1"
definition WARMUP_ORDERS :: nat where "WARMUP_ORDERS = 5000"
definition bench_queue_size :: nat where "bench_queue_size = 2 ^ 21"

lemmas bench_constants = TOTAL_ORDERS_def MAX_IN_FLIGHT_def WARMUP_ORDERS_def bench_queue_size_def

text \<open>The program points of the main thread, of the producer and of the consumer.\<close>

datatype main_point =
    Warm_Push nat | Warm_Wait nat | Spawn | Release | Join_Producer | Join_Consumer | Join_Exchange | Finished

datatype sender_point = S_New | S_Go | S_Wait | S_Fetch | S_Stamp nat | S_Push nat | S_Done

datatype reader_point =
    R_New | R_Go | R_Loop | R_Pop | R_Time ptr | R_Count nat int | R_Read nat int | R_Done

text \<open>
  The queues are those of the exchange. \<open>steady\<close> is the clock of the program, \<open>reads\<close> the number
  of its readings so far.
\<close>

record Bench =
  exchange :: Exchange
  sent :: "64 word"
  received :: "64 word"
  go :: bool
  send_ts :: "int list"
  latencies :: "int list"
  main_pc :: main_point
  sender_pc :: sender_point
  reader_pc :: reader_point
  steady :: "nat \<Rightarrow> int"
  reads :: nat

definition now_ns :: "Bench \<Rightarrow> int \<times> Bench" where
  "now_ns b = (steady b (reads b), b\<lparr>reads := Suc (reads b)\<rparr>)"

definition bench_ticker :: TickerIdT where "bench_ticker = 0"

definition bench_request :: "ClientIdT \<Rightarrow> ClientRequest" where
  "bench_request p = ClientRequest.make RequestType_ADD bench_ticker p OrderId_INVALID BUY 1 100"

text \<open>\<open>main\<close> up to the warm-up: the queues, the exchange, and the start of its thread.\<close>

definition bench_new :: "(nat \<Rightarrow> NsTimestampT) \<Rightarrow> nat \<Rightarrow> (nat \<Rightarrow> int) \<Rightarrow> Bench outcome" where
  "bench_new clk n stdy =
     obind (Exchange_new (LFQueue_new bench_queue_size ClientRequest_default)
         (LFQueue_new bench_queue_size ClientResponse_default)
         (LFQueue_new bench_queue_size MarketUpdate_default) clk n [bench_ticker]) (\<lambda>ex.
       obind (Exchange_start ex) (\<lambda>ex.
       ret \<lparr>exchange = ex, sent = 0, received = 0, go = False, send_ts = [], latencies = [],
            main_pc = Warm_Push 0, sender_pc = S_New, reader_pc = R_New, steady = stdy, reads = 0\<rparr>))"

section \<open>The threads\<close>

definition send_request :: "ClientIdT \<Rightarrow> Bench \<Rightarrow> Bench outcome" where
  "send_request p b =
     obind (push (bench_request p) (ex_request_queue (exchange b))) (\<lambda>q.
       ret (b\<lparr>exchange := (exchange b)\<lparr>ex_request_queue := q\<rparr>\<rparr>))"

definition pop_response :: "Bench \<Rightarrow> ptr \<times> Bench" where
  "pop_response b =
     (let (p, q) = pop (ex_response_queue (exchange b))
      in (p, b\<lparr>exchange := (exchange b)\<lparr>ex_response_queue := q\<rparr>\<rparr>))"

text \<open>The variables that the threads share, with the threads at their beginning.\<close>

definition spawn_threads :: "Bench \<Rightarrow> Bench" where
  "spawn_threads b =
     b\<lparr>send_ts := replicate TOTAL_ORDERS 0, latencies := [], sent := 0, received := 0, go := False,
       sender_pc := S_Go, reader_pc := R_Go\<rparr>"

definition warm_step :: "nat \<Rightarrow> Bench \<Rightarrow> Bench outcome" where
  "warm_step i b =
     (if i < WARMUP_ORDERS
      then obind (send_request 0 b) (\<lambda>b1. ret (b1\<lparr>main_pc := Warm_Wait i\<rparr>))
      else ret (b\<lparr>main_pc := Spawn\<rparr>))"

definition main_step :: "Bench \<Rightarrow> Bench outcome" where
  "main_step b =
     (case main_pc b of
        Warm_Push i \<Rightarrow> warm_step i b
      | Warm_Wait i \<Rightarrow>
          (let (p, b1) = pop_response b
           in ret (b1\<lparr>main_pc := if p = None then Warm_Wait i else Warm_Push (Suc i)\<rparr>))
      | Spawn \<Rightarrow> ret ((spawn_threads b)\<lparr>main_pc := Release\<rparr>)
      | Release \<Rightarrow> ret (b\<lparr>go := True, main_pc := Join_Producer\<rparr>)
      | Join_Producer \<Rightarrow> ret (if sender_pc b = S_Done then b\<lparr>main_pc := Join_Consumer\<rparr> else b)
      | Join_Consumer \<Rightarrow>
          ret (if reader_pc b = R_Done
               then b\<lparr>exchange := Exchange_stop (exchange b), main_pc := Join_Exchange\<rparr> else b)
      | Join_Exchange \<Rightarrow>
          obind (join_run_thread (exchange b)) (\<lambda>(ended, ex).
            ret (b\<lparr>exchange := ex, main_pc := if ended then Finished else Join_Exchange\<rparr>))
      | Finished \<Rightarrow> ret b)"

lemmas main_step_defs = main_step_def warm_step_def spawn_threads_def

text \<open>
  The producer. Only it writes \<open>sent\<close>, so its two loads in the waiting loop are one step, the
  load of \<open>received\<close>.
\<close>

definition sender_step :: "Bench \<Rightarrow> Bench outcome" where
  "sender_step b =
     (case sender_pc b of
        S_New \<Rightarrow> ret b
      | S_Go \<Rightarrow> ret (if go b then b\<lparr>sender_pc := S_Wait\<rparr> else b)
      | S_Wait \<Rightarrow>
          ret (if of_nat MAX_IN_FLIGHT \<le> sent b - received b then b else b\<lparr>sender_pc := S_Fetch\<rparr>)
      | S_Fetch \<Rightarrow>
          (let idx = unat (sent b)
           in ret (b\<lparr>sent := sent b + 1,
                     sender_pc := if TOTAL_ORDERS \<le> idx then S_Done else S_Stamp idx\<rparr>))
      | S_Stamp idx \<Rightarrow>
          (let (t, b1) = now_ns b
           in if idx < length (send_ts b)
              then ret (b1\<lparr>send_ts := (send_ts b)[idx := t], sender_pc := S_Push idx\<rparr>)
              else throw Out_Of_Range)
      | S_Push idx \<Rightarrow> obind (send_request 0 b) (\<lambda>b1. ret (b1\<lparr>sender_pc := S_Wait\<rparr>))
      | S_Done \<Rightarrow> ret b)"

text \<open>
  The consumer. The index of a response is computed in 32 bits before it is widened, and
  \<open>resp\<close> is a pointer into the ring, read after the response has been counted.
\<close>

definition record_latency :: "nat \<Rightarrow> int \<Rightarrow> Bench \<Rightarrow> Bench outcome" where
  "record_latency i t1 b =
     (let resp = slot (ex_response_queue (exchange b)) i;
          oid0 = unat (rs_order_id resp - 1);
          idx = oid0 - WARMUP_ORDERS
      in if rs_type resp \<noteq> ResponseType_ACCEPTED then ret b
         else if oid0 < WARMUP_ORDERS then ret b
         else if TOTAL_ORDERS \<le> idx then ret b
         else if idx < length (send_ts b)
         then ret (b\<lparr>latencies := latencies b @ [t1 - send_ts b ! idx]\<rparr>)
         else throw Out_Of_Range)"

definition reader_step :: "Bench \<Rightarrow> Bench outcome" where
  "reader_step b =
     (case reader_pc b of
        R_New \<Rightarrow> ret b
      | R_Go \<Rightarrow> ret (if go b then b\<lparr>reader_pc := R_Loop\<rparr> else b)
      | R_Loop \<Rightarrow> ret (b\<lparr>reader_pc := if received b < of_nat TOTAL_ORDERS then R_Pop else R_Done\<rparr>)
      | R_Pop \<Rightarrow> (let (p, b1) = pop_response b in ret (b1\<lparr>reader_pc := R_Time p\<rparr>))
      | R_Time p \<Rightarrow>
          (let (t1, b1) = now_ns b
           in ret (b1\<lparr>reader_pc := (case p of None \<Rightarrow> R_Loop | Some i \<Rightarrow> R_Count i t1)\<rparr>))
      | R_Count i t1 \<Rightarrow> ret (b\<lparr>received := received b + 1, reader_pc := R_Read i t1\<rparr>)
      | R_Read i t1 \<Rightarrow> obind (record_latency i t1 b) (\<lambda>b1. ret (b1\<lparr>reader_pc := R_Loop\<rparr>))
      | R_Done \<Rightarrow> ret b)"

definition exchange_round :: "Bench \<Rightarrow> Bench outcome" where
  "exchange_round b =
     obind (run_step (exchange b)) (\<lambda>ex. ret (b\<lparr>exchange := ex\<rparr>))"

inductive bench_step :: "Bench \<Rightarrow> Bench \<Rightarrow> bool" where
  main: "main_step b = ret b' \<Longrightarrow> bench_step b b'"
| producer: "sender_step b = ret b' \<Longrightarrow> bench_step b b'"
| consumer: "reader_step b = ret b' \<Longrightarrow> bench_step b b'"
| round: "exchange_round b = ret b' \<Longrightarrow> bench_step b b'"

inductive_cases bench_stepE: "bench_step b b'"

end
