(* ===== verification/Benchmark_Exchange.thy ===== *)
theory Benchmark_Exchange
  imports Benchmark
begin

text \<open>
  The exchange as the benchmark uses it: all orders are bids at one price, so each is accepted
  and rests. The lemmas say what a round of the exchange and the calls of the threads do to the
  two rings, depending on where the order under way is.
\<close>

section \<open>The exchange under bids only\<close>

abbreviation loop_of :: "Exchange \<Rightarrow> bool \<times> run_point" where
  "loop_of ex \<equiv> (running ex, run_thread ex)"

text \<open>A book without asks has no order on that side, and conversely.\<close>

lemma best_asks_None_iff:
  assumes "book_ok s c f"
  shows "best SELL s = None \<longleftrightarrow> resting s c f False = []"
proof -
  have rep: "book_rep s c f" and set: "settled s f" using assms by (simp_all add: book_ok_def)
  have ch: "chain (levels s) (best SELL s) (c False)" using book_rep_chain(1) [OF rep, of False] by (simp add: side_of_def)
  have "\<forall>i \<in> set (c False). f i \<noteq> []" using set book_rep_chain(2) [OF rep] by (auto simp: settled_def)
  then have "resting s c f False = [] \<longleftrightarrow> c False = []" by (cases "c False") (auto simp: resting_def)
  then show ?thesis using ch by (cases "c False"; cases "best SELL s") auto
qed

text \<open>Then a bid cannot trade: it is accepted and rests.\<close>

lemma add_bid:
  assumes s: "sound P k s" "best SELL s = None" and k: "Suc k < MAX_ORDER_IDS" and lim: "lim \<in> P" and q: "q \<noteq> 0"
  shows "\<exists>s'. OrderBook_add oid cid BUY q lim s = ret s' \<and> sound P (Suc k) s' \<and> best SELL s' = None
    \<and> ob_ticker_id (book s') = ob_ticker_id (book s)
    \<and> client_response_queue s' = push_slot (ClientResponse.make ResponseType_ACCEPTED
        (ob_ticker_id (book s)) cid oid BUY q lim (clock s (ticks s))) (client_response_queue s)"
proof -
  obtain c f where ok: "book_ok s c f" using s(1) by (auto simp: sound_def)
  have no: "resting s c f (\<not> True) = []" using best_asks_None_iff [OF ok] s(2) by simp
  let ?t = "taker s oid cid BUY lim"
  have m: "match_spec (clock s) ?t q (next_trade_id s) (Suc (ticks s)) (resting s c f (\<not> True))
      = (q, next_trade_id s, [], [])"
    unfolding no by simp
  obtain bk where spec: "add_spec (placeable s c True lim) (clock s) ?t q (next_trade_id s) (ticks s) (resting s c f)
      = (bk, next_trade_id s, Suc (ticks s) + 2,
         [accepted_event (clock s) ?t (ticks s) q, added_event (clock s) ?t (Suc (Suc (ticks s))) q])"
    and bk: "bk False = []"
    using add_spec_eq [where bk = "resting s c f" and b = True, OF m] q by simp
  have b: "True = (BUY = BUY)" by simp
  from OrderBook_add_refines [OF ok sound_room [OF s(1) k lim] b refl refl spec] obtain s' c' f' where
    s': "OrderBook_add oid cid BUY q lim s = ret s'" "book_ok s' c' f'" "resting s' c' f' = bk"
      "sends s s' [accepted_event (clock s) ?t (ticks s) q, added_event (clock s) ?t (Suc (Suc (ticks s))) q]"
    by blast
  have "sound P (Suc k) s'" using add_sound [OF s(1) k lim, of oid cid BUY q] s'(1) by auto
  moreover have "best SELL s' = None" using best_asks_None_iff [OF s'(2)] s'(3) bk by simp
  ultimately show ?thesis using s'(1,4) by (simp add: sends_def accepted_event_def added_event_def)
qed

text \<open>
  The exchange of the benchmark after \<open>k\<close> orders: one book with at most \<open>k\<close> orders, all bids at
  one price, and the two rings the threads use.
\<close>

definition bench_ex :: "nat \<Rightarrow> Exchange \<Rightarrow> bool" where
  "bench_ex k ex \<longleftrightarrow>
     (\<exists>ob. order_books_map ex = [(bench_ticker, Some ob)] \<and> best_asks ob = None)
     \<and> ex_sound {100} k ex \<and> next_order_id ex = of_nat (Suc k)
     \<and> room (ex_request_queue ex) = bench_queue_size - 1 \<and> room (ex_response_queue ex) = bench_queue_size - 1"

definition acceptance :: "nat \<Rightarrow> NsTimestampT \<Rightarrow> ClientResponse" where
  "acceptance k t = ClientResponse.make ResponseType_ACCEPTED bench_ticker 0 (of_nat k) BUY 1 100 t"

lemma bench_ex_queues:
  "bench_ex k ex \<Longrightarrow> lf_ok (ex_request_queue ex) \<and> lf_ok (ex_response_queue ex)"
  using ex_sound_queues by (auto simp: bench_ex_def queues_ok_def)

lemma bench_ex_frame:
  "bench_ex k ex \<Longrightarrow> lf_ok q \<Longrightarrow> room q = room (ex_request_queue ex) \<Longrightarrow> bench_ex k (ex\<lparr>ex_request_queue := q\<rparr>)"
  "bench_ex k ex \<Longrightarrow> bench_ex k (ex\<lparr>next_request := p\<rparr>)"
  "bench_ex k ex \<Longrightarrow> bench_ex k (ex\<lparr>running := r\<rparr>)"
  "bench_ex k ex \<Longrightarrow> bench_ex k (ex\<lparr>run_thread := pc\<rparr>)"
  using ex_sound_dequeue by (auto simp: bench_ex_def)

lemma bench_ex_popped:
  assumes "bench_ex k ex" and "lf_ok q" and "room q = room (ex_response_queue ex)"
  shows "bench_ex k (ex\<lparr>ex_response_queue := q\<rparr>)"
proof -
  obtain ob where ob: "order_books_map ex = [(bench_ticker, Some ob)]" "best_asks ob = None"
    "ex_sound {100} k ex" using assms(1) by (auto simp: bench_ex_def)
  then have s: "sound {100} k (book_state ex ob)" "ob_ticker_id ob = bench_ticker" by (auto simp: ex_sound_def)
  have "sound {100} k (book_state (ex\<lparr>ex_response_queue := q\<rparr>) ob)"
    by (rule sound_book [OF s(1)]) (use assms(2) ex_sound_queues [OF ob(3)] in \<open>simp_all add: queues_ok_def\<close>)
  then show ?thesis
    using assms ob s(2) unfolding bench_ex_def ex_sound_def by (auto simp: queues_ok_def)
qed

text \<open>A round of the loop without a request, and with one.\<close>

lemma bench_round_idle:
  "bench_ex k ex \<Longrightarrow> contents (ex_request_queue ex) = [] \<Longrightarrow>
     run_body ex = ret (ex\<lparr>next_request := None\<rparr>) \<and> bench_ex k (ex\<lparr>next_request := None\<rparr>)"
  using run_body_idle bench_ex_queues bench_ex_frame by blast

lemma bid_is_stored:
  assumes "bench_ex k ex" and "Suc k < MAX_ORDER_IDS"
  shows "\<exists>ex' t. addOrder bench_ticker 0 BUY 1 100 ex = ret ex' \<and> bench_ex (Suc k) ex'
    \<and> ex_request_queue ex' = ex_request_queue ex \<and> loop_of ex' = loop_of ex
    \<and> ex_response_queue ex' = push_slot (acceptance (Suc k) t) (ex_response_queue ex)"
proof -
  obtain ob where ob: "order_books_map ex = [(bench_ticker, Some ob)]" "best_asks ob = None"
    and ex: "ex_sound {100} k ex" using assms(1) by (auto simp: bench_ex_def)
  then have s: "sound {100} k (book_state ex ob)" "ob_ticker_id ob = bench_ticker" by (auto simp: ex_sound_def)
  have "best SELL (book_state ex ob) = None" using ob(2) by (simp add: best_def)
  from add_bid [OF s(1) this assms(2), of 100 1 "next_order_id ex" 0] s(2) obtain s' where
    s': "OrderBook_add (next_order_id ex) 0 BUY 1 100 (book_state ex ob) = ret s'" "sound {100} (Suc k) s'"
      "best SELL s' = None" "ob_ticker_id (book s') = bench_ticker"
      "client_response_queue s' = push_slot (ClientResponse.make ResponseType_ACCEPTED bench_ticker 0
         (next_order_id ex) BUY 1 100 (ex_clock ex (ex_ticks ex))) (ex_response_queue ex)"
    by auto
  let ?ex = "ex\<lparr>next_order_id := next_order_id ex + 1\<rparr>"
  have "addOrder bench_ticker 0 BUY 1 100 ex = ret (store_book bench_ticker s' ?ex)"
    using ob(1) s'(1) by (simp add: addOrder_def getOrderBook_def getNextOrderId_def book_deref_def)
  moreover have "ex_sound {100} k ?ex" using ex by (simp add: ex_sound_def queues_ok_def)
  then have "ex_sound {100} (Suc k) (store_book bench_ticker s' ?ex)"
    using s'(2,4) bench_ex_queues [OF assms(1)] by (intro ex_sound_store [of "{100}" k]) simp_all
  then have "bench_ex (Suc k) (store_book bench_ticker s' ?ex)"
    using assms(1) ob(1) s'(3,5) by (simp add: bench_ex_def store_book_def best_def)
  moreover have "ex_response_queue (store_book bench_ticker s' ?ex)
      = push_slot (acceptance (Suc k) (ex_clock ex (ex_ticks ex))) (ex_response_queue ex)"
    using assms(1) s'(5) by (simp add: bench_ex_def acceptance_def)
  moreover have "ex_request_queue (store_book bench_ticker s' ?ex) = ex_request_queue ex"
    "loop_of (store_book bench_ticker s' ?ex) = loop_of ex" by simp_all
  ultimately show ?thesis by blast
qed

lemma round_asked:
  assumes "bench_ex k ex" and "contents (ex_request_queue ex) = [bench_request 0]" and "Suc k < MAX_ORDER_IDS"
  shows "\<exists>ex' t. run_body ex = ret ex' \<and> bench_ex (Suc k) ex' \<and> contents (ex_request_queue ex') = []
    \<and> loop_of ex' = loop_of ex
    \<and> ex_response_queue ex' = push_slot (acceptance (Suc k) t) (ex_response_queue ex)"
proof -
  have "lf_ok (ex_request_queue ex)" using bench_ex_queues [OF assms(1)] by simp
  from run_body_head [OF this assms(2)] obtain i q where
    run: "run_body ex = serve (bench_request 0) (ex\<lparr>next_request := Some i, ex_request_queue := q\<rparr>)"
    and q: "lf_ok q" "contents q = []" "room q = room (ex_request_queue ex)" by auto
  have "bench_ex k (ex\<lparr>next_request := Some i, ex_request_queue := q\<rparr>)"
    using bench_ex_frame(1) [OF bench_ex_frame(2) [OF assms(1)]] q by simp
  from bid_is_stored [OF this assms(3)] run q(2) show ?thesis
    by (auto simp: serve_def bench_request_def ClientRequest.make_def)
qed

section \<open>Where the order is\<close>

definition idle :: "Exchange \<Rightarrow> bool" where
  "idle ex \<longleftrightarrow> contents (ex_request_queue ex) = [] \<and> contents (ex_response_queue ex) = []"

definition asked :: "Exchange \<Rightarrow> bool" where
  "asked ex \<longleftrightarrow> contents (ex_request_queue ex) = [bench_request 0] \<and> contents (ex_response_queue ex) = []"

definition answered :: "nat \<Rightarrow> Exchange \<Rightarrow> bool" where
  "answered k ex \<longleftrightarrow> contents (ex_request_queue ex) = [] \<and> (\<exists>t. contents (ex_response_queue ex) = [acceptance k t])"

text \<open>A pointer into the ring of responses that still leads to the response it was popped for.\<close>

definition reads_answer :: "nat \<Rightarrow> nat \<Rightarrow> Exchange \<Rightarrow> bool" where
  "reads_answer k i ex \<longleftrightarrow> (\<exists>t. slot (ex_response_queue ex) i = acceptance k t)
     \<and> (contents (ex_response_queue ex) = [] \<longrightarrow> next_write_index (ex_response_queue ex) \<noteq> i)"

lemma reads_answer_queue:
  "ex_response_queue ex' = ex_response_queue ex \<Longrightarrow> reads_answer k i ex' = reads_answer k i ex"
  by (simp add: reads_answer_def)

lemma bench_room: "bench_ex k ex \<Longrightarrow> contents (ex_response_queue ex) = [] \<Longrightarrow>
    lf_length (ex_response_queue ex) < room (ex_response_queue ex)"
  "bench_ex k ex \<Longrightarrow> contents (ex_request_queue ex) = [] \<Longrightarrow>
    lf_length (ex_request_queue ex) < room (ex_request_queue ex)"
  by (simp_all add: bench_ex_def bench_queue_size_def flip: length_contents)

text \<open>The steps of the exchange and the calls of the threads, by where the order is.\<close>

lemma round_keeps:
  assumes "bench_ex k ex" and "idle ex \<or> answered k ex"
  shows "\<exists>ex'. run_body ex = ret ex' \<and> bench_ex k ex' \<and> loop_of ex' = loop_of ex
    \<and> ex_response_queue ex' = ex_response_queue ex \<and> ex_request_queue ex' = ex_request_queue ex"
  using bench_round_idle [OF assms(1)] assms(2) by (auto simp: idle_def answered_def)

lemma round_answers:
  assumes "bench_ex k ex" and "asked ex" and "Suc k < MAX_ORDER_IDS"
  shows "\<exists>ex'. run_body ex = ret ex' \<and> bench_ex (Suc k) ex' \<and> loop_of ex' = loop_of ex \<and> answered (Suc k) ex'
    \<and> (\<forall>j i. reads_answer j i ex \<longrightarrow> reads_answer j i ex')"
proof -
  from round_asked [OF assms(1) _ assms(3)] assms(2) obtain ex' t where
    ex': "run_body ex = ret ex'" "bench_ex (Suc k) ex'" "contents (ex_request_queue ex') = []" "loop_of ex' = loop_of ex"
    "ex_response_queue ex' = push_slot (acceptance (Suc k) t) (ex_response_queue ex)"
    by (auto simp: asked_def)
  have e: "contents (ex_response_queue ex) = []" using assms(2) by (simp add: asked_def)
  then have "contents (ex_response_queue ex') = [acceptance (Suc k) t]"
    using contents_push [OF _ bench_room(1) [OF assms(1) e]] bench_ex_queues [OF assms(1)] by (simp add: ex'(5))
  then show ?thesis using ex' e by (auto simp: answered_def reads_answer_def slot_push_slot)
qed

lemma send_request_idle:
  assumes "bench_ex k (exchange b)" and "idle (exchange b)"
  shows "\<exists>ex'. send_request 0 b = ret (b\<lparr>exchange := ex'\<rparr>) \<and> bench_ex k ex' \<and> asked ex'
    \<and> loop_of ex' = loop_of (exchange b) \<and> ex_response_queue ex' = ex_response_queue (exchange b)"
proof -
  let ?q = "ex_request_queue (exchange b)" and ?ex = "(exchange b)\<lparr>ex_request_queue := push_slot (bench_request 0) (ex_request_queue (exchange b))\<rparr>"
  have q: "lf_ok ?q" "contents ?q = []" using assms bench_ex_queues by (auto simp: idle_def)
  have "contents (push_slot (bench_request 0) ?q) = [bench_request 0]"
    using contents_push [OF q(1) bench_room(2) [OF assms(1) q(2)]] q(2) by simp
  moreover have "bench_ex k ?ex" using q(1) by (intro bench_ex_frame(1) assms(1)) simp_all
  moreover have "send_request 0 b = ret (b\<lparr>exchange := ?ex\<rparr>)" using q(1) by (simp add: send_request_def)
  ultimately show ?thesis using assms(2) by (intro exI [of _ ?ex]) (simp add: asked_def idle_def)
qed

lemma pop_response_none:
  assumes "bench_ex k (exchange b)" and "contents (ex_response_queue (exchange b)) = []"
  shows "pop_response b = (None, b)"
  using pop_empty [OF _ assms(2)] bench_ex_queues [OF assms(1)] by (simp add: pop_response_def)

lemma pop_response_some:
  assumes "bench_ex k (exchange b)" and "answered k (exchange b)"
  shows "\<exists>i ex'. pop_response b = (Some i, b\<lparr>exchange := ex'\<rparr>) \<and> bench_ex k ex' \<and> idle ex'
    \<and> loop_of ex' = loop_of (exchange b) \<and> reads_answer k i ex'"
proof -
  let ?q = "ex_response_queue (exchange b)"
  obtain t where c: "contents ?q = [acceptance k t]" and r: "contents (ex_request_queue (exchange b)) = []"
    using assms(2) by (auto simp: answered_def)
  have ok: "lf_ok ?q" using bench_ex_queues [OF assms(1)] by simp
  from pop_nonempty [OF ok c] obtain i q where
    q: "pop ?q = (Some i, q)" "lf_ok q" "contents q = []" "slot q i = acceptance k t" "lf_size q = lf_size ?q"
      "lf_length q < room q"
    by (metis (no_types, lifting))
  have "next_write_index q \<noteq> i" using popped_slot_outside [OF ok _ q(1,6)] c by simp
  moreover have "bench_ex k ((exchange b)\<lparr>ex_response_queue := q\<rparr>)"
    using q by (intro bench_ex_popped [OF assms(1)]) (simp_all add: room_def)
  ultimately show ?thesis
    using q r by (intro exI [of _ i] exI [of _ "(exchange b)\<lparr>ex_response_queue := q\<rparr>"])
      (auto simp: pop_response_def idle_def reads_answer_def)
qed

end
