(* ===== verification/Benchmark_Steps.thy ===== *)
theory Benchmark_Steps
  imports Benchmark_Exchange
begin

text \<open>
  The invariant of the benchmark while it measures: where the order under way is determines where
  the producer is and what the rings hold, and the consumer reads the response it popped. Every
  step of every thread returns and keeps the invariant; the steps that move the order decrease
  \<open>rank\<close>.
\<close>

section \<open>The invariant\<close>

text \<open>
  One order is under way at most. It is nowhere, with the producer, in the ring of requests, in
  the ring of responses, or with the consumer; at the end the producer has stopped.
\<close>

datatype token = Nowhere | Sending | Asked | Answered | Reading | Over

fun exchange_at :: "token \<Rightarrow> nat \<Rightarrow> Exchange \<Rightarrow> bool" where
  "exchange_at Asked n ex \<longleftrightarrow> bench_ex (WARMUP_ORDERS + n) ex \<and> asked ex"
| "exchange_at Answered n ex \<longleftrightarrow>
     bench_ex (WARMUP_ORDERS + Suc n) ex \<and> answered (WARMUP_ORDERS + Suc n) ex"
| "exchange_at Reading n ex \<longleftrightarrow> bench_ex (WARMUP_ORDERS + Suc n) ex \<and> idle ex"
| "exchange_at _ n ex \<longleftrightarrow> bench_ex (WARMUP_ORDERS + n) ex \<and> idle ex"

definition stamped :: "nat \<Rightarrow> Bench \<Rightarrow> bool" where
  "stamped n b \<longleftrightarrow> send_ts b ! n \<le> steady b (reads b)"

fun sender_at :: "token \<Rightarrow> nat \<Rightarrow> Bench \<Rightarrow> bool" where
  "sender_at Nowhere n b \<longleftrightarrow> sender_pc b \<in> {S_Go, S_Wait, S_Fetch} \<and> sent b = of_nat n"
| "sender_at Sending n b \<longleftrightarrow> (sender_pc b = S_Stamp n \<or> sender_pc b = S_Push n \<and> stamped n b)
     \<and> sent b = of_nat (Suc n) \<and> n < TOTAL_ORDERS"
| "sender_at Over n b \<longleftrightarrow> sender_pc b = S_Done \<and> n = TOTAL_ORDERS"
| "sender_at _ n b \<longleftrightarrow> sender_pc b = S_Wait \<and> stamped n b \<and> sent b = of_nat (Suc n) \<and> n < TOTAL_ORDERS"

definition reader_at :: "token \<Rightarrow> nat \<Rightarrow> Bench \<Rightarrow> bool" where
  "reader_at tok n b \<longleftrightarrow>
     (case reader_pc b of
        R_New \<Rightarrow> False
      | R_Go \<Rightarrow> tok \<noteq> Reading \<and> length (latencies b) = n
      | R_Loop \<Rightarrow> tok \<noteq> Reading \<and> length (latencies b) = n
      | R_Pop \<Rightarrow> tok \<noteq> Reading \<and> length (latencies b) = n \<and> n < TOTAL_ORDERS
      | R_Time None \<Rightarrow> tok \<noteq> Reading \<and> length (latencies b) = n \<and> n < TOTAL_ORDERS
      | R_Time (Some i) \<Rightarrow> tok = Reading \<and> length (latencies b) = n
          \<and> reads_answer (WARMUP_ORDERS + Suc n) i (exchange b)
      | R_Count i t \<Rightarrow> tok = Reading \<and> length (latencies b) = n
          \<and> reads_answer (WARMUP_ORDERS + Suc n) i (exchange b) \<and> send_ts b ! n \<le> t
      | R_Read i t \<Rightarrow> tok \<noteq> Reading \<and> n = Suc (length (latencies b))
          \<and> reads_answer (WARMUP_ORDERS + n) i (exchange b) \<and> send_ts b ! (n - 1) \<le> t
      | R_Done \<Rightarrow> tok \<noteq> Reading \<and> length (latencies b) = n \<and> n = TOTAL_ORDERS)"

text \<open>The flag and the thread of the exchange, by the program point of the main thread.\<close>

definition loop_at :: "main_point \<Rightarrow> bool \<times> run_point \<Rightarrow> bool" where
  "loop_at p l \<longleftrightarrow>
     (case p of
        Finished \<Rightarrow> l = (False, No_Thread)
      | Join_Exchange \<Rightarrow> l \<in> {(False, Run_Test), (False, Run_Body), (False, Run_Done)}
      | _ \<Rightarrow> l \<in> {(True, Run_Test), (True, Run_Body)})"

definition main_at :: "token \<Rightarrow> Bench \<Rightarrow> bool" where
  "main_at tok b \<longleftrightarrow>
     (case main_pc b of
        Release \<Rightarrow> \<not> go b \<and> sender_pc b = S_Go \<and> reader_pc b = R_Go
      | Join_Producer \<Rightarrow> go b
      | Join_Consumer \<Rightarrow> go b \<and> tok = Over
      | Join_Exchange \<Rightarrow> go b \<and> tok = Over \<and> reader_pc b = R_Done
      | Finished \<Rightarrow> go b \<and> tok = Over \<and> reader_pc b = R_Done
      | _ \<Rightarrow> False)
     \<and> loop_at (main_pc b) (loop_of (exchange b))"

definition measuring :: "token \<Rightarrow> nat \<Rightarrow> Bench \<Rightarrow> bool" where
  "measuring tok n b \<longleftrightarrow>
     n \<le> TOTAL_ORDERS \<and> received b = of_nat n \<and> length (send_ts b) = TOTAL_ORDERS
     \<and> (\<forall>l \<in> set (latencies b). 0 \<le> l) \<and> mono (steady b)
     \<and> exchange_at tok n (exchange b) \<and> sender_at tok n b \<and> reader_at tok n b \<and> main_at tok b"

definition warming :: "token \<Rightarrow> nat \<Rightarrow> Bench \<Rightarrow> bool" where
  "warming tok i b \<longleftrightarrow>
     (case main_pc b of
        Warm_Push j \<Rightarrow> j = i \<and> i \<le> WARMUP_ORDERS \<and> tok = Nowhere \<and> bench_ex i (exchange b) \<and> idle (exchange b)
      | Warm_Wait j \<Rightarrow> j = i \<and> i < WARMUP_ORDERS
          \<and> (tok = Asked \<and> bench_ex i (exchange b) \<and> asked (exchange b)
             \<or> tok = Answered \<and> bench_ex (Suc i) (exchange b) \<and> answered (Suc i) (exchange b))
      | Spawn \<Rightarrow> i = WARMUP_ORDERS \<and> tok = Nowhere \<and> bench_ex i (exchange b) \<and> idle (exchange b)
      | _ \<Rightarrow> False)
     \<and> sender_pc b = S_New \<and> reader_pc b = R_New \<and> loop_at (main_pc b) (loop_of (exchange b)) \<and> mono (steady b)
     \<and> latencies b = []"

text \<open>How far the program is from its end.\<close>

definition sender_rank :: "token \<Rightarrow> sender_point \<Rightarrow> nat" where
  "sender_rank tok p =
     (case tok of
        Nowhere \<Rightarrow> (case p of S_Go \<Rightarrow> 8 | S_Wait \<Rightarrow> 7 | _ \<Rightarrow> 6)
      | Sending \<Rightarrow> (case p of S_Stamp i \<Rightarrow> 5 | _ \<Rightarrow> 4)
      | Asked \<Rightarrow> 3 | Answered \<Rightarrow> 2 | Reading \<Rightarrow> 1 | Over \<Rightarrow> 0)"

definition reader_rank :: "reader_point \<Rightarrow> nat" where
  "reader_rank p =
     (case p of R_New \<Rightarrow> 5 | R_Go \<Rightarrow> 4 | R_Loop \<Rightarrow> 2 | R_Pop \<Rightarrow> 1 | R_Time r \<Rightarrow> 4 | R_Count i t \<Rightarrow> 3
      | R_Read i t \<Rightarrow> 3 | R_Done \<Rightarrow> 0)"

definition main_rank :: "main_point \<Rightarrow> nat" where
  "main_rank p = (case p of Finished \<Rightarrow> 0 | Join_Exchange \<Rightarrow> 1 | Join_Consumer \<Rightarrow> 4 | Join_Producer \<Rightarrow> 5 | _ \<Rightarrow> 6)"

text \<open>While the exchange runs, its thread gets to the body; when it is stopped, to its end.\<close>

definition loop_rank :: "bool \<times> run_point \<Rightarrow> nat" where
  "loop_rank l =
     (if fst l then (if snd l = Run_Body then 0 else 1)
      else if snd l = Run_Body then 2 else if snd l = Run_Test then 1 else 0)"

definition rank :: "token \<Rightarrow> nat \<Rightarrow> Bench \<Rightarrow> nat" where
  "rank tok n b = 100 * (TOTAL_ORDERS - n) + 10 * sender_rank tok (sender_pc b)
     + reader_rank (reader_pc b) + main_rank (main_pc b) + loop_rank (loop_of (exchange b))"

section \<open>Steps while measuring\<close>

lemma unat_count: "n \<le> Suc TOTAL_ORDERS \<Longrightarrow> unat (of_nat n :: 64 word) = n"
  by (simp add: TOTAL_ORDERS_def unat_of_nat take_bit_nat_eq_self)

lemma measuringD:
  assumes "measuring tok n b"
  shows "n \<le> TOTAL_ORDERS" "received b = of_nat n" "length (send_ts b) = TOTAL_ORDERS"
    "\<forall>l \<in> set (latencies b). 0 \<le> l" "mono (steady b)" "exchange_at tok n (exchange b)"
    "sender_at tok n b" "reader_at tok n b" "main_at tok b"
  using assms by (simp_all add: measuring_def)

lemma reader_at_frame:
  assumes "reader_at tok n b" and "reader_pc b' = reader_pc b" and "latencies b' = latencies b" and "send_ts b' = send_ts b"
    and "ex_response_queue (exchange b') = ex_response_queue (exchange b)" and "tok' = Reading \<longleftrightarrow> tok = Reading"
  shows "reader_at tok' n b'"
  using assms(1) unfolding reader_at_def assms(2-4) reads_answer_queue [OF assms(5)] assms(6) .

lemma stamped_later:
  "mono (steady b) \<Longrightarrow> stamped n b \<Longrightarrow> stamped n (b\<lparr>reads := Suc (reads b)\<rparr>)"
  unfolding stamped_def by (simp, meson lessI less_imp_le monoD order_trans)

lemma main_at_frame:
  assumes "main_at tok b" and "main_pc b' = main_pc b" and "go b' = go b" and "go b"
    and "loop_of (exchange b') = loop_of (exchange b)" and "tok = Over \<Longrightarrow> tok' = Over"
    and "main_pc b \<in> {Join_Exchange, Finished} \<Longrightarrow> reader_pc b' = reader_pc b"
  shows "main_at tok' b'"
  using assms unfolding main_at_def by (cases "main_pc b") simp_all

text \<open>Steps of the producer, after which the consumer and the main thread are where they were.\<close>

lemma measuring_sender:
  assumes m: "measuring tok n b" and g: "go b"
    and r: "reader_pc b' = reader_pc b" "latencies b' = latencies b" "send_ts b' = send_ts b"
      "ex_response_queue (exchange b') = ex_response_queue (exchange b)" "tok' = Reading \<longleftrightarrow> tok = Reading"
    and h: "main_pc b' = main_pc b" "go b' = go b" "loop_of (exchange b') = loop_of (exchange b)"
      "tok = Over \<Longrightarrow> tok' = Over" "received b' = received b" "steady b' = steady b"
    and new: "exchange_at tok' n (exchange b')" "sender_at tok' n b'"
  shows "measuring tok' n b'"
proof -
  have "reader_at tok' n b'" by (rule reader_at_frame [OF measuringD(8) [OF m]]) (rule r)+
  moreover have "main_at tok' b'" by (rule main_at_frame [OF measuringD(9) [OF m] h(1,2) g h(3)]) (simp_all add: h r)
  ultimately show ?thesis using measuringD(1-5) [OF m] new r h by (simp add: measuring_def)
qed

definition advances :: "(Bench \<Rightarrow> Bench outcome) \<Rightarrow> bool \<Rightarrow> token \<Rightarrow> nat \<Rightarrow> Bench \<Rightarrow> bool" where
  "advances f act tok n b \<longleftrightarrow>
     (\<exists>tok' n' b'. f b = ret b' \<and> measuring tok' n' b' \<and> (act \<longrightarrow> rank tok' n' b' < rank tok n b))"

lemma advancesI:
  "f b = ret b' \<Longrightarrow> measuring tok' n' b' \<Longrightarrow> (act \<Longrightarrow> rank tok' n' b' < rank tok n b) \<Longrightarrow> advances f act tok n b"
  by (auto simp: advances_def)

lemma sender_nowhere:
  assumes m: "measuring Nowhere n b" and g: "go b"
  shows "advances sender_step True Nowhere n b"
proof -
  have p: "sender_pc b \<in> {S_Go, S_Wait, S_Fetch}" "sent b = of_nat n" "n \<le> TOTAL_ORDERS"
    using measuringD(1,7) [OF m] by simp_all
  have fr: "measuring Nowhere n (b\<lparr>sender_pc := p\<rparr>)" if "p \<in> {S_Go, S_Wait, S_Fetch}" for p
    by (rule measuring_sender [OF m g]) (use measuringD(6,7) [OF m] that in auto)
  consider (go) "sender_pc b = S_Go" | (wait) "sender_pc b = S_Wait" | (fetch) "sender_pc b = S_Fetch" using p by auto
  then show ?thesis
  proof cases
    case go
    then have "sender_step b = ret (b\<lparr>sender_pc := S_Wait\<rparr>)" using g by (simp add: sender_step_def)
    then show ?thesis by (rule advancesI [OF _ fr]) (simp_all add: rank_def sender_rank_def go)
  next
    case wait
    then have "sender_step b = ret (b\<lparr>sender_pc := S_Fetch\<rparr>)"
      using measuringD(2) [OF m] p(2) by (simp add: sender_step_def MAX_IN_FLIGHT_def)
    then show ?thesis by (rule advancesI [OF _ fr]) (simp_all add: rank_def sender_rank_def wait)
  next
    case fetch
    let ?tok = "if n = TOTAL_ORDERS then Over else Sending"
    let ?b = "b\<lparr>sent := of_nat (Suc n), sender_pc := if n = TOTAL_ORDERS then S_Done else S_Stamp n\<rparr>"
    have "sender_step b = ret ?b"
      using fetch p unat_count [of n] by (simp add: sender_step_def Let_def add.commute)
    moreover have "measuring ?tok n ?b"
      by (rule measuring_sender [OF m g]) (use measuringD(6,7) [OF m] p(3) in auto)
    ultimately show ?thesis by (rule advancesI) (simp add: rank_def sender_rank_def fetch)
  qed
qed


lemma sender_sending:
  assumes m: "measuring Sending n b" and g: "go b"
  shows "advances sender_step True Sending n b"
proof -
  have p: "sender_pc b = S_Stamp n \<or> sender_pc b = S_Push n \<and> stamped n b" "sent b = of_nat (Suc n)" "n < TOTAL_ORDERS"
    and ex: "bench_ex (WARMUP_ORDERS + n) (exchange b)" "idle (exchange b)"
    and l: "length (send_ts b) = TOTAL_ORDERS"
    using measuringD(3,6,7) [OF m] by simp_all
  from p(1) show ?thesis
  proof
    assume at: "sender_pc b = S_Stamp n"
    let ?b = "b\<lparr>reads := Suc (reads b), send_ts := (send_ts b)[n := steady b (reads b)], sender_pc := S_Push n\<rparr>"
    have "sender_step b = ret ?b" using at p l by (simp add: sender_step_def now_ns_def)
    moreover have "stamped n ?b"
      using measuringD(5) [OF m] p(3) l by (simp add: stamped_def mono_iff_le_Suc)
    moreover have "reader_at Sending n ?b"
      using measuringD(8) [OF m] unfolding reader_at_def
      by (auto split: reader_point.splits option.splits)
    moreover have "main_at Sending ?b" by (rule main_at_frame [OF measuringD(9) [OF m] _ _ g]) simp_all
    ultimately have "measuring Sending n ?b" using measuringD(1-7) [OF m] p by (simp add: measuring_def)
    with \<open>sender_step b = ret ?b\<close> show ?thesis by (rule advancesI) (simp add: rank_def sender_rank_def at)
  next
    assume at: "sender_pc b = S_Push n \<and> stamped n b"
    from send_request_idle [OF ex] obtain ex' where
      ex': "send_request 0 b = ret (b\<lparr>exchange := ex'\<rparr>)" "bench_ex (WARMUP_ORDERS + n) ex'" "asked ex'"
        "loop_of ex' = loop_of (exchange b)" "ex_response_queue ex' = ex_response_queue (exchange b)" by blast
    let ?b = "b\<lparr>exchange := ex', sender_pc := S_Wait\<rparr>"
    have "sender_step b = ret ?b" using at ex'(1) by (simp add: sender_step_def)
    moreover have "measuring Asked n ?b"
      by (rule measuring_sender [OF m g]) (use at p ex' in \<open>simp_all add: stamped_def\<close>)
    ultimately show ?thesis by (rule advancesI) (use ex'(4) in \<open>simp add: rank_def sender_rank_def at\<close>)
  qed
qed

lemma sender_measuring:
  assumes m: "measuring tok n b"
  shows "advances sender_step (go b \<and> tok \<in> {Nowhere, Sending}) tok n b"
proof (cases "go b \<and> tok \<in> {Nowhere, Sending}")
  case True
  then show ?thesis using sender_nowhere [of n b] sender_sending [of n b] m by auto
next
  case False
  have "sender_step b = ret b"
  proof (cases "go b")
    case True
    then show ?thesis using False measuringD(2,7) [OF m] by (cases tok) (auto simp: sender_step_def MAX_IN_FLIGHT_def)
  next
    case False
    then show ?thesis using measuringD(9) [OF m] by (cases "main_pc b") (auto simp: main_at_def sender_step_def)
  qed
  then show ?thesis using m False by (intro advancesI) auto
qed

text \<open>Steps of the consumer that leave the exchange and the producer where they were.\<close>

lemma sender_at_frame:
  assumes "sender_at tok n b" and "mono (steady b)" and "reads b \<le> reads b'"
    and "sender_pc b' = sender_pc b" and "sent b' = sent b" and "send_ts b' = send_ts b" and "steady b' = steady b"
  shows "sender_at tok n b'"
proof -
  have "stamped n b'" if "stamped n b"
    using that monoD [OF assms(2,3)] by (simp add: stamped_def assms(6,7))
  then show ?thesis using assms(1) by (cases tok) (auto simp: assms)
qed

lemma measuring_reader:
  assumes m: "measuring tok n b" and g: "go b" and r: "reader_pc b \<noteq> R_Done" "reads b \<le> reads b'"
    and same: "exchange b' = exchange b" "sender_pc b' = sender_pc b" "sent b' = sent b" "send_ts b' = send_ts b"
      "steady b' = steady b" "main_pc b' = main_pc b" "go b' = go b" "received b' = received b"
    and new: "reader_at tok n b'" "\<forall>l \<in> set (latencies b'). 0 \<le> l"
  shows "measuring tok n b'"
proof -
  have "sender_at tok n b'"
    by (rule sender_at_frame [OF measuringD(7,5) [OF m] r(2) same(2-5)])
  moreover have "main_at tok b'"
    using measuringD(9) [OF m] g r(1) unfolding main_at_def same by (cases "main_pc b") simp_all
  ultimately show ?thesis using measuringD(1-6) [OF m] new by (simp add: measuring_def same)
qed

lemma advances_reader:
  assumes m: "measuring tok n b" and g: "go b" and step: "reader_step b = ret b'"
    and r: "reader_pc b \<noteq> R_Done" "reads b \<le> reads b'"
    and same: "exchange b' = exchange b" "sender_pc b' = sender_pc b" "sent b' = sent b" "send_ts b' = send_ts b"
      "steady b' = steady b" "main_pc b' = main_pc b" "go b' = go b" "received b' = received b"
    and new: "reader_at tok n b'" "\<forall>l \<in> set (latencies b'). 0 \<le> l"
    and less: "act \<Longrightarrow> reader_rank (reader_pc b') < reader_rank (reader_pc b)"
  shows "advances reader_step act tok n b"
  by (rule advancesI [of reader_step, OF step measuring_reader [OF m g r same new]])
    (use less in \<open>simp add: rank_def same\<close>)

lemma no_response: "exchange_at tok n ex \<Longrightarrow> tok \<noteq> Answered \<Longrightarrow> contents (ex_response_queue ex) = []"
  by (cases tok) (auto simp: idle_def asked_def)

lemma exchange_at_bench: "exchange_at tok n ex \<Longrightarrow> \<exists>k. bench_ex k ex"
  by (cases tok) auto

lemma reader_pops:
  assumes m: "measuring tok n b" and g: "go b" and at: "reader_pc b = R_Pop"
  shows "advances reader_step (tok = Answered) tok n b"
proof (cases "tok = Answered")
  case True
  then have "exchange_at Answered n (exchange b)" using measuringD(6) [OF m] by simp
  then obtain i ex' where ex': "pop_response b = (Some i, b\<lparr>exchange := ex'\<rparr>)"
    "bench_ex (WARMUP_ORDERS + Suc n) ex'" "idle ex'" "loop_of ex' = loop_of (exchange b)"
    "reads_answer (WARMUP_ORDERS + Suc n) i ex'"
    using pop_response_some [of "WARMUP_ORDERS + Suc n" b] by auto
  let ?b = "b\<lparr>exchange := ex', reader_pc := R_Time (Some i)\<rparr>"
  have "reader_step b = ret ?b" using at ex'(1) by (simp add: reader_step_def)
  moreover have "measuring Reading n ?b"
  proof -
    have "sender_at Reading n ?b" using measuringD(7) [OF m] True by (simp add: stamped_def)
    moreover have "reader_at Reading n ?b" using measuringD(8) [OF m] at ex'(5) by (simp add: reader_at_def)
    moreover have "main_at Reading ?b"
      using measuringD(9) [OF m] True ex'(4) at unfolding main_at_def by (cases "main_pc b") simp_all
    ultimately show ?thesis using measuringD(1-5) [OF m] ex'(2,3) by (simp add: measuring_def)
  qed
  ultimately show ?thesis
    by (rule advancesI) (use ex'(4) in \<open>simp add: rank_def sender_rank_def reader_rank_def at True\<close>)
next
  case False
  obtain k where "bench_ex k (exchange b)" using exchange_at_bench [OF measuringD(6) [OF m]] by blast
  then have "pop_response b = (None, b)"
    using no_response [OF measuringD(6) [OF m] False] by (rule pop_response_none)
  then have "reader_step b = ret (b\<lparr>reader_pc := R_Time None\<rparr>)" using at by (simp add: reader_step_def)
  then show ?thesis
    by (rule advances_reader [OF m g]) (use measuringD(4,8) [OF m] at False in \<open>simp_all add: reader_at_def\<close>)
qed

lemma reader_times:
  assumes m: "measuring tok n b" and g: "go b" and at: "reader_pc b = R_Time p"
  shows "advances reader_step True tok n b"
proof -
  let ?p = "case p of None \<Rightarrow> R_Loop | Some i \<Rightarrow> R_Count i (steady b (reads b))"
  have step: "reader_step b = ret (b\<lparr>reads := Suc (reads b), reader_pc := ?p\<rparr>)"
    using at by (simp add: reader_step_def now_ns_def split: option.splits)
  have "reader_at tok n (b\<lparr>reads := Suc (reads b), reader_pc := ?p\<rparr>)"
    using measuringD(7,8) [OF m] at by (auto simp: reader_at_def stamped_def split: option.splits)
  then show ?thesis
    by (intro advances_reader [OF m g step])
      (use measuringD(4) [OF m] in \<open>simp_all add: at reader_rank_def split: option.splits\<close>)
qed

lemma reader_counts:
  assumes m: "measuring tok n b" and g: "go b" and at: "reader_pc b = R_Count i t"
  shows "advances reader_step True tok n b"
proof -
  let ?b = "b\<lparr>received := of_nat (Suc n), reader_pc := R_Read i t\<rparr>"
  have tok: "tok = Reading" using measuringD(8) [OF m] at by (simp add: reader_at_def)
  have s: "sender_pc b = S_Wait" "sent b = of_nat (Suc n)" "n < TOTAL_ORDERS" using measuringD(7) [OF m] tok by simp_all
  have "reader_step b = ret ?b" using at measuringD(2) [OF m] by (simp add: reader_step_def add.commute)
  moreover have "measuring Nowhere (Suc n) ?b"
  proof -
    have "reader_at Nowhere (Suc n) ?b" using measuringD(8) [OF m] at by (simp add: reader_at_def)
    moreover have "main_at Nowhere ?b"
      using measuringD(9) [OF m] tok at unfolding main_at_def by (cases "main_pc b") simp_all
    ultimately show ?thesis using measuringD(1-6) [OF m] s tok by (simp add: measuring_def)
  qed
  ultimately show ?thesis
    by (rule advancesI) (use s in \<open>simp add: rank_def sender_rank_def reader_rank_def at tok\<close>)
qed

lemma answer_index:
  assumes "reads_answer (WARMUP_ORDERS + Suc n) i ex" and "n < TOTAL_ORDERS"
  shows "rs_type (slot (ex_response_queue ex) i) = ResponseType_ACCEPTED"
    and "unat (rs_order_id (slot (ex_response_queue ex) i) - 1) = WARMUP_ORDERS + n"
proof -
  obtain t where t: "slot (ex_response_queue ex) i = acceptance (WARMUP_ORDERS + Suc n) t"
    using assms(1) by (auto simp: reads_answer_def)
  then show "rs_type (slot (ex_response_queue ex) i) = ResponseType_ACCEPTED"
    by (simp add: acceptance_def ClientResponse.make_def)
  have "rs_order_id (acceptance (WARMUP_ORDERS + Suc n) t) - 1 = of_nat (WARMUP_ORDERS + n)"
    by (simp add: acceptance_def ClientResponse.make_def)
  moreover have "WARMUP_ORDERS + n < 2 ^ 32" using assms(2) by (simp add: bench_constants)
  ultimately show "unat (rs_order_id (slot (ex_response_queue ex) i) - 1) = WARMUP_ORDERS + n"
    unfolding t by (simp only: unat_of_nat) (simp add: take_bit_nat_eq_self)
qed

lemma reader_records:
  assumes m: "measuring tok n b" and g: "go b" and at: "reader_pc b = R_Read i t"
  shows "advances reader_step True tok n b"
proof -
  let ?j = "length (latencies b)"
  let ?b = "b\<lparr>latencies := latencies b @ [t - send_ts b ! ?j], reader_pc := R_Loop\<rparr>"
  have r: "tok \<noteq> Reading" "n = Suc ?j" "reads_answer (WARMUP_ORDERS + Suc ?j) i (exchange b)" "send_ts b ! ?j \<le> t"
    using measuringD(8) [OF m] at by (auto simp: reader_at_def)
  have j: "?j < TOTAL_ORDERS" using measuringD(1) [OF m] r(2) by simp
  have "record_latency i t b = ret (b\<lparr>latencies := latencies b @ [t - send_ts b ! ?j]\<rparr>)"
    using answer_index [OF r(3) j] j measuringD(3) [OF m] by (simp add: record_latency_def)
  then have "reader_step b = ret ?b" using at by (simp add: reader_step_def)
  then show ?thesis
    by (rule advances_reader [OF m g])
      (use r measuringD(4) [OF m] in \<open>simp_all add: at reader_at_def reader_rank_def\<close>)
qed

lemma reader_measuring:
  assumes m: "measuring tok n b"
  shows "advances reader_step
    (go b \<and> reader_pc b \<noteq> R_Done \<and> (reader_pc b = R_Pop \<longrightarrow> tok = Answered)) tok n b"
proof (cases "go b \<and> reader_pc b \<noteq> R_Done")
  case False
  then have "reader_step b = ret b"
    using measuringD(9) [OF m] by (cases "main_pc b") (auto simp: main_at_def reader_step_def)
  then show ?thesis using m False by (intro advancesI) auto
next
  case True
  have loop: "received b < of_nat TOTAL_ORDERS \<longleftrightarrow> n < TOTAL_ORDERS"
    using measuringD(1,2) [OF m] unat_count by (simp add: word_less_nat_alt)
  let ?p = "if n < TOTAL_ORDERS then R_Pop else R_Done"
  show ?thesis
  proof (cases "reader_pc b")
    case R_New
    then show ?thesis using measuringD(8) [OF m] by (simp add: reader_at_def)
  next
    case R_Go
    then have "reader_step b = ret (b\<lparr>reader_pc := R_Loop\<rparr>)" using True by (simp add: reader_step_def)
    then show ?thesis
      by (rule advances_reader [OF m conjunct1 [OF True]])
        (use True R_Go measuringD(4,8) [OF m] in \<open>simp_all add: reader_at_def reader_rank_def\<close>)
  next
    case R_Loop
    then have "reader_step b = ret (b\<lparr>reader_pc := ?p\<rparr>)" by (simp add: reader_step_def loop)
    then show ?thesis
      by (rule advances_reader [OF m conjunct1 [OF True]])
        (use True R_Loop measuringD(1,4,8) [OF m] in \<open>simp_all add: reader_at_def reader_rank_def\<close>)
  qed (use True m reader_pops reader_times reader_counts reader_records in auto)
qed

text \<open>Rounds of the exchange.\<close>

lemma main_at_exchange:
  assumes "main_at tok b" and "loop_of ex = loop_of (exchange b)" and "tok = Over \<Longrightarrow> tok' = Over"
  shows "main_at tok' (b\<lparr>exchange := ex\<rparr>)"
  using assms unfolding main_at_def by (cases "main_pc b") simp_all

lemma sender_at_exchange: "sender_at tok n (b\<lparr>exchange := ex\<rparr>) = sender_at tok n b"
  by (cases tok) (simp_all add: stamped_def)

lemma reader_at_exchange:
  assumes "reader_at tok n b" and "\<And>j i. reads_answer j i (exchange b) \<Longrightarrow> reads_answer j i ex"
    and "tok' = Reading \<longleftrightarrow> tok = Reading"
  shows "reader_at tok' n (b\<lparr>exchange := ex\<rparr>)"
  using assms unfolding reader_at_def by (auto split: reader_point.splits option.splits)

lemma exchange_at_cases:
  assumes "exchange_at tok n ex" and "tok \<noteq> Asked"
  obtains k where "bench_ex k ex" "idle ex \<or> answered k ex"
    "\<And>ex'. bench_ex k ex' \<Longrightarrow> ex_request_queue ex' = ex_request_queue ex \<Longrightarrow>
       ex_response_queue ex' = ex_response_queue ex \<Longrightarrow> exchange_at tok n ex'"
  using assms that by (cases tok) (auto simp: idle_def answered_def)

lemma bench_fits: "n \<le> TOTAL_ORDERS \<Longrightarrow> Suc (WARMUP_ORDERS + n) < MAX_ORDER_IDS"
  by (simp add: bench_constants constants)

lemma measuring_exchange:
  assumes m: "measuring tok n b" and ex: "loop_of ex = loop_of (exchange b)" "ex_response_queue ex = ex_response_queue (exchange b)"
    and new: "exchange_at tok n ex"
  shows "measuring tok n (b\<lparr>exchange := ex\<rparr>)"
proof -
  have "reader_at tok n (b\<lparr>exchange := ex\<rparr>)"
    by (rule reader_at_exchange [OF measuringD(8) [OF m]]) (simp_all add: reads_answer_queue [OF ex(2)])
  then show ?thesis
    using measuringD(1-5,7) [OF m] new main_at_exchange [OF measuringD(9) [OF m] ex(1)]
    by (simp add: measuring_def sender_at_exchange)
qed

text \<open>A step of the thread that only moves its program point.\<close>

lemma exchange_at_thread: "exchange_at tok n ex \<Longrightarrow> exchange_at tok n (ex\<lparr>run_thread := pc\<rparr>)"
  using bench_ex_frame(4) by (cases tok) (auto simp: idle_def asked_def answered_def)

lemma measuring_thread:
  assumes m: "measuring tok n b" and at: "loop_at (main_pc b) (running (exchange b), pc)"
  shows "measuring tok n (b\<lparr>exchange := (exchange b)\<lparr>run_thread := pc\<rparr>\<rparr>)" (is "measuring _ _ ?b")
proof -
  have "reader_at tok n ?b"
    by (rule reader_at_exchange [OF measuringD(8) [OF m]]) (simp_all add: reads_answer_def)
  moreover have "main_at tok ?b" using measuringD(9) [OF m] at by (cases "main_pc b") (simp_all add: main_at_def)
  ultimately show ?thesis
    using measuringD(1-7) [OF m] exchange_at_thread by (simp add: measuring_def sender_at_exchange)
qed

text \<open>The body of the loop.\<close>

lemma body_measuring:
  assumes m: "measuring tok n b"
  shows "\<exists>tok' ex'. run_body (exchange b) = ret ex' \<and> measuring tok' n (b\<lparr>exchange := ex'\<rparr>)
    \<and> loop_of ex' = loop_of (exchange b) \<and> tok' = (if tok = Asked then Answered else tok)"
proof (cases "tok = Asked")
  case True
  have "bench_ex (WARMUP_ORDERS + n) (exchange b)" "asked (exchange b)" using measuringD(6) [OF m] True by simp_all
  from round_answers [OF this bench_fits [OF measuringD(1) [OF m]]] obtain ex' where
    ex': "run_body (exchange b) = ret ex'" "bench_ex (Suc (WARMUP_ORDERS + n)) ex'" "loop_of ex' = loop_of (exchange b)"
      "answered (Suc (WARMUP_ORDERS + n)) ex'" "\<And>j i. reads_answer j i (exchange b) \<Longrightarrow> reads_answer j i ex'"
    by blast
  have "measuring Answered n (b\<lparr>exchange := ex'\<rparr>)"
    using measuringD(1-5,7) [OF m] ex'(2,4) True main_at_exchange [OF measuringD(9) [OF m] ex'(3)]
      reader_at_exchange [OF measuringD(8) [OF m] ex'(5)]
    by (simp add: measuring_def stamped_def)
  then show ?thesis using ex'(1,3) True by auto
next
  case False
  obtain k where k: "bench_ex k (exchange b)" "idle (exchange b) \<or> answered k (exchange b)"
    "\<And>ex'. bench_ex k ex' \<Longrightarrow> ex_request_queue ex' = ex_request_queue (exchange b) \<Longrightarrow>
       ex_response_queue ex' = ex_response_queue (exchange b) \<Longrightarrow> exchange_at tok n ex'"
    using exchange_at_cases [OF measuringD(6) [OF m] False] by metis
  from round_keeps [OF k(1,2)] obtain ex' where
    ex': "run_body (exchange b) = ret ex'" "bench_ex k ex'" "loop_of ex' = loop_of (exchange b)"
      "ex_response_queue ex' = ex_response_queue (exchange b)" "ex_request_queue ex' = ex_request_queue (exchange b)"
    by blast
  with measuring_exchange [OF m ex'(3,4) k(3) [OF ex'(2,5,4)]] False show ?thesis by auto
qed

lemma round_measuring:
  assumes m: "measuring tok n b"
  shows "advances exchange_round (tok = Asked \<or> main_pc b = Join_Exchange \<and> run_thread (exchange b) \<noteq> Run_Done) tok n b"
proof -
  have at: "loop_at (main_pc b) (loop_of (exchange b))" and over: "main_pc b = Join_Exchange \<Longrightarrow> tok = Over"
    using measuringD(9) [OF m] by (simp_all add: main_at_def)
  have run: "tok = Asked \<Longrightarrow> running (exchange b)"
    using measuringD(9) [OF m] by (cases "main_pc b") (auto simp: main_at_def loop_at_def)
  show ?thesis
  proof (cases "run_thread (exchange b)")
    case Run_Test
    let ?pc = "if running (exchange b) then Run_Body else Run_Done"
    have "loop_at (main_pc b) (running (exchange b), ?pc)"
      using at Run_Test by (cases "main_pc b") (auto simp: loop_at_def)
    note moved = measuring_thread [OF m this]
    show ?thesis
    proof (rule advancesI [of exchange_round, OF _ moved])
      show "exchange_round b = ret (b\<lparr>exchange := (exchange b)\<lparr>run_thread := ?pc\<rparr>\<rparr>)"
        by (simp add: exchange_round_def run_step_def Run_Test)
    qed (cases "running (exchange b)"; simp add: rank_def loop_rank_def Run_Test)
  next
    case Run_Body
    from body_measuring [OF m] obtain ex' where
      ex': "run_body (exchange b) = ret ex'" "measuring (if tok = Asked then Answered else tok) n (b\<lparr>exchange := ex'\<rparr>)"
        "loop_of ex' = loop_of (exchange b)" by auto
    have "loop_at (main_pc b) (running (exchange b), Run_Test)"
      using at Run_Body by (cases "main_pc b") (auto simp: loop_at_def)
    then have "measuring (if tok = Asked then Answered else tok) n (b\<lparr>exchange := ex'\<lparr>run_thread := Run_Test\<rparr>\<rparr>)"
      using measuring_thread [OF ex'(2), of Run_Test] ex'(3) by simp
    then show ?thesis
    proof (intro advancesI [of exchange_round])
      show "exchange_round b = ret (b\<lparr>exchange := ex'\<lparr>run_thread := Run_Test\<rparr>\<rparr>)"
        using ex'(1) Run_Body by (simp add: exchange_round_def run_step_def)
    qed (use ex'(3) run over at Run_Body in \<open>auto simp: rank_def loop_rank_def sender_rank_def loop_at_def\<close>)
  next
    case No_Thread
    then have "tok \<noteq> Asked" "main_pc b \<noteq> Join_Exchange" using run at by (auto simp: loop_at_def split: main_point.splits)
    then show ?thesis using m No_Thread by (intro advancesI [of _ b b]) (simp_all add: exchange_round_def run_step_def)
  next
    case Run_Done
    then have "tok \<noteq> Asked" using run at by (auto simp: loop_at_def split: main_point.splits)
    then show ?thesis using m Run_Done by (intro advancesI [of _ b b]) (simp_all add: exchange_round_def run_step_def)
  qed
qed

text \<open>The main thread while the others measure.\<close>

lemma advances_main:
  assumes m: "measuring tok n b" and b': "b' = b\<lparr>exchange := ex, go := g, main_pc := p\<rparr>"
    and step: "main_step b = ret b'" and less: "main_rank p + loop_rank (loop_of ex) < main_rank (main_pc b) + loop_rank (loop_of (exchange b))"
    and new: "exchange_at tok n ex" "ex_response_queue ex = ex_response_queue (exchange b)" "main_at tok b'"
  shows "advances main_step True tok n b"
proof (rule advancesI [of main_step, OF step])
  have "sender_at tok n b'" by (rule sender_at_frame [OF measuringD(7,5) [OF m]]) (simp_all add: b')
  moreover have "reader_at tok n b'" by (rule reader_at_frame [OF measuringD(8) [OF m]]) (simp_all add: b' new(2))
  ultimately show "measuring tok n b'" using measuringD(1-5) [OF m] new by (simp add: measuring_def b')
  show "rank tok n b' < rank tok n b" using less by (simp add: rank_def b')
qed

lemma main_measuring:
  assumes m: "measuring tok n b"
  shows "advances main_step (main_pc b = Release \<or> main_pc b = Join_Producer \<and> tok = Over
    \<or> main_pc b = Join_Consumer \<and> reader_pc b = R_Done
    \<or> main_pc b = Join_Exchange \<and> run_thread (exchange b) = Run_Done) tok n b" (is "advances _ ?act _ _ _")
proof (cases ?act)
  case False
  have "sender_pc b \<noteq> S_Done" if "tok \<noteq> Over" using measuringD(7) [OF m] that by (cases tok) auto
  then have "main_step b = ret b"
    using False measuringD(9) [OF m]
    by (cases "main_pc b") (auto simp: main_step_defs main_at_def loop_at_def join_run_thread_def)
  then show ?thesis using m False by (intro advancesI) auto
next
  case True
  note at = measuringD(9) [OF m] and ex = measuringD(6) [OF m]
  from True consider (rel) "main_pc b = Release" | (prod) "main_pc b = Join_Producer" "tok = Over"
    | (cons) "main_pc b = Join_Consumer" "reader_pc b = R_Done"
    | (exch) "main_pc b = Join_Exchange" "run_thread (exchange b) = Run_Done" by blast
  then have "advances main_step True tok n b"
  proof cases
    case rel
    show ?thesis
      by (rule advances_main [OF m, where b' = "b\<lparr>go := True, main_pc := Join_Producer\<rparr>" and ex = "exchange b" and g = True and p = Join_Producer])
        (use rel at ex in \<open>simp_all add: main_step_defs main_rank_def main_at_def loop_at_def\<close>)
  next
    case prod
    show ?thesis
      by (rule advances_main [OF m, where b' = "b\<lparr>main_pc := Join_Consumer\<rparr>" and ex = "exchange b" and g = "go b" and p = Join_Consumer])
        (use prod at ex measuringD(7) [OF m] in \<open>simp_all add: main_step_defs main_rank_def main_at_def loop_at_def\<close>)
  next
    case cons
    let ?ex = "Exchange_stop (exchange b)"
    have "exchange_at tok n ?ex"
      using ex cons at bench_ex_frame(3) by (simp add: Exchange_stop_def idle_def main_at_def)
    moreover have "loop_at Join_Exchange (loop_of ?ex)" using cons at by (auto simp: main_at_def loop_at_def Exchange_stop_def)
    ultimately show ?thesis
      by (intro advances_main [OF m, where b' = "b\<lparr>exchange := ?ex, main_pc := Join_Exchange\<rparr>" and ex = ?ex and g = "go b" and p = Join_Exchange])
        (use cons at in \<open>simp_all add: main_step_defs main_rank_def main_at_def Exchange_stop_def loop_rank_def\<close>)
  next
    case exch
    let ?ex = "(exchange b)\<lparr>run_thread := No_Thread\<rparr>"
    have "main_step b = ret (b\<lparr>exchange := ?ex, main_pc := Finished\<rparr>)"
      using exch by (simp add: main_step_defs join_run_thread_def)
    then show ?thesis
      by (intro advances_main [OF m, where b' = "b\<lparr>exchange := ?ex, main_pc := Finished\<rparr>" and ex = ?ex and g = "go b" and p = Finished])
        (use exch at exchange_at_thread [OF ex] in \<open>simp_all add: main_rank_def main_at_def loop_at_def loop_rank_def\<close>)
  qed
  then show ?thesis using True by simp
qed

end
