(* ===== verification/Benchmark_Properties.thy ===== *)
theory Benchmark_Properties
  imports Benchmark_Steps
begin

text \<open>
  The warm-up, all reachable states, and the properties of the benchmark: no thread faults, at
  most one order is under way, and from every reachable state the program can be run to its
  end, with a latency for every measured order.
\<close>

section \<open>Warming up\<close>

lemma loop_at_warm [simp]:
  "loop_at (Warm_Push i) l \<longleftrightarrow> l \<in> {(True, Run_Test), (True, Run_Body)}"
  "loop_at (Warm_Wait i) l \<longleftrightarrow> l \<in> {(True, Run_Test), (True, Run_Body)}"
  "loop_at Spawn l \<longleftrightarrow> l \<in> {(True, Run_Test), (True, Run_Body)}"
  "loop_at Release l \<longleftrightarrow> l \<in> {(True, Run_Test), (True, Run_Body)}"
  by (simp_all add: loop_at_def)

definition warm_rank :: "token \<Rightarrow> nat \<Rightarrow> Bench \<Rightarrow> nat" where
  "warm_rank tok i b =
     (case main_pc b of
        Warm_Push j \<Rightarrow> 8 * (WARMUP_ORDERS - i) + 6
      | Warm_Wait j \<Rightarrow> 8 * (WARMUP_ORDERS - i) + (if tok = Asked then 4 else 2)
      | _ \<Rightarrow> 2) + loop_rank (loop_of (exchange b))"

text \<open>The invariant of the program, with a bound on what is left to do.\<close>

inductive bench_inv :: "nat \<Rightarrow> Bench \<Rightarrow> bool" where
  warm: "warming tok i b \<Longrightarrow> bench_inv (1000 * Suc TOTAL_ORDERS + warm_rank tok i b) b"
| measure: "measuring tok n b \<Longrightarrow> bench_inv (rank tok n b) b"

definition progresses :: "(Bench \<Rightarrow> Bench outcome) \<Rightarrow> bool \<Rightarrow> nat \<Rightarrow> Bench \<Rightarrow> bool" where
  "progresses f act r b \<longleftrightarrow> (\<exists>r' b'. f b = ret b' \<and> bench_inv r' b' \<and> (act \<longrightarrow> r' < r))"

lemma progresses_measure: "advances f act tok n b \<Longrightarrow> progresses f act (rank tok n b) b"
  unfolding advances_def progresses_def by (blast intro: bench_inv.measure)

lemma progresses_warm:
  "f b = ret b' \<Longrightarrow> warming tok' i' b' \<Longrightarrow> (act \<Longrightarrow> warm_rank tok' i' b' < warm_rank tok i b) \<Longrightarrow>
     progresses f act (1000 * Suc TOTAL_ORDERS + warm_rank tok i b) b"
  unfolding progresses_def using bench_inv.warm by fastforce

lemma warmingD:
  assumes "warming tok i b"
  shows "sender_pc b = S_New" "reader_pc b = R_New" "loop_of (exchange b) \<in> {(True, Run_Test), (True, Run_Body)}"
    "mono (steady b)" "latencies b = []"
  using assms by (auto simp: warming_def loop_at_def split: main_point.splits)

lemma warm_idle_threads:
  assumes "warming tok i b"
  shows "sender_step b = ret b" "reader_step b = ret b"
  using warmingD [OF assms] by (simp_all add: sender_step_def reader_step_def)

lemma warm_pushes:
  assumes w: "warming tok i b" and at: "main_pc b = Warm_Push i"
  shows "progresses main_step True (1000 * Suc TOTAL_ORDERS + warm_rank tok i b) b"
proof (cases "i < WARMUP_ORDERS")
  case True
  have ex: "bench_ex i (exchange b)" "idle (exchange b)" using w at by (simp_all add: warming_def)
  from send_request_idle [OF this] obtain ex' where
    ex': "send_request 0 b = ret (b\<lparr>exchange := ex'\<rparr>)" "bench_ex i ex'" "asked ex'" "loop_of ex' = loop_of (exchange b)"
    by blast
  then have "main_step b = ret (b\<lparr>exchange := ex', main_pc := Warm_Wait i\<rparr>)"
    "warming Asked i (b\<lparr>exchange := ex', main_pc := Warm_Wait i\<rparr>)"
    using True at warmingD [OF w] by (simp_all add: main_step_defs warming_def)
  then show ?thesis by (rule progresses_warm) (use ex'(4) in \<open>simp add: warm_rank_def at\<close>)
next
  case False
  then have "main_step b = ret (b\<lparr>main_pc := Spawn\<rparr>)" "warming Nowhere i (b\<lparr>main_pc := Spawn\<rparr>)"
    using w at by (auto simp: main_step_defs warming_def)
  then show ?thesis by (rule progresses_warm) (simp add: warm_rank_def at)
qed

lemma warm_waits:
  assumes w: "warming tok i b" and at: "main_pc b = Warm_Wait i"
  shows "progresses main_step (tok = Answered) (1000 * Suc TOTAL_ORDERS + warm_rank tok i b) b"
proof (cases "tok = Answered")
  case True
  then have ex: "bench_ex (Suc i) (exchange b)" "answered (Suc i) (exchange b)" and i: "i < WARMUP_ORDERS"
    using w at by (auto simp: warming_def)
  from pop_response_some [OF ex] obtain j ex' where
    ex': "pop_response b = (Some j, b\<lparr>exchange := ex'\<rparr>)" "bench_ex (Suc i) ex'" "idle ex'" "loop_of ex' = loop_of (exchange b)"
    by blast
  then have "main_step b = ret (b\<lparr>exchange := ex', main_pc := Warm_Push (Suc i)\<rparr>)"
    "warming Nowhere (Suc i) (b\<lparr>exchange := ex', main_pc := Warm_Push (Suc i)\<rparr>)"
    using at i warmingD [OF w] by (simp_all add: main_step_defs warming_def)
  then show ?thesis by (rule progresses_warm) (use i ex'(4) in \<open>simp add: warm_rank_def at True\<close>)
next
  case False
  then have "bench_ex i (exchange b)" "asked (exchange b)" using w at by (auto simp: warming_def)
  then have "pop_response b = (None, b)" by (intro pop_response_none) (auto simp: asked_def)
  then have "main_step b = ret b" using at by (simp add: main_step_defs)
  then show ?thesis by (rule progresses_warm [OF _ w]) (use False in simp)
qed

lemma warm_spawns:
  assumes w: "warming tok i b" and at: "main_pc b = Spawn"
  shows "progresses main_step True (1000 * Suc TOTAL_ORDERS + warm_rank tok i b) b"
proof -
  let ?b = "b\<lparr>send_ts := replicate TOTAL_ORDERS 0, latencies := [], sent := 0, received := 0, go := False,
      sender_pc := S_Go, reader_pc := R_Go, main_pc := Release\<rparr>"
  have "main_step b = ret ?b" using at by (simp add: main_step_defs)
  moreover have "measuring Nowhere 0 ?b"
    using w at by (auto simp: measuring_def warming_def reader_at_def main_at_def)
  moreover have "rank Nowhere 0 ?b < 1000 * Suc TOTAL_ORDERS"
    by (simp add: rank_def sender_rank_def reader_rank_def main_rank_def loop_rank_def)
  ultimately show ?thesis unfolding progresses_def by (metis bench_inv.measure trans_less_add1)
qed

lemma warming_thread:
  assumes "warming tok i b" and "pc \<in> {Run_Test, Run_Body}"
  shows "warming tok i (b\<lparr>exchange := (exchange b)\<lparr>run_thread := pc\<rparr>\<rparr>)"
  using assms bench_ex_frame(4)
  by (auto simp: warming_def loop_at_def idle_def asked_def answered_def split: main_point.splits)

lemma warm_body:
  assumes w: "warming tok i b"
  shows "\<exists>tok' ex'. run_body (exchange b) = ret ex' \<and> warming tok' i (b\<lparr>exchange := ex'\<rparr>)
    \<and> loop_of ex' = loop_of (exchange b) \<and> tok' = (if tok = Asked then Answered else tok)"
proof (cases "tok = Asked")
  case True
  then have at: "main_pc b = Warm_Wait i" and ex: "bench_ex i (exchange b)" "asked (exchange b)"
    and i: "i < WARMUP_ORDERS"
    using w by (auto simp: warming_def split: main_point.splits)
  have "Suc i < MAX_ORDER_IDS" using i by (simp add: bench_constants constants)
  from round_answers [OF ex this] obtain ex' where
    ex': "run_body (exchange b) = ret ex'" "bench_ex (Suc i) ex'" "loop_of ex' = loop_of (exchange b)" "answered (Suc i) ex'"
    by blast
  then have "warming Answered i (b\<lparr>exchange := ex'\<rparr>)" using at i w by (simp add: warming_def)
  then show ?thesis using ex'(1,3) True by auto
next
  case False
  then obtain k where k: "bench_ex k (exchange b)" "idle (exchange b) \<or> answered k (exchange b)"
    "\<And>ex'. bench_ex k ex' \<Longrightarrow> loop_of ex' = loop_of (exchange b) \<Longrightarrow> ex_request_queue ex' = ex_request_queue (exchange b) \<Longrightarrow>
       ex_response_queue ex' = ex_response_queue (exchange b) \<Longrightarrow> warming tok i (b\<lparr>exchange := ex'\<rparr>)"
    using w that by (cases "main_pc b") (auto simp: warming_def idle_def answered_def)
  from round_keeps [OF k(1,2)] obtain ex' where
    "run_body (exchange b) = ret ex'" "bench_ex k ex'" "loop_of ex' = loop_of (exchange b)"
    "ex_response_queue ex' = ex_response_queue (exchange b)" "ex_request_queue ex' = ex_request_queue (exchange b)"
    by blast
  with k(3) False show ?thesis by auto
qed

lemma warm_round:
  assumes w: "warming tok i b"
  shows "progresses exchange_round (tok = Asked) (1000 * Suc TOTAL_ORDERS + warm_rank tok i b) b"
proof -
  consider (test) "loop_of (exchange b) = (True, Run_Test)" | (body) "loop_of (exchange b) = (True, Run_Body)"
    using warmingD(3) [OF w] by blast
  then show ?thesis
  proof cases
    case test
    then have "exchange_round b = ret (b\<lparr>exchange := (exchange b)\<lparr>run_thread := Run_Body\<rparr>\<rparr>)"
      by (simp add: exchange_round_def run_step_def)
    moreover have "warming tok i (b\<lparr>exchange := (exchange b)\<lparr>run_thread := Run_Body\<rparr>\<rparr>)"
      by (rule warming_thread [OF w]) simp
    ultimately show ?thesis
      by (rule progresses_warm) (use test in \<open>simp add: warm_rank_def loop_rank_def\<close>)
  next
    case body
    from warm_body [OF w] obtain ex' where
      ex': "run_body (exchange b) = ret ex'" "warming (if tok = Asked then Answered else tok) i (b\<lparr>exchange := ex'\<rparr>)"
        "loop_of ex' = loop_of (exchange b)" by auto
    have at: "tok = Asked \<Longrightarrow> main_pc b = Warm_Wait i" using w by (auto simp: warming_def split: main_point.splits)
    have "exchange_round b = ret (b\<lparr>exchange := ex'\<lparr>run_thread := Run_Test\<rparr>\<rparr>)"
      using body ex'(1) by (simp add: exchange_round_def run_step_def)
    moreover have "warming (if tok = Asked then Answered else tok) i (b\<lparr>exchange := ex'\<lparr>run_thread := Run_Test\<rparr>\<rparr>)"
      using warming_thread [OF ex'(2), of Run_Test] by simp
    ultimately show ?thesis
      by (rule progresses_warm) (use at body ex'(3) in \<open>simp add: warm_rank_def loop_rank_def\<close>)
  qed
qed

section \<open>All reachable states\<close>

lemma bench_inv_returns:
  assumes "bench_inv r b"
  shows "progresses main_step False r b" "progresses sender_step False r b"
    "progresses reader_step False r b" "progresses exchange_round False r b"
proof -
  have weak: "progresses f act r b \<Longrightarrow> progresses f False r b" for f act by (auto simp: progresses_def)
  have "\<exists>a. progresses main_step a r b" "\<exists>a. progresses sender_step a r b"
    "\<exists>a. progresses reader_step a r b" "\<exists>a. progresses exchange_round a r b"
    using assms
  proof (atomize (full), induction rule: bench_inv.induct)
    case (warm tok i b)
    have "main_pc b = Warm_Push i \<or> main_pc b = Warm_Wait i \<or> main_pc b = Spawn"
      using warm by (auto simp: warming_def split: main_point.splits)
    moreover have "progresses f False (1000 * Suc TOTAL_ORDERS + warm_rank tok i b) b" if "f b = ret b" for f
      by (rule progresses_warm [of f b b tok i, OF that warm]) simp
    ultimately show ?case
      using warm_pushes [OF warm] warm_waits [OF warm] warm_spawns [OF warm] warm_round [OF warm]
        warm_idle_threads [OF warm] by blast
  next
    case (measure tok n b)
    then show ?case
      using progresses_measure main_measuring sender_measuring reader_measuring round_measuring by blast
  qed
  then show "progresses main_step False r b" "progresses sender_step False r b"
    "progresses reader_step False r b" "progresses exchange_round False r b"
    using weak by blast+
qed

lemma bench_inv_step: "bench_step b b' \<Longrightarrow> bench_inv r b \<Longrightarrow> \<exists>r'. bench_inv r' b'"
  by (erule bench_stepE) (use bench_inv_returns [of r b] in \<open>auto simp: progresses_def\<close>)

lemma bench_inv_reachable: "bench_step\<^sup>*\<^sup>* b b' \<Longrightarrow> bench_inv r b \<Longrightarrow> \<exists>r'. bench_inv r' b'"
  by (induction rule: rtranclp_induct) (auto dest: bench_inv_step)

text \<open>Until the program has finished, some thread can do a step that leaves less to do.\<close>

lemma measuring_moves:
  assumes m: "measuring tok n b" and "main_pc b \<noteq> Finished"
  shows "(\<exists>f \<in> {main_step, sender_step, reader_step, exchange_round}. advances f True tok n b)"
proof (cases "main_pc b = Release")
  case True
  then show ?thesis using main_measuring [OF m] by auto
next
  case False
  then have at: "go b" "main_pc b = Join_Producer \<or> main_pc b = Join_Consumer \<and> tok = Over \<or> main_pc b = Join_Exchange"
    using measuringD(9) [OF m] assms(2) by (auto simp: main_at_def split: main_point.splits)
  consider (read) "reader_pc b \<noteq> R_Done \<and> (reader_pc b = R_Pop \<longrightarrow> tok = Answered)"
    | (pop) "reader_pc b = R_Pop" "tok \<noteq> Answered" | (last) "reader_pc b = R_Done" by blast
  then show ?thesis
  proof cases
    case read
    then show ?thesis using reader_measuring [OF m] at(1) by auto
  next
    case pop
    then have "tok \<noteq> Reading" "tok \<noteq> Over"
      using measuringD(7,8) [OF m] by (auto simp: reader_at_def)
    then have "tok \<in> {Nowhere, Sending} \<or> tok = Asked" using pop(2) by (cases tok) auto
    then show ?thesis using sender_measuring [OF m] round_measuring [OF m] at(1) by auto
  next
    case last
    then have "n = TOTAL_ORDERS" using measuringD(8) [OF m] by (simp add: reader_at_def)
    then have "tok = Nowhere \<or> tok = Over" using measuringD(7,8) [OF m] last by (cases tok) (auto simp: reader_at_def)
    then show ?thesis
    proof
      assume "tok = Nowhere"
      then show ?thesis using sender_measuring [OF m] at(1) by simp
    next
      assume "tok = Over"
      then have "advances main_step True tok n b \<or> advances exchange_round True tok n b"
        using main_measuring [OF m] round_measuring [OF m] at(2) last
        by (cases "main_pc b = Join_Exchange \<and> run_thread (exchange b) \<noteq> Run_Done") auto
      then show ?thesis by blast
    qed
  qed
qed

lemma bench_moves:
  assumes "bench_inv r b" and "main_pc b \<noteq> Finished"
  shows "\<exists>r' b'. bench_step b b' \<and> r' < r \<and> bench_inv r' b'"
proof -
  have "\<exists>f \<in> {main_step, sender_step, reader_step, exchange_round}. progresses f True r b"
    using assms
  proof (induction rule: bench_inv.induct)
    case (warm tok i b)
    then consider "main_pc b = Warm_Push i" | "main_pc b = Warm_Wait i" "tok = Asked \<or> tok = Answered"
      | "main_pc b = Spawn"
      by (auto simp: warming_def split: main_point.splits)
    then show ?case
      using warm_pushes [OF warm(1)] warm_waits [OF warm(1)] warm_spawns [OF warm(1)] warm_round [OF warm(1)]
      by cases auto
  next
    case (measure tok n b)
    then show ?case using measuring_moves progresses_measure by blast
  qed
  then show ?thesis unfolding progresses_def using bench_step.intros by blast
qed

lemma bench_starts:
  assumes "mono stdy"
  shows "\<exists>b r. bench_new clk n stdy = ret b \<and> bench_inv r b"
proof -
  let ?rq = "LFQueue_new bench_queue_size ClientRequest_default" and ?sq = "LFQueue_new bench_queue_size ClientResponse_default"
    and ?uq = "LFQueue_new bench_queue_size MarketUpdate_default"
  let ?ex = "\<lparr>running = False, run_thread = No_Thread, next_order_id = 1, ex_next_trade_id = 1, order_books_map = [],
        next_request = None, ex_request_queue = ?rq, ex_response_queue = ?sq,
        ex_update_queue = ?uq, ex_clock = clk, ex_ticks = n\<rparr>"
  let ?ex1 = "?ex\<lparr>order_books_map := [(bench_ticker, Some (OrderBook_new bench_ticker))]\<rparr>"
  have ok: "lf_ok ?rq" "lf_ok ?sq" "lf_ok ?uq" by (simp_all add: lf_ok_new bench_queue_size_def)
  have "ex_sound {100} 0 ?ex" using ok by (simp add: ex_sound_def queues_ok_def)
  from addTickers_new [OF this, of "[bench_ticker]"]
  have new: "addTickers [bench_ticker] ?ex = ret ?ex1" "ex_sound {100} 0 ?ex1"
    by (simp_all add: few_prices_def constants)
  let ?ex2 = "?ex1\<lparr>running := True, run_thread := Run_Test\<rparr>"
  let ?b = "\<lparr>exchange = ?ex2, sent = 0, received = 0, go = False, send_ts = [], latencies = [],
      main_pc = Warm_Push 0, sender_pc = S_New, reader_pc = R_New, steady = stdy, reads = 0\<rparr>"
  have "bench_new clk n stdy = ret ?b" using new(1) by (simp add: bench_new_def Exchange_new_def Exchange_start_def)
  moreover have "bench_ex 0 ?ex1"
    using new(2) by (simp add: bench_ex_def OrderBook_new_def room_def)
  then have "bench_ex 0 ?ex2" by (intro bench_ex_frame(3,4))
  then have "warming Nowhere 0 ?b" using assms by (simp add: warming_def idle_def loop_at_def)
  ultimately show ?thesis by (blast intro: bench_inv.warm)
qed

section \<open>Properties\<close>

text \<open>What the invariant says of the state.\<close>

lemma bench_inv_observe:
  assumes "bench_inv r b"
  shows "length (contents (ex_request_queue (exchange b))) + length (contents (ex_response_queue (exchange b))) \<le> 1"
    and "\<forall>l \<in> set (latencies b). 0 \<le> l"
proof -
  have w: "idle (exchange b) \<or> asked (exchange b) \<or> (\<exists>k. answered k (exchange b))"
    using assms
  proof cases
    case (warm tok i)
    then show ?thesis by (auto simp: warming_def split: main_point.splits)
  next
    case (measure tok n)
    then show ?thesis using measuringD(6) by (cases tok) fastforce+
  qed
  then show "length (contents (ex_request_queue (exchange b))) + length (contents (ex_response_queue (exchange b))) \<le> 1"
    unfolding idle_def asked_def answered_def by (elim disjE exE conjE) simp_all
  show "\<forall>l \<in> set (latencies b). 0 \<le> l"
    using assms by cases (auto dest: warmingD(5) measuringD(4))
qed

lemma bench_inv_finished:
  assumes "bench_inv r b" and "main_pc b = Finished"
  shows "length (latencies b) = TOTAL_ORDERS" "idle (exchange b)"
    "next_order_id (exchange b) = of_nat (Suc (WARMUP_ORDERS + TOTAL_ORDERS))" "run_thread (exchange b) = No_Thread"
proof -
  obtain tok n where m: "measuring tok n b"
    using assms by (cases rule: bench_inv.cases) (auto simp: warming_def)
  have "tok = Over" "reader_pc b = R_Done" using measuringD(9) [OF m] assms(2) by (simp_all add: main_at_def)
  then show "length (latencies b) = TOTAL_ORDERS" "idle (exchange b)"
    "next_order_id (exchange b) = of_nat (Suc (WARMUP_ORDERS + TOTAL_ORDERS))" "run_thread (exchange b) = No_Thread"
    using measuringD(6-9) [OF m] assms(2) by (simp_all add: reader_at_def bench_ex_def main_at_def loop_at_def)
qed

text \<open>
  C30. The benchmark is safe: its set-up returns, and in every state that its threads and the
  exchange can reach, under every interleaving, the next step of each of them returns (no index
  is out of range, no null pointer is read, no pool runs empty over all 5005000 orders), at most
  one request or response is in the rings, and no recorded latency is negative. The clock is
  only assumed to be monotone.
\<close>

theorem benchmark_safe:
  assumes "mono stdy"
  shows "\<exists>b0. bench_new clk n stdy = ret b0 \<and> (\<forall>b. bench_step\<^sup>*\<^sup>* b0 b \<longrightarrow>
    (\<exists>b'. main_step b = ret b') \<and> (\<exists>b'. sender_step b = ret b') \<and> (\<exists>b'. reader_step b = ret b')
    \<and> (\<exists>b'. exchange_round b = ret b')
    \<and> length (contents (ex_request_queue (exchange b))) + length (contents (ex_response_queue (exchange b))) \<le> 1
    \<and> (\<forall>l \<in> set (latencies b). 0 \<le> l))"
proof -
  obtain b0 r0 where b0: "bench_new clk n stdy = ret b0" "bench_inv r0 b0" using bench_starts [OF assms] by blast
  have "(\<exists>b'. main_step b = ret b') \<and> (\<exists>b'. sender_step b = ret b') \<and> (\<exists>b'. reader_step b = ret b')
    \<and> (\<exists>b'. exchange_round b = ret b')
    \<and> length (contents (ex_request_queue (exchange b))) + length (contents (ex_response_queue (exchange b))) \<le> 1
    \<and> (\<forall>l \<in> set (latencies b). 0 \<le> l)" if reach: "bench_step\<^sup>*\<^sup>* b0 b" for b
  proof -
    obtain r where "bench_inv r b" using bench_inv_reachable [OF reach b0(2)] by blast
    from bench_inv_returns [OF this] bench_inv_observe [OF this] show ?thesis
      unfolding progresses_def by blast
  qed
  with b0(1) show ?thesis by blast
qed

text \<open>
  C31. The benchmark can always be run to its end: from every reachable state some sequence of
  steps finishes the main thread. Every measured order then has its latency, the rings are empty,
  the thread of the exchange has been joined, and the exchange has given out an identifier to each of the orders. So no interleaving leads
  into a deadlock or livelock that a fair scheduler could not leave.
\<close>

theorem benchmark_completes:
  assumes "mono stdy" and "bench_new clk n stdy = ret b0" and "bench_step\<^sup>*\<^sup>* b0 b"
  shows "\<exists>b'. bench_step\<^sup>*\<^sup>* b b' \<and> main_pc b' = Finished \<and> length (latencies b') = TOTAL_ORDERS
    \<and> next_order_id (exchange b') = of_nat (Suc (WARMUP_ORDERS + TOTAL_ORDERS))
    \<and> contents (ex_request_queue (exchange b')) = [] \<and> contents (ex_response_queue (exchange b')) = []
    \<and> run_thread (exchange b') = No_Thread"
proof -
  obtain r where r: "bench_inv r b"
    using bench_starts [OF assms(1), of clk n] bench_inv_reachable [OF assms(3)] assms(2) by auto
  obtain r' b' where b': "bench_step\<^sup>*\<^sup>* b b'" "main_pc b' = Finished" "bench_inv r' b'"
    using reaches_by_measure [of bench_inv "\<lambda>b. main_pc b = Finished" bench_step, OF _ r] bench_moves by blast
  from bench_inv_finished [OF b'(3,2)] b'(1,2) show ?thesis unfolding idle_def by blast
qed

theorem benchmark_safe_witness:
  "\<exists>b0. bench_new int 0 int = ret b0 \<and> (\<exists>b'. main_step b0 = ret b')"
proof -
  have "mono int" by (simp add: mono_def)
  from benchmark_safe [OF this, of int 0] show ?thesis by blast
qed

theorem benchmark_completes_witness:
  "\<exists>b0 b'. bench_new int 0 int = ret b0 \<and> bench_step\<^sup>*\<^sup>* b0 b' \<and> main_pc b' = Finished
     \<and> length (latencies b') = 5000000"
proof -
  have m: "mono int" by (simp add: mono_def)
  obtain b0 where b0: "bench_new int 0 int = ret b0" using bench_starts [OF m] by blast
  from benchmark_completes [OF m b0 rtranclp.rtrancl_refl] b0 show ?thesis by (auto simp: TOTAL_ORDERS_def)
qed

end
