(* ===== verification/Percentile_Index.thy ===== *)
theory Percentile_Index
  imports Exchange_Prelude "HOL-Library.Word"
begin

text \<open>
  The index of a percentile in \<open>standalone/benchmark_exchange_mt.cpp\<close>, computed in double
  precision: a number below one is \<open>m / 2 ^ 53\<close> for its significand \<open>m\<close>, and the product with the
  number of gaps is rounded to 53 bits, ties to even, before its fraction is cut off.
\<close>

section \<open>The index of a percentile\<close>

fun bits :: "nat \<Rightarrow> nat" where
  "bits n = (if n = 0 then 0 else Suc (bits (n div 2)))"

declare bits.simps [simp del]

definition half_even :: "nat \<Rightarrow> nat \<Rightarrow> nat" where
  "half_even a d =
     (let q = a div d; r = a mod d in if 2 * r < d \<or> 2 * r = d \<and> even q then q else Suc q)"

text \<open>A natural number rounded to a double, and the significand of the literal \<open>n / d\<close> in \<open>[1/2, 1)\<close>.\<close>

definition rounded :: "nat \<Rightarrow> nat" where
  "rounded n = half_even n (2 ^ (bits n - 53)) * 2 ^ (bits n - 53)"

definition literal :: "nat \<Rightarrow> nat \<Rightarrow> nat" where
  "literal n d = half_even (n * 2 ^ 53) d"

definition pct_index :: "nat \<Rightarrow> 64 word \<Rightarrow> nat" where
  "pct_index p n = rounded (p * rounded (unat n)) div 2 ^ 53"

definition pct :: "nat \<Rightarrow> int list \<Rightarrow> int outcome" where
  "pct p ls =
     (let i = pct_index p (of_nat (length ls) - 1)
      in if i < length ls then ret (ls ! i) else throw Out_Of_Range)"

lemma literals:
  "literal 50 100 = 4503599627370496" "literal 99 100 = 8917127262193582" "literal 999 1000 = 8998192055486251"
  by (simp_all add: literal_def half_even_def Let_def)

lemma bits_eq: "2 ^ k \<le> n \<Longrightarrow> n < 2 ^ Suc k \<Longrightarrow> bits n = Suc k"
proof (induction k arbitrary: n)
  case 0
  then have "n = 1" by simp
  then show ?case by (subst bits.simps, subst bits.simps) simp
next
  case (Suc k)
  then have "bits (n div 2) = Suc k" by (intro Suc.IH) simp_all
  moreover have "n \<noteq> 0" using Suc.prems(1) by (cases n) simp_all
  ultimately show ?case by (subst bits.simps) simp
qed

lemma rounded_small: "n < 2 ^ 53 \<Longrightarrow> rounded n = n"
proof -
  have le: "bits n \<le> k" if "n < 2 ^ k" for k n
    using that
  proof (induction k arbitrary: n)
    case 0
    then show ?case by (simp add: bits.simps)
  next
    case (Suc k)
    then have "bits (n div 2) \<le> k" by (intro Suc.IH) auto
    then show ?case by (subst bits.simps) simp
  qed
  assume "n < 2 ^ 53"
  from le [OF this] show ?thesis by (simp add: rounded_def half_even_def)
qed

lemma benchmark_indices:
  "pct_index (literal 50 100) 4999999 = 2499999" "pct_index (literal 99 100) 4999999 = 4949999"
  "pct_index (literal 999 1000) 4999999 = 4994999"
proof -
  have n: "rounded (unat (4999999 :: 64 word)) = 4999999" by (subst rounded_small) simp_all
  have b: "bits (4503599627370496 * 4999999) = Suc 74" "bits (8917127262193582 * 4999999) = Suc 75"
    "bits (8998192055486251 * 4999999) = Suc 75" by (rule bits_eq; simp)+
  show "pct_index (literal 50 100) 4999999 = 2499999" "pct_index (literal 99 100) 4999999 = 4949999"
    "pct_index (literal 999 1000) 4999999 = 4994999"
    unfolding pct_index_def n literals unfolding rounded_def b half_even_def Let_def by simp_all
qed

end
