(* ===== verification/Benchmark_Statistics.thy ===== *)
theory Benchmark_Statistics
  imports Benchmark_Properties Percentile_Index
begin

text \<open>
  The percentiles that \<open>standalone/benchmark_exchange_mt.cpp\<close> prints at its end.
\<close>

section \<open>The results\<close>

definition print_results :: "int list \<Rightarrow> (int \<times> int \<times> int) outcome" where
  "print_results ls =
     (let ls' = sort ls in
      obind (pct (literal 50 100) ls') (\<lambda>p50.
      obind (pct (literal 99 100) ls') (\<lambda>p99.
      obind (pct (literal 999 1000) ls') (\<lambda>p999. ret (p50, p99, p999)))))"

lemma no_latency_faults: "print_results [] = throw Out_Of_Range"
  by (simp add: print_results_def pct_def)

section \<open>Percentiles of a sorted list\<close>

lemma sorted_count:
  assumes "sorted ls" and "i < length ls"
  shows "Suc i \<le> length (filter (\<lambda>x. x \<le> ls ! i) ls)"
proof -
  have "filter (\<lambda>x. x \<le> ls ! i) (take (Suc i) ls) = take (Suc i) ls"
    using assms sorted_nth_mono [of ls _ i] by (auto simp: filter_id_conv in_set_conv_nth less_Suc_eq_le)
  then have "Suc i \<le> length (filter (\<lambda>x. x \<le> ls ! i) (take (Suc i) ls))" using assms(2) by simp
  also have "\<dots> \<le> length (filter (\<lambda>x. x \<le> ls ! i) (take (Suc i) ls @ drop (Suc i) ls))"
    by (simp only: filter_append length_append)
  finally show ?thesis by simp
qed

lemma sort_count: "length (filter P (sort ls)) = length (filter P ls)"
  using filter_sort [of P "\<lambda>x. x" ls] by simp

text \<open>
  C32. The results of the benchmark are percentiles. Whenever the main thread has finished, the
  three indices are within the list of latencies, the printed values are latencies, ordered and
  not negative, and at least half of the orders, 99 percent and 99.9 percent of them had a
  latency of at most the printed value, in spite of the rounding.
\<close>

theorem printed_percentiles:
  assumes "mono stdy" and "bench_new clk n stdy = ret b0" and "bench_step\<^sup>*\<^sup>* b0 b" and "main_pc b = Finished"
  shows "\<exists>p50 p99 p999. print_results (latencies b) = ret (p50, p99, p999)
    \<and> {p50, p99, p999} \<subseteq> set (latencies b) \<and> 0 \<le> p50 \<and> p50 \<le> p99 \<and> p99 \<le> p999
    \<and> TOTAL_ORDERS \<le> 2 * length (filter (\<lambda>l. l \<le> p50) (latencies b))
    \<and> 99 * TOTAL_ORDERS \<le> 100 * length (filter (\<lambda>l. l \<le> p99) (latencies b))
    \<and> 999 * TOTAL_ORDERS \<le> 1000 * length (filter (\<lambda>l. l \<le> p999) (latencies b))"
proof -
  obtain r where r: "bench_inv r b"
    using bench_starts [OF assms(1), of clk n] bench_inv_reachable [OF assms(3)] assms(2) by auto
  let ?s = "sort (latencies b)"
  have len: "length ?s = 5000000" using bench_inv_finished [OF r assms(4)] by (simp add: TOTAL_ORDERS_def)
  have pos: "\<forall>l \<in> set (latencies b). 0 \<le> l" using bench_inv_observe [OF r] by blast
  have "pct (literal 50 100) ?s = ret (?s ! 2499999)" "pct (literal 99 100) ?s = ret (?s ! 4949999)"
    "pct (literal 999 1000) ?s = ret (?s ! 4994999)"
    unfolding pct_def len by (simp_all add: benchmark_indices)
  then have "print_results (latencies b) = ret (?s ! 2499999, ?s ! 4949999, ?s ! 4994999)"
    by (simp add: print_results_def Let_def)
  moreover have "?s ! i \<in> set (latencies b)" if "i < 5000000" for i
    using that len nth_mem [of i ?s] by simp
  moreover have "?s ! 2499999 \<le> ?s ! 4949999" by (rule sorted_nth_mono) (simp_all add: len [simplified])
  moreover have "?s ! 4949999 \<le> ?s ! 4994999" by (rule sorted_nth_mono) (simp_all add: len [simplified])
  moreover have "Suc i \<le> length (filter (\<lambda>l. l \<le> ?s ! i) (latencies b))" if "i < 5000000" for i
    using sorted_count [of ?s i] that len by (simp add: sort_count)
  from this [of 2499999] this [of 4949999] this [of 4994999]
  have "5000000 \<le> 2 * length (filter (\<lambda>l. l \<le> ?s ! 2499999) (latencies b))"
    "99 * 5000000 \<le> 100 * length (filter (\<lambda>l. l \<le> ?s ! 4949999) (latencies b))"
    "999 * 5000000 \<le> 1000 * length (filter (\<lambda>l. l \<le> ?s ! 4994999) (latencies b))" by simp_all
  ultimately show ?thesis using pos unfolding TOTAL_ORDERS_def
    by (intro exI [of _ "?s ! 2499999"] exI [of _ "?s ! 4949999"] exI [of _ "?s ! 4994999"]) auto
qed

theorem printed_percentiles_witness:
  "\<exists>b0 b p50 p99 p999. bench_new int 0 int = ret b0 \<and> bench_step\<^sup>*\<^sup>* b0 b \<and> main_pc b = Finished
     \<and> print_results (latencies b) = ret (p50, p99, p999) \<and> p50 \<le> p99 \<and> p99 \<le> p999"
proof -
  have m: "mono int" by (simp add: mono_def)
  obtain b0 r0 where b0: "bench_new int 0 int = ret b0" "bench_inv r0 b0" using bench_starts [OF m] by blast
  obtain r b where b: "bench_step\<^sup>*\<^sup>* b0 b" "main_pc b = Finished" "bench_inv r b"
    using reaches_by_measure [of bench_inv "\<lambda>b. main_pc b = Finished" bench_step, OF _ b0(2)] bench_moves by blast
  from printed_percentiles [OF m b0(1) b(1,2)] b0(1) b(1,2) show ?thesis by blast
qed

end
