(* ===== verification/Market_Feed.thy ===== *)
theory Market_Feed
  imports Order_Book_Example "HOL-Library.Multiset"
begin

text \<open>
  What the market updates mean. A subscriber keeps a map from order identifiers to side, price
  and quantity and applies the updates of \<open>include/cppexchange/messages.h\<close> to it: \<open>ADD\<close> and
  \<open>MODIFY\<close> set an entry, \<open>REMOVE\<close> deletes it, \<open>TRADE\<close> does not concern it. Whenever it has read
  what is in the queue, the map is the content of the book.
\<close>

section \<open>The subscriber\<close>

type_synonym feed = "OrderIdT \<rightharpoonup> OrderSide \<times> PriceT \<times> QuantityT"

definition apply_update :: "MarketUpdate \<Rightarrow> feed \<Rightarrow> feed" where
  "apply_update u V =
     (if mu_type u \<in> {UpdateType_ADD, UpdateType_MODIFY}
      then V(mu_order_id u \<mapsto> (mu_side u, mu_price u, mu_quantity u))
      else if mu_type u = UpdateType_REMOVE then V(mu_order_id u := None) else V)"

text \<open>Readers that keep one state for each key of a message, such as its client or its ticker.\<close>

definition keyed :: "('m \<Rightarrow> 'k) \<Rightarrow> ('m \<Rightarrow> 's \<Rightarrow> 's) \<Rightarrow> 'm \<Rightarrow> ('k \<Rightarrow> 's) \<Rightarrow> 'k \<Rightarrow> 's" where
  "keyed key f m S = S(key m := f m (S (key m)))"

lemma fold_keyed:
  "\<forall>m \<in> set ms. key m = k \<Longrightarrow> fold (keyed key f) ms S = S(k := fold f ms (S k))"
  by (induction ms arbitrary: S) (simp_all add: keyed_def)

text \<open>A read takes up to \<open>n\<close> items from the queue.\<close>

definition read_feed :: "nat \<Rightarrow> BookState \<Rightarrow> feed \<Rightarrow> feed \<times> BookState" where
  "read_feed n s V =
     (case drain pop slot n (market_update_queue s) of
        (us, q) \<Rightarrow> (fold apply_update us V, s\<lparr>market_update_queue := q\<rparr>))"

text \<open>What the subscriber will know when it has read what is in the queue.\<close>

definition after_reading :: "BookState \<Rightarrow> feed \<Rightarrow> feed" where
  "after_reading s V = fold apply_update (contents (market_update_queue s)) V"

definition entry :: "Order \<Rightarrow> OrderSide \<times> PriceT \<times> QuantityT" where
  "entry m = (o_side m, o_limit_price m, o_quantity m)"

definition mirrors :: "feed \<Rightarrow> Order list \<Rightarrow> bool" where
  "mirrors V ms \<longleftrightarrow> distinct (map o_order_id ms) \<and> V = map_of (map (\<lambda>m. (o_order_id m, entry m)) ms)"

lemma mirrors_Nil: "mirrors Map.empty []"
  by (simp add: mirrors_def)

lemma mirrors_Some:
  assumes "mirrors V ms"
  shows "V k = Some e \<longleftrightarrow> (\<exists>m \<in> set ms. o_order_id m = k \<and> entry m = e)"
proof -
  let ?al = "map (\<lambda>m. (o_order_id m, entry m)) ms"
  have "distinct (map fst ?al)" "V = map_of ?al" using assms by (simp_all add: mirrors_def comp_def)
  then show ?thesis by (auto simp: map_of_eq_Some_iff)
qed

lemma mirrors_perm:
  assumes "mirrors V ms" and "mset ms' = mset ms"
  shows "mirrors V ms'"
proof -
  let ?al = "map (\<lambda>m. (o_order_id m, entry m))"
  have "mset (map o_order_id ms') = mset (map o_order_id ms)" using assms(2) by simp
  then have d: "distinct (map o_order_id ms')"
    using assms(1) mset_eq_imp_distinct_iff unfolding mirrors_def by blast
  then have "mirrors (map_of (?al ms')) ms'" by (simp add: mirrors_def)
  moreover have "set ms' = set ms" by (rule mset_eq_setD [OF assms(2)])
  ultimately have same: "map_of (?al ms') k = Some e \<longleftrightarrow> V k = Some e" for k e
    using mirrors_Some [of "map_of (?al ms')" ms' k e] mirrors_Some [OF assms(1), of k e] by simp
  have "map_of (?al ms') k = V k" for k
    using same [of k "the (V k)"] same [of k "the (map_of (?al ms') k)"]
    by (cases "V k"; cases "map_of (?al ms') k") auto
  then have "map_of (?al ms') = V" by (rule ext)
  with d show ?thesis by (simp add: mirrors_def)
qed

lemma mirrors_add: "mirrors V ms \<Longrightarrow> o_order_id m \<notin> o_order_id ` set ms \<Longrightarrow>
    mirrors (V(o_order_id m \<mapsto> entry m)) (m # ms)"
  by (simp add: mirrors_def)

lemma mirrors_remove:
  assumes "mirrors V (m # ms)"
  shows "mirrors (V(o_order_id m := None)) ms"
proof -
  have "map_of (map (\<lambda>m. (o_order_id m, entry m)) ms) (o_order_id m) = None"
    using assms by (auto simp: mirrors_def map_of_eq_None_iff)
  then show ?thesis using assms by (auto simp: mirrors_def fun_eq_iff)
qed

lemma mirrors_modify: "mirrors V (m # ms) \<Longrightarrow> o_order_id m' = o_order_id m \<Longrightarrow>
    mirrors (V(o_order_id m \<mapsto> entry m')) (m' # ms)"
  by (auto simp: mirrors_def fun_eq_iff)

section \<open>The updates of one operation\<close>

lemma entry_filled: "entry (filled q m) = (o_side m, o_limit_price m, o_quantity (filled q m))"
  by (simp add: entry_def)

lemma feed_trade:
  assumes "mirrors V (m # ms)" and "m' = filled q m"
  shows "mirrors (fold apply_update (updates (trade_events clk t tid n fill m')) V)
    (if o_quantity m' = 0 then ms else m' # ms)"
  using assms mirrors_remove [OF assms(1)] mirrors_modify [OF assms(1), of m']
  by (auto simp: trade_events_def apply_update_def MarketUpdate.defs entry_filled)

lemma feed_match:
  assumes "match_spec clk t q tid n ms = (q', tid', ms', evs)" and "mirrors V (ms @ rest)"
  shows "mirrors (fold apply_update (updates evs) V) (ms' @ rest)"
proof -
  have "\<forall>V. mirrors V (ms @ rest) \<longrightarrow> (case match_spec clk t q tid n ms of (q', tid', ms', evs) \<Rightarrow>
      mirrors (fold apply_update (updates evs) V) (ms' @ rest))"
  proof (induction rule: match_spec_induct)
    case (used q tid n m ms q' tid' ms' evs)
    then show ?case using feed_trade [of _ m "ms @ rest" _ q] by fastforce
  next
    case (part q tid n m ms)
    then show ?case using feed_trade [of _ m "ms @ rest" _ q] by fastforce
  qed simp_all
  with assms show ?thesis by simp
qed

lemma match_spec_updates:
  assumes "match_spec clk t q tid n ms = (q', tid', ms', evs)"
  shows "length (updates evs) \<le> 2 * length ms" "length ms' \<le> length ms"
    "o_order_id ` set ms' \<subseteq> o_order_id ` set ms"
proof -
  have "case match_spec clk t q tid n ms of (q', tid', ms', evs) \<Rightarrow>
      length (updates evs) \<le> 2 * length ms \<and> length ms' \<le> length ms \<and> o_order_id ` set ms' \<subseteq> o_order_id ` set ms"
    by (induction rule: match_spec_induct) (auto simp: trade_events_def)
  with assms show "length (updates evs) \<le> 2 * length ms" "length ms' \<le> length ms"
    "o_order_id ` set ms' \<subseteq> o_order_id ` set ms" by simp_all
qed

text \<open>Both sides of a book, and the orders that were announced but entered neither.\<close>

definition announced_orders :: "(bool \<Rightarrow> Order list) \<Rightarrow> Order list \<Rightarrow> Order list" where
  "announced_orders bk hidden = bk True @ bk False @ hidden"

lemma announced_sides: "mset (announced_orders bk hidden) = mset (bk (\<not> b) @ bk b @ hidden)"
  by (cases b) (simp_all add: announced_orders_def)

lemma mset_place: "mset (place b m ms) = add_mset m (mset ms)"
proof -
  have "mset (takeWhile P ms) + mset (dropWhile P ms) = mset ms" for P
    by (metis mset_append takeWhile_dropWhile_id)
  then show ?thesis by (simp add: place_def Let_def)
qed

definition identifiers :: "Order list \<Rightarrow> OrderIdT set" where
  "identifiers ms = o_order_id ` set ms"

lemma identifiers_simps [simp]:
  "identifiers [] = {}" "identifiers (m # ms) = insert (o_order_id m) (identifiers ms)"
  "identifiers (ms @ ms') = identifiers ms \<union> identifiers ms'"
  "identifiers (place b m ms) = insert (o_order_id m) (identifiers ms)"
  by (auto simp: identifiers_def set_place)

lemma sides_perm:
  assumes "mset (bk' (\<not> b) @ bk' b @ hs') = mset ms" and "mirrors V ms"
  shows "mirrors V (announced_orders bk' hs')" "length (announced_orders bk' hs') = length ms"
    "identifiers (announced_orders bk' hs') = identifiers ms"
proof -
  have eq: "mset (announced_orders bk' hs') = mset ms" using assms(1) announced_sides [of bk' hs' b] by simp
  show "mirrors V (announced_orders bk' hs')" by (rule mirrors_perm [OF assms(2) eq])
  show "length (announced_orders bk' hs') = length ms" by (metis eq size_mset)
  show "identifiers (announced_orders bk' hs') = identifiers ms"
    unfolding identifiers_def by (metis eq mset_eq_setD)
qed

text \<open>
  \<open>follows V bk hs evs bk' hs'\<close>: a subscriber whose map mirrors the orders announced before an
  operation mirrors those announced after it once it has applied the updates.
\<close>

definition follows ::
  "feed \<Rightarrow> (bool \<Rightarrow> Order list) \<Rightarrow> Order list \<Rightarrow> event list \<Rightarrow> (bool \<Rightarrow> Order list) \<Rightarrow> Order list \<Rightarrow> nat \<Rightarrow> OrderIdT set
    \<Rightarrow> bool" where
  "follows V bk hs evs bk' hs' k new \<longleftrightarrow>
     mirrors (fold apply_update (updates evs) V) (announced_orders bk' hs')
     \<and> length (announced_orders bk' hs') \<le> k + length (announced_orders bk hs)
     \<and> identifiers (announced_orders bk' hs') \<subseteq> new \<union> identifiers (announced_orders bk hs)
     \<and> length (updates evs) \<le> Suc (2 * length (announced_orders bk hs))"

text \<open>Matching against the other side.\<close>

lemma feed_matched:
  assumes m: "match_spec clk t q tid n (bk (\<not> b)) = (q', tid', ms, evs)" and V: "mirrors V (announced_orders bk hs)"
  shows "mirrors (fold apply_update (updates evs) V) (ms @ bk b @ hs)"
    and "length (ms @ bk b @ hs) \<le> length (announced_orders bk hs)"
    and "identifiers (ms @ bk b @ hs) \<subseteq> identifiers (announced_orders bk hs)"
    and "length (updates evs) \<le> 2 * length (announced_orders bk hs)"
proof -
  have "mirrors V (bk (\<not> b) @ bk b @ hs)" by (rule mirrors_perm [OF V announced_sides [symmetric]])
  from feed_match [OF m this] show "mirrors (fold apply_update (updates evs) V) (ms @ bk b @ hs)" .
  have sub: "identifiers ms \<subseteq> identifiers (bk (\<not> b))" "length ms \<le> length (bk (\<not> b))"
    "length (updates evs) \<le> 2 * length (bk (\<not> b))"
    using match_spec_updates [OF m] by (simp_all add: identifiers_def)
  have "length (announced_orders bk hs) = length (bk (\<not> b)) + length (bk b) + length hs"
    "identifiers (announced_orders bk hs) = identifiers (bk (\<not> b)) \<union> identifiers (bk b) \<union> identifiers hs"
    by (cases b; auto simp: announced_orders_def)+
  with sub show "length (ms @ bk b @ hs) \<le> length (announced_orders bk hs)"
    "identifiers (ms @ bk b @ hs) \<subseteq> identifiers (announced_orders bk hs)"
    "length (updates evs) \<le> 2 * length (announced_orders bk hs)" by auto
qed

text \<open>What is left of an incoming order after matching.\<close>

definition remainder :: "(nat \<Rightarrow> NsTimestampT) \<Rightarrow> Taker \<Rightarrow> nat \<Rightarrow> QuantityT \<Rightarrow> Order list" where
  "remainder clk t n q = (if q = 0 then [] else [rest_of clk t n q])"

lemma entry_rest_of [simp]: "entry (rest_of clk t n q) = (tk_side t, tk_limit t, q)"
  by (simp add: entry_def)

lemma feed_remainder:
  assumes m: "match_spec clk t q tid (Suc n) (bk (\<not> b)) = (q1, tid1, ms1, evs1)" and b: "b = (tk_side t = BUY)"
    and spec: "add_spec shown clk t q tid n bk = (bk', tid', n', evs)"
    and V: "mirrors V (announced_orders bk hs)" and fresh: "tk_order_id t \<notin> identifiers (announced_orders bk hs)"
  shows "mirrors (fold apply_update (updates evs) V) (remainder clk t (Suc n + length evs1) q1 @ ms1 @ bk b @ hs)"
    and "updates evs = updates evs1 @ updates (if q1 = 0 then [] else [added_event clk t (Suc (Suc n + length evs1)) q1])"
proof -
  note matched = feed_matched [OF m V]
  show ups: "updates evs = updates evs1 @ updates (if q1 = 0 then [] else [added_event clk t (Suc (Suc n + length evs1)) q1])"
    using spec by (auto simp: add_spec_eq [where bk = bk, OF m b] accepted_event_def)
  let ?r = "rest_of clk t (Suc n + length evs1) q1"
  have "o_order_id ?r \<notin> identifiers (ms1 @ bk b @ hs)" using fresh matched(3) by auto
  from mirrors_add [OF matched(1) this [unfolded identifiers_def]] matched(1)
  show "mirrors (fold apply_update (updates evs) V) (remainder clk t (Suc n + length evs1) q1 @ ms1 @ bk b @ hs)"
    by (auto simp: ups remainder_def added_event_def apply_update_def MarketUpdate.defs)
qed

text \<open>The orders announced after an addition, up to their order.\<close>

lemma add_spec_announced:
  assumes m: "match_spec clk t q tid (Suc n) (bk (\<not> b)) = (q1, tid1, ms1, evs1)" and b: "b = (tk_side t = BUY)"
    and spec: "add_spec shown clk t q tid n bk = (bk', tid', n', evs)"
  shows "mset (bk' (\<not> b) @ bk' b @ (if shown then hs else remainder clk t (Suc n + length evs1) q1 @ hs))
    = mset (remainder clk t (Suc n + length evs1) q1 @ ms1 @ bk b @ hs)"
  using spec by (auto simp: add_spec_eq [where bk = bk, OF m b] remainder_def mset_place split: if_splits)

lemma feed_add:
  assumes spec: "add_spec shown clk t q tid n bk = (bk', tid', n', evs)"
    and V: "mirrors V (announced_orders bk hs)" and fresh: "tk_order_id t \<notin> identifiers (announced_orders bk hs)"
  shows "follows V bk hs evs bk' (held_back shown clk t q tid n bk @ hs) 1 {tk_order_id t}"
proof -
  define b where "b = (tk_side t = BUY)"
  obtain q1 tid1 ms1 evs1 where m: "match_spec clk t q tid (Suc n) (bk (\<not> b)) = (q1, tid1, ms1, evs1)"
    by (cases "match_spec clk t q tid (Suc n) (bk (\<not> b))") auto
  let ?r = "remainder clk t (Suc n + length evs1) q1"
  note rem = feed_remainder [OF m b_def spec V fresh]
    and p = sides_perm [OF add_spec_announced [OF m b_def spec, of hs] feed_remainder(1) [OF m b_def spec V fresh]]
    and matched = feed_matched [OF m V]
  have "length (?r @ ms1 @ bk b @ hs) \<le> Suc (length (announced_orders bk hs))"
    "identifiers (?r @ ms1 @ bk b @ hs) \<subseteq> insert (tk_order_id t) (identifiers (announced_orders bk hs))"
    "length (updates evs) \<le> Suc (2 * length (announced_orders bk hs))"
    using matched(2-4) by (auto simp: rem(2) remainder_def added_event_def)
  then have "follows V bk hs evs bk' (if shown then hs else ?r @ hs) 1 {tk_order_id t}"
    unfolding follows_def p(2,3) using p(1) by simp
  moreover have "(if shown then hs else ?r @ hs) = held_back shown clk t q tid n bk @ hs"
    using m by (simp add: held_back_def remainder_def b_def)
  ultimately show ?thesis by simp
qed

lemma feed_cancel:
  assumes spec: "cancel_spec clk t n bk = (bk', evs)" and V: "mirrors V (announced_orders bk hs)"
  shows "follows V bk hs evs bk' hs 0 {}"
proof (cases "\<exists>b. \<exists>m \<in> set (bk b). is_order (tk_order_id t) (tk_limit t) m")
  case False
  then have "evs = [Response (ClientResponse.make ResponseType_CANCEL_REJECTED (tk_ticker t) (tk_client_id t)
      (tk_order_id t) Side_INVALID Quantity_INVALID Price_INVALID (clk n))]" "bk' = bk"
    using cancel_spec_reject [of bk t clk n] spec by auto
  then show ?thesis using V by (simp add: follows_def)
next
  case True
  let ?hit = "is_order (tk_order_id t) (tk_limit t)"
  from True obtain b where "\<exists>m \<in> set (bk b). ?hit m" by blast
  from split_list_first_prop [OF this] obtain ms1 m ms2 where
    split: "bk b = ms1 @ m # ms2" "?hit m" "\<forall>y \<in> set ms1. \<not> ?hit y" by blast
  have ids: "distinct (map o_order_id (bk (\<not> b) @ bk b @ hs))"
    using mirrors_perm [OF V announced_sides [symmetric]] unfolding mirrors_def by blast
  have "\<not> ?hit y" if "y \<in> set (bk (\<not> b))" for y
  proof -
    have "o_order_id y \<in> o_order_id ` set (bk (\<not> b))" using that by simp
    then show ?thesis using ids split(1,2) by (auto simp: is_order_def)
  qed
  then have "\<forall>y \<in> set (bk (\<not> b)). \<not> ?hit y" by blast
  note cancel_spec_hit [OF split(1,3,2) this, of clk n]
  then have r: "bk' = bk(b := ms1 @ ms2)" "updates evs = [MarketUpdate.make UpdateType_REMOVE (tk_ticker t)
      (tk_order_id t) TradeId_INVALID (tk_side t) (o_quantity m) (tk_limit t) (clk n)]"
    using spec by auto
  have "mset (announced_orders bk hs) = mset (m # ms1 @ ms2 @ bk (\<not> b) @ hs)"
    using announced_sides [of bk hs b] split(1) by simp
  from mirrors_perm [OF V this [symmetric]] have "mirrors (V(o_order_id m := None)) (ms1 @ ms2 @ bk (\<not> b) @ hs)"
    by (rule mirrors_remove)
  then have V1: "mirrors (fold apply_update (updates evs) V) (ms1 @ ms2 @ bk (\<not> b) @ hs)"
    using split(2) by (simp add: r apply_update_def MarketUpdate.defs is_order_def)
  have "mset (bk' (\<not> b) @ bk' b @ hs) = mset (ms1 @ ms2 @ bk (\<not> b) @ hs)" by (simp add: r)
  note p = sides_perm [OF this V1]
  have "length (announced_orders bk hs) = Suc (length (ms1 @ ms2 @ bk (\<not> b) @ hs))"
    "identifiers (announced_orders bk hs) \<supseteq> identifiers (ms1 @ ms2 @ bk (\<not> b) @ hs)"
    using split(1) by (cases b; auto simp: announced_orders_def)+
  then show ?thesis unfolding follows_def using p by (simp add: r(2))
qed

section \<open>Books that a map is in step with\<close>

text \<open>
  \<open>tracks ids k V s\<close>: the map \<open>V\<close> mirrors the orders that were announced and are still open, at
  most \<open>k\<close> with identifiers from \<open>ids\<close>: those on the two sides, and those in the levels outside the
  chains.
\<close>

definition tracks :: "OrderIdT set \<Rightarrow> nat \<Rightarrow> feed \<Rightarrow> BookState \<Rightarrow> bool" where
  "tracks ids k V s \<longleftrightarrow>
     (\<exists>c f hs. book_ok s c f \<and> mirrors V (announced_orders (resting s c f) hs)
        \<and> length (announced_orders (resting s c f) hs) \<le> k
        \<and> identifiers (announced_orders (resting s c f) hs) \<subseteq> ids \<and> (set hs = off_chain s c f))"

text \<open>Which orders rest depends on the book itself, not on the queues.\<close>

lemma book_ok_book:
  assumes "book_ok s c f" and bk: "book s' = book s"
    and q: "lf_ok (client_response_queue s')" "lf_ok (market_update_queue s')"
  shows "book_ok s' c f" "resting s' = resting s" "off_chain s' = off_chain s"
proof -
  note same = same_book [OF bk]
  have rep: "book_rep s c f" using assms(1) by (simp add: book_ok_def)
  have "book_rep s' c f"
    by (rule book_rep_book [OF rep bk]) (use book_repD(1) [OF rep] bk q in \<open>simp add: infra_def\<close>)
  then show "book_ok s' c f" using assms(1) by (simp add: book_ok_def settled_def same)
  show "resting s' = resting s" "off_chain s' = off_chain s"
    by (simp_all add: fun_eq_iff resting_def off_chain_def orphans_def same)
qed

lemma tracks_frame:
  assumes tr: "tracks ids k V s" and bk: "book s' = book s"
    and q: "lf_ok (client_response_queue s')" "lf_ok (market_update_queue s')"
    and more: "ids \<subseteq> ids'" "k \<le> k'"
  shows "tracks ids' k' V s'"
proof -
  obtain c f hs where ok: "book_ok s c f" and h: "mirrors V (announced_orders (resting s c f) hs)"
    "length (announced_orders (resting s c f) hs) \<le> k" "identifiers (announced_orders (resting s c f) hs) \<subseteq> ids"
    "set hs = off_chain s c f" using tr by (auto simp: tracks_def)
  note same = book_ok_book [OF ok bk q]
  have "book_ok s' c f \<and> mirrors V (announced_orders (resting s' c f) hs)
      \<and> length (announced_orders (resting s' c f) hs) \<le> k' \<and> identifiers (announced_orders (resting s' c f) hs) \<subseteq> ids'
      \<and> set hs = off_chain s' c f"
    using same(1) h more unfolding same(2,3) by auto
  then show ?thesis unfolding tracks_def by blast
qed

text \<open>The result, as the properties state it.\<close>

lemma tracks_mirrors:
  assumes "tracks ids k V s"
  shows "\<exists>c f hidden. book_ok s c f \<and> mirrors V (resting s c f True @ resting s c f False @ hidden)
    \<and> set hidden = off_chain s c f \<and> ((\<forall>i \<in> listed s. on_chain s i) \<longrightarrow> hidden = [])"
proof -
  obtain c f hs where ok: "book_ok s c f" and V: "mirrors V (announced_orders (resting s c f) hs)"
    and h: "set hs = off_chain s c f" using assms by (auto simp: tracks_def)
  have "book_rep s c f" using ok by (simp add: book_ok_def)
  from orphans_off_chain [OF this] have "(\<forall>i \<in> listed s. on_chain s i) \<longrightarrow> hs = []"
    using h off_chain_none [of s c f] by auto
  then show ?thesis using ok V h unfolding announced_orders_def by blast
qed

text \<open>One operation: what was announced before, and the specification's result.\<close>

lemma tracks_add_spec:
  assumes s: "sound P k s" "Suc k < MAX_ORDER_IDS" "lim \<in> P" and tr: "tracks ids k V s" and oid: "oid \<notin> ids"
    and run: "OrderBook_add oid cid side q lim s = ret s1"
  obtains c f hs shown bk' tid' m evs c' f' where
    "book_ok s c f" "mirrors V (announced_orders (resting s c f) hs)"
    "length (announced_orders (resting s c f) hs) \<le> k" "identifiers (announced_orders (resting s c f) hs) \<subseteq> ids"
    "set hs = off_chain s c f"
    "add_spec shown (clock s) (taker s oid cid side lim) q (next_trade_id s) (ticks s) (resting s c f) = (bk', tid', m, evs)"
    "tk_order_id (taker s oid cid side lim) \<notin> identifiers (announced_orders (resting s c f) hs)"
    "book_ok s1 c' f'" "resting s1 c' f' = bk'" "sends s s1 evs"
    "off_chain s1 c' f' = set (held_back shown (clock s) (taker s oid cid side lim) q (next_trade_id s) (ticks s)
       (resting s c f)) \<union> off_chain s c f"
proof -
  obtain c f hs where ok: "book_ok s c f" and V: "mirrors V (announced_orders (resting s c f) hs)"
    and w: "length (announced_orders (resting s c f) hs) \<le> k" "identifiers (announced_orders (resting s c f) hs) \<subseteq> ids"
      "set hs = off_chain s c f" using tr by (auto simp: tracks_def)
  let ?t = "taker s oid cid side lim" and ?shown = "placeable s c (side = BUY) lim"
  obtain bk' tid' m evs where
    spec: "add_spec ?shown (clock s) ?t q (next_trade_id s) (ticks s) (resting s c f) = (bk', tid', m, evs)"
    by (metis prod_cases4)
  from OrderBook_add_refines [OF ok sound_room [OF s] refl refl refl spec] run obtain c' f' where
    "book_ok s1 c' f'" "resting s1 c' f' = bk'" "sends s s1 evs"
    "off_chain s1 c' f' = set (held_back ?shown (clock s) ?t q (next_trade_id s) (ticks s) (resting s c f)) \<union> off_chain s c f"
    by auto
  moreover have "tk_order_id ?t \<notin> identifiers (announced_orders (resting s c f) hs)" using oid w(2) by auto
  ultimately show thesis using that ok V w spec by blast
qed

lemma tracks_cancel_spec:
  assumes tr: "tracks ids k V s" and on: "level_reachable s lim" and run: "OrderBook_cancel cid oid side lim s = ret s1"
  obtains c f hs bk' evs c' f' where
    "book_ok s c f" "mirrors V (announced_orders (resting s c f) hs)"
    "length (announced_orders (resting s c f) hs) \<le> k" "identifiers (announced_orders (resting s c f) hs) \<subseteq> ids"
    "set hs = off_chain s c f"
    "cancel_spec (clock s) (taker s oid cid side lim) (ticks s) (resting s c f) = (bk', evs)"
    "book_ok s1 c' f'" "resting s1 c' f' = bk'" "sends s s1 evs" "off_chain s1 c' f' = off_chain s c f"
proof -
  obtain c f hs where ok: "book_ok s c f" and V: "mirrors V (announced_orders (resting s c f) hs)"
    and w: "length (announced_orders (resting s c f) hs) \<le> k" "identifiers (announced_orders (resting s c f) hs) \<subseteq> ids"
      "set hs = off_chain s c f" using tr by (auto simp: tracks_def)
  obtain bk' evs where spec: "cancel_spec (clock s) (taker s oid cid side lim) (ticks s) (resting s c f) = (bk', evs)"
    by (metis prod.exhaust)
  from OrderBook_cancel_refines [OF ok refl off_chain_prices [OF ok on], of oid cid side] run spec obtain c' f' where
    "book_ok s1 c' f'" "resting s1 c' f' = bk'" "sends s s1 evs" "off_chain s1 c' f' = off_chain s c f"
    by (auto simp: cancelled_def)
  then show thesis using that ok V w spec by blast
qed

text \<open>The updates of an operation take the map along.\<close>

lemma follows_tracks:
  assumes "book_ok s1 c' f'" and "follows V (resting s c f) hs evs (resting s1 c' f') hs' d new"
    and "length (announced_orders (resting s c f) hs) \<le> k" and "identifiers (announced_orders (resting s c f) hs) \<subseteq> ids"
    and "set hs' = off_chain s1 c' f'"
  shows "tracks (new \<union> ids) (d + k) (fold apply_update (updates evs) V) s1"
  unfolding tracks_def
proof (intro exI conjI)
  show "length (announced_orders (resting s1 c' f') hs') \<le> d + k"
    "identifiers (announced_orders (resting s1 c' f') hs') \<subseteq> new \<union> ids"
    using assms(2-4) unfolding follows_def by auto
qed (use assms in \<open>simp_all add: follows_def\<close>)

lemma tracks_added:
  assumes spec: "add_spec shown clk t q tid n (resting s c f) = (bk', tid', m, evs)"
    and h: "mirrors V (announced_orders (resting s c f) hs)" "length (announced_orders (resting s c f) hs) \<le> k"
      "identifiers (announced_orders (resting s c f) hs) \<subseteq> ids" "set hs = off_chain s c f"
      "tk_order_id t \<notin> identifiers (announced_orders (resting s c f) hs)"
    and ok': "book_ok s1 c' f'" "resting s1 c' f' = bk'"
      "off_chain s1 c' f' = set (held_back shown clk t q tid n (resting s c f)) \<union> off_chain s c f"
  shows "tracks (insert (tk_order_id t) ids) (Suc k) (fold apply_update (updates evs) V) s1"
    "length (updates evs) \<le> Suc (2 * k)"
proof -
  let ?hs = "held_back shown clk t q tid n (resting s c f) @ hs"
  have fl: "follows V (resting s c f) hs evs (resting s1 c' f') ?hs 1 {tk_order_id t}"
    unfolding ok'(2) by (rule feed_add [OF spec h(1,5)])
  have "set ?hs = off_chain s1 c' f'" using ok'(3) h(4) by simp
  from follows_tracks [OF ok'(1) fl h(2,3) this]
  show "tracks (insert (tk_order_id t) ids) (Suc k) (fold apply_update (updates evs) V) s1" by simp
  show "length (updates evs) \<le> Suc (2 * k)" using fl h(2) by (simp add: follows_def)
qed

lemma tracks_cancelled:
  assumes spec: "cancel_spec clk t n (resting s c f) = (bk', evs)"
    and h: "mirrors V (announced_orders (resting s c f) hs)" "length (announced_orders (resting s c f) hs) \<le> k"
      "identifiers (announced_orders (resting s c f) hs) \<subseteq> ids" "set hs = off_chain s c f"
    and ok': "book_ok s1 c' f'" "resting s1 c' f' = bk'" "off_chain s1 c' f' = off_chain s c f"
  shows "tracks ids k (fold apply_update (updates evs) V) s1" "length (updates evs) \<le> 1"
proof -
  have "follows V (resting s c f) hs evs (resting s1 c' f') hs 0 {}"
    unfolding ok'(2) by (rule feed_cancel [OF spec h(1)])
  from follows_tracks [OF ok'(1) this h(2,3)] h(4) ok'(3)
  show "tracks ids k (fold apply_update (updates evs) V) s1" by simp
  show "length (updates evs) \<le> 1" using spec by (auto simp: cancel_spec_def Let_def split: option.splits)
qed

section \<open>Histories that a subscriber follows\<close>

text \<open>
  The subscriber reads at any time and as much as it likes, and so does the reader of the client
  responses, who may change the other queue; an operation finds room for its messages. New orders
  bring identifiers that were not used before (\<open>ids\<close>), as the exchange assigns them.
\<close>

definition has_place :: "nat \<Rightarrow> 'a LFQueue \<Rightarrow> bool" where
  "has_place n q \<longleftrightarrow> length (contents q) + n \<le> room q"

inductive followed :: "PriceT set \<Rightarrow> BookState \<Rightarrow> OrderIdT set \<Rightarrow> nat \<Rightarrow> feed \<Rightarrow> BookState \<Rightarrow> bool" for P s0 where
  start: "followed P s0 {} 0 Map.empty s0"
| add: "followed P s0 ids k V s \<Longrightarrow> oid \<notin> ids \<Longrightarrow> lim \<in> P \<Longrightarrow> has_place (Suc (2 * k)) (market_update_queue s) \<Longrightarrow>
    OrderBook_add oid cid side q lim s = ret s' \<Longrightarrow> followed P s0 (insert oid ids) (Suc k) V s'"
| cancel: "followed P s0 ids k V s \<Longrightarrow> level_reachable s lim \<Longrightarrow> has_place 1 (market_update_queue s) \<Longrightarrow>
    OrderBook_cancel cid oid side lim s = ret s' \<Longrightarrow> followed P s0 ids k V s'"
| read: "followed P s0 ids k V s \<Longrightarrow> read_feed n s V = (V', s') \<Longrightarrow> followed P s0 ids k V' s'"
| relay: "followed P s0 ids k V s \<Longrightarrow> lf_ok rq \<Longrightarrow> followed P s0 ids k V (s\<lparr>client_response_queue := rq\<rparr>)"

text \<open>What is sent comes behind what is in the queue.\<close>

lemma contents_sent:
  assumes "lf_ok q" and "has_place n q" and "length xs \<le> n"
  shows "contents (fold push_slot xs q) = contents q @ xs"
  using contents_fold_push [OF assms(1), of xs] assms(2,3) by (simp add: has_place_def)

lemma add_tracks:
  assumes s: "sound P k s" "Suc k < MAX_ORDER_IDS" "lim \<in> P" and tr: "tracks ids k V s" and oid: "oid \<notin> ids"
    and run: "OrderBook_add oid cid side q lim s = ret s1"
  shows "\<exists>evs. sends s s1 evs \<and> length (updates evs) \<le> Suc (2 * k)
    \<and> tracks (insert oid ids) (Suc k) (fold apply_update (updates evs) V) s1"
proof (rule tracks_add_spec [OF s tr oid run])
  let ?t = "taker s oid cid side lim"
  fix c f hs shown bk' tid' m evs c' f'
  assume h: "mirrors V (announced_orders (resting s c f) hs)" "length (announced_orders (resting s c f) hs) \<le> k"
      "identifiers (announced_orders (resting s c f) hs) \<subseteq> ids" "set hs = off_chain s c f"
      "tk_order_id ?t \<notin> identifiers (announced_orders (resting s c f) hs)"
    and spec: "add_spec shown (clock s) ?t q (next_trade_id s) (ticks s) (resting s c f) = (bk', tid', m, evs)"
    and ok': "book_ok s1 c' f'" "resting s1 c' f' = bk'"
      "off_chain s1 c' f' = set (held_back shown (clock s) ?t q (next_trade_id s) (ticks s) (resting s c f)) \<union> off_chain s c f" and sent: "sends s s1 evs"
  then show ?thesis using tracks_added [OF spec h ok'] by auto
qed

lemma cancel_tracks:
  assumes tr: "tracks ids k V s" and on: "level_reachable s lim" and run: "OrderBook_cancel cid oid side lim s = ret s1"
  shows "\<exists>evs. sends s s1 evs \<and> length (updates evs) \<le> 1 \<and> tracks ids k (fold apply_update (updates evs) V) s1"
proof (rule tracks_cancel_spec [OF tr on run])
  fix c f hs bk' evs c' f'
  assume h: "mirrors V (announced_orders (resting s c f) hs)" "length (announced_orders (resting s c f) hs) \<le> k"
      "identifiers (announced_orders (resting s c f) hs) \<subseteq> ids" "set hs = off_chain s c f"
    and spec: "cancel_spec (clock s) (taker s oid cid side lim) (ticks s) (resting s c f) = (bk', evs)"
    and ok': "book_ok s1 c' f'" "resting s1 c' f' = bk'" "off_chain s1 c' f' = off_chain s c f" and sent: "sends s s1 evs"
  then show ?thesis using tracks_cancelled [OF spec h ok'] by blast
qed

lemma after_reading_sent:
  assumes "sends s s1 evs" and "lf_ok (market_update_queue s)" and "has_place n (market_update_queue s)"
    and "length (updates evs) \<le> n"
  shows "after_reading s1 V = fold apply_update (updates evs) (after_reading s V)"
  using assms(1) contents_sent [OF assms(2-4)] by (simp add: after_reading_def sends_def)

text \<open>A read moves messages from the queue to the map.\<close>

lemma drain_fold:
  assumes "lf_ok q" and "drain pop slot n q = (xs, q')"
  shows "lf_ok q' \<and> fold f (contents q') (fold f xs V) = fold f (contents q) V"
proof -
  have "xs = take n (contents q)" "lf_ok q'" "contents q' = drop n (contents q)"
    using lfq.drain_effect [OF assms(1), of n] assms(2) by auto
  then show ?thesis by (metis append_take_drop_id comp_apply fold_append)
qed

lemma read_feed_keeps:
  assumes s: "sound P k s" and read: "read_feed n s V = (V', s')"
  shows "sound P k s'" "book s' = book s" "after_reading s' V' = after_reading s V"
    "lf_ok (market_update_queue s')" "client_response_queue s' = client_response_queue s"
proof -
  obtain us q where q: "drain pop slot n (market_update_queue s) = (us, q)" by (metis prod.exhaust)
  then have s': "V' = fold apply_update us V" "s' = s\<lparr>market_update_queue := q\<rparr>" using read by (simp_all add: read_feed_def)
  have "lf_ok (market_update_queue s)" using sound_queues [OF s] by simp
  from drain_fold [OF this q, of apply_update V] have d: "lf_ok q"
    "fold apply_update (contents q) V' = fold apply_update (contents (market_update_queue s)) V" by (simp_all add: s'(1))
  show "book s' = book s" "lf_ok (market_update_queue s')" "client_response_queue s' = client_response_queue s"
    "after_reading s' V' = after_reading s V" using d s'(2) by (simp_all add: after_reading_def)
  show "sound P k s'" using sound_book [OF s, of s'] sound_queues [OF s] d(1) s'(2) by simp
qed

lemma followed_sound:
  assumes "followed P s0 ids k V s" and "sound P 0 s0" and "tracks {} 0 (after_reading s0 Map.empty) s0"
    and "k < MAX_ORDER_IDS"
  shows "sound P k s \<and> tracks ids k (after_reading s V) s"
  using assms
proof (induction)
  case start
  then show ?case by simp
next
  case (add ids k V s oid lim cid side q s')
  then have IH: "sound P k s" "tracks ids k (after_reading s V) s" and k: "Suc k < MAX_ORDER_IDS" by simp_all
  have "sound P (Suc k) s'" using add_sound [OF IH(1) k add.hyps(3), of oid cid side q] add.hyps(5) by auto
  moreover obtain evs where "sends s s' evs" "length (updates evs) \<le> Suc (2 * k)"
    "tracks (insert oid ids) (Suc k) (fold apply_update (updates evs) (after_reading s V)) s'"
    using add_tracks [OF IH(1) k add.hyps(3) IH(2) add.hyps(2,5)] by blast
  ultimately show ?case using after_reading_sent [OF _ _ add.hyps(4)] sound_queues [OF IH(1)] by metis
next
  case (cancel ids k V s lim cid oid side s')
  then have IH: "sound P k s" "tracks ids k (after_reading s V) s" by simp_all
  have "sound P k s'" using cancel_sound [OF IH(1) cancel.hyps(2), of cid oid side] cancel.hyps(4) by auto
  moreover obtain evs where "sends s s' evs" "length (updates evs) \<le> 1"
    "tracks ids k (fold apply_update (updates evs) (after_reading s V)) s'"
    using cancel_tracks [OF IH(2) cancel.hyps(2,4)] by blast
  ultimately show ?case using after_reading_sent [OF _ _ cancel.hyps(3)] sound_queues [OF IH(1)] by metis
next
  case (read ids k V s n V' s')
  then have IH: "sound P k s" "tracks ids k (after_reading s V) s" by simp_all
  note r = read_feed_keeps [OF IH(1) read.hyps(2)]
  show ?case
    using tracks_frame [OF IH(2) r(2), of ids k] r(1,3-5) sound_queues [OF IH(1)] by simp
next
  case (relay ids k V s rq)
  then have IH: "sound P k s" "tracks ids k (after_reading s V) s" by simp_all
  let ?s = "s\<lparr>client_response_queue := rq\<rparr>"
  have "after_reading ?s V = after_reading s V" by (simp add: after_reading_def)
  then show ?case
    using tracks_frame [OF IH(2), of ?s ids k] sound_book [OF IH(1), of ?s] relay.hyps(2) sound_queues [OF IH(1)] by simp
qed

lemma tracks_opened:
  assumes "lf_ok rq" and "lf_ok uq"
  shows "tracks {} 0 Map.empty (opened ticker rq uq tid clk n)"
proof -
  let ?s = "opened ticker rq uq tid clk n"
  have "book_ok ?s (\<lambda>_. []) (\<lambda>_. [])" by (rule opened_ok [OF assms])
  moreover have "announced_orders (resting ?s (\<lambda>_. []) (\<lambda>_. [])) [] = []"
    by (simp add: announced_orders_def resting_def)
  moreover have "off_chain ?s (\<lambda>_. []) (\<lambda>_. []) = {}" by (simp add: off_chain_def)
  ultimately show ?thesis using mirrors_Nil unfolding tracks_def
    by (intro exI [of _ "\<lambda>_. []"] exI [of _ "[]"]) simp
qed

lemma opened_queues [simp]:
  "market_update_queue (opened ticker rq uq tid clk n) = uq"
  "client_response_queue (opened ticker rq uq tid clk n) = rq"
  by (simp_all add: opened_def)

section \<open>The property\<close>

text \<open>
  C13. The market updates are a faithful record of the book. A subscriber starts with an empty map
  and reads the queue at any time and in any portions during a history of additions with new
  identifiers, at prices that the pool of levels can hold, and of cancellations at prices whose
  level, if there is one, is on a chain; the operations find room for their messages and the
  additions are fewer than the blocks of the pool of orders. Once it has applied what is left in
  the queue, it holds side, price and quantity of exactly these orders: those on the two sides of
  the book, and those in the levels that the book keeps outside its chains, of which there are
  none if all levels are on a chain.
\<close>

theorem feed_mirrors_book:
  assumes "lf_ok rq" and "lf_ok uq" and "contents uq = []" and "few_prices P"
    and "followed P (opened ticker rq uq tid clk n) ids k V s" and "k < MAX_ORDER_IDS"
  shows "\<exists>c f hidden. book_ok s c f
    \<and> mirrors (fold apply_update (contents (market_update_queue s)) V)
        (resting s c f True @ resting s c f False @ hidden)
    \<and> set hidden = off_chain s c f \<and> ((\<forall>i \<in> listed s. on_chain s i) \<longrightarrow> hidden = [])"
proof -
  let ?s0 = "opened ticker rq uq tid clk n"
  have "tracks {} 0 (after_reading ?s0 Map.empty) ?s0"
    using tracks_opened [OF assms(1,2)] assms(3) by (simp add: after_reading_def)
  from followed_sound [OF assms(5) sound_opened [OF assms(1,2,4)] this assms(6)] show ?thesis
    using tracks_mirrors unfolding after_reading_def by blast
qed

lemma small_followed: "\<exists>s. followed {100} (opened 0 small_rq small_uq 1 int 0) {1} 1 Map.empty s"
proof -
  let ?s = "opened 0 small_rq small_uq 1 int 0" and ?P = "{100} :: PriceT set"
  have "sound ?P 0 ?s" by (rule sound_opened [OF small_queues]) (simp add: few_prices_def constants)
  then obtain s where "OrderBook_add 1 7 BUY 10 100 ?s = ret s"
    using add_sound [of ?P 0 ?s 100 1 7 BUY 10] by (auto simp: constants)
  then have "followed ?P ?s {1} (Suc 0) Map.empty s"
    using followed.add [OF followed.start, of 1 100 ?P ?s] by (simp add: has_place_def room_def)
  then show ?thesis by auto
qed

theorem feed_mirrors_book_witness:
  "\<exists>s. followed {100} (opened 0 small_rq small_uq 1 int 0) {1} 1 Map.empty s
     \<and> (\<exists>c f hidden. book_ok s c f
          \<and> mirrors (fold apply_update (contents (market_update_queue s)) Map.empty)
              (resting s c f True @ resting s c f False @ hidden)
          \<and> set hidden = off_chain s c f \<and> ((\<forall>i \<in> listed s. on_chain s i) \<longrightarrow> hidden = []))"
proof -
  obtain s where f: "followed {100} (opened 0 small_rq small_uq 1 int 0) {1} 1 Map.empty s" using small_followed by blast
  have "\<exists>c f hidden. book_ok s c f
      \<and> mirrors (fold apply_update (contents (market_update_queue s)) Map.empty)
          (resting s c f True @ resting s c f False @ hidden)
      \<and> set hidden = off_chain s c f \<and> ((\<forall>i \<in> listed s. on_chain s i) \<longrightarrow> hidden = [])"
    by (rule feed_mirrors_book [OF small_queues _ _ f]) (simp_all add: few_prices_def constants)
  with f show ?thesis by blast
qed

end
