(* ===== verification/Client_Ledger.thy ===== *)
theory Client_Ledger
  imports Market_Feed
begin

text \<open>
  What the client responses mean. Every client keeps a ledger of its open orders from the
  responses addressed to it: \<open>ACCEPTED\<close> opens an entry, \<open>FILLED\<close> takes the filled quantity
  from it, \<open>CANCELED\<close> closes it. The ledgers together hold what the public market updates say,
  divided by owner, as long as orders are cancelled by the client that added them; the last
  section shows that the book does not check this.
\<close>

section \<open>The ledgers\<close>

definition book_response :: "ClientResponse \<Rightarrow> feed \<Rightarrow> feed" where
  "book_response r L =
     (if rs_type r = ResponseType_ACCEPTED then
        if rs_quantity r = 0 then L else L(rs_order_id r \<mapsto> (rs_side r, rs_price r, rs_quantity r))
      else if rs_type r = ResponseType_FILLED then
        case L (rs_order_id r) of
          None \<Rightarrow> L
        | Some (side, lim, x) \<Rightarrow>
            if x - rs_quantity r = 0 then L(rs_order_id r := None)
            else L(rs_order_id r \<mapsto> (side, lim, x - rs_quantity r))
      else if rs_type r = ResponseType_CANCELED then L(rs_order_id r := None) else L)"

type_synonym ledgers = "ClientIdT \<Rightarrow> feed"

definition deliver :: "ClientResponse \<Rightarrow> ledgers \<Rightarrow> ledgers" where
  "deliver = keyed rs_client_id book_response"

definition read_responses :: "nat \<Rightarrow> BookState \<Rightarrow> ledgers \<Rightarrow> ledgers \<times> BookState" where
  "read_responses n s L =
     (case drain pop slot n (client_response_queue s) of
        (rs, q) \<Rightarrow> (fold deliver rs L, s\<lparr>client_response_queue := q\<rparr>))"

definition after_receiving :: "BookState \<Rightarrow> ledgers \<Rightarrow> ledgers" where
  "after_receiving s L = fold deliver (contents (client_response_queue s)) L"

text \<open>A map divided by the owners of its identifiers.\<close>

definition divided :: "(OrderIdT \<Rightarrow> ClientIdT) \<Rightarrow> feed \<Rightarrow> ledgers" where
  "divided owner V = (\<lambda>c. V |` {oid. owner oid = c})"

lemma deliver_divided:
  assumes "rs_client_id r = owner (rs_order_id r)"
  shows "deliver r (divided owner V) = divided owner (book_response r V)"
  using assms
  by (auto simp: deliver_def keyed_def divided_def book_response_def fun_eq_iff restrict_map_def split: option.splits)

lemma fold_deliver_divided:
  "\<forall>r \<in> set rs. rs_client_id r = owner (rs_order_id r) \<Longrightarrow>
     fold deliver rs (divided owner V) = divided owner (fold book_response rs V)"
  by (induction rs arbitrary: V) (simp_all add: deliver_divided)

section \<open>One ledger of all clients follows the book\<close>

lemma book_fill:
  assumes "mirrors L (m # ms)" and "rs_type r = ResponseType_FILLED" and "rs_order_id r = o_order_id m"
    and "m' = m\<lparr>o_quantity := o_quantity m - rs_quantity r\<rparr>"
  shows "mirrors (book_response r L) (if o_quantity m' = 0 then ms else m' # ms)"
proof -
  have "L (o_order_id m) = Some (entry m)" using mirrors_Some [OF assms(1)] by auto
  then show ?thesis
    using assms(2-4) mirrors_remove [OF assms(1)] mirrors_modify [OF assms(1), of m']
    by (auto simp: book_response_def entry_def)
qed

lemma mirrors_swap: "mirrors L (x # y # zs) \<longleftrightarrow> mirrors L (y # x # zs)"
  by (auto intro: mirrors_perm)

text \<open>The two fills of one trade: first the resting order, then the incoming one.\<close>

lemma book_trade:
  assumes L: "mirrors L (remainder clk t k q @ m # ms)" and "q \<noteq> 0" and m': "m' = filled q m"
    and fill: "fill = min q (o_quantity m)"
  shows "mirrors (fold book_response (responses (trade_events clk' t tid n fill m')) L)
    (remainder clk t k (q - fill) @ (if o_quantity m' = 0 then ms else m' # ms))"
proof -
  let ?R = "rest_of clk t k q" and ?ms = "if o_quantity m' = 0 then ms else m' # ms"
  let ?r1 = "ClientResponse.make ResponseType_FILLED (tk_ticker t) (o_client_id m') (o_order_id m') (o_side m')
      fill (o_limit_price m') (clk' (n + 2))"
  let ?r2 = "ClientResponse.make ResponseType_FILLED (tk_ticker t) (tk_client_id t) (tk_order_id t) (tk_side t)
      fill (o_limit_price m') (clk' (n + 3))"
  have types: "rs_type ?r1 = ResponseType_FILLED" "rs_order_id ?r1 = o_order_id m"
    "rs_type ?r2 = ResponseType_FILLED" "rs_order_id ?r2 = o_order_id ?R"
    and left: "m' = m\<lparr>o_quantity := o_quantity m - rs_quantity ?r1\<rparr>"
      "rest_of clk t k (q - fill) = ?R\<lparr>o_quantity := o_quantity ?R - rs_quantity ?r2\<rparr>"
    by (simp_all add: ClientResponse.defs m' fill filled_def rest_of_def Order_new_def)
  have "mirrors L (m # ?R # ms)" using L assms(2) mirrors_swap by (simp add: remainder_def)
  from book_fill [OF this types(1,2) left(1)] mirrors_swap [of _ m' ?R ms]
  have "mirrors (book_response ?r1 L) (?R # ?ms)" by (cases "o_quantity m' = 0") auto
  from book_fill [OF this types(3,4) left(2)]
  have "mirrors (book_response ?r2 (book_response ?r1 L)) (remainder clk t k (q - fill) @ ?ms)"
    unfolding remainder_def rest_of_simps by (cases "q - fill = 0") simp_all
  then show ?thesis by (simp add: trade_events_def)
qed

lemma book_match:
  assumes "match_spec clk t q tid n ms = (q', tid', ms', evs)" and "mirrors L (remainder clk t k q @ ms @ rest)"
  shows "mirrors (fold book_response (responses evs) L) (remainder clk t k q' @ ms' @ rest)"
proof -
  have "\<forall>L. mirrors L (remainder clk t k q @ ms @ rest) \<longrightarrow>
    (case match_spec clk t q tid n ms of (q', tid', ms', evs) \<Rightarrow>
      mirrors (fold book_response (responses evs) L) (remainder clk t k q' @ ms' @ rest))"
  proof (induction rule: match_spec_induct)
    case (used q tid n m ms q' tid' ms' evs)
    then show ?case using book_trade [of _ clk t k q m "ms @ rest", OF _ used(1) refl refl] by simp
  next
    case (part q tid n m ms)
    then show ?case using book_trade [of _ clk t k q m "ms @ rest", OF _ part(1) refl refl] by simp
  qed simp_all
  with assms show ?thesis by simp
qed

lemma mirrors_same:
  assumes "mirrors V ms" and "mirrors V' ms'" and "mset ms = mset ms'"
  shows "V = V'"
  using mirrors_perm [OF assms(1), of ms'] assms(2,3) by (simp add: mirrors_def)

lemma length_responses:
  assumes "match_spec clk t q tid n ms = (q', tid', ms', evs)"
  shows "length (responses evs) \<le> 2 * length ms"
proof -
  have "case match_spec clk t q tid n ms of (q', tid', ms', evs) \<Rightarrow> length (responses evs) \<le> 2 * length ms"
    by (induction rule: match_spec_induct) (auto simp: trade_events_def)
  with assms show ?thesis by simp
qed

section \<open>One operation\<close>

lemma add_streams_agree:
  assumes spec: "add_spec shown clk t q tid n bk = (bk', tid', n', evs)"
    and V: "mirrors V (announced_orders bk hs)" and fresh: "tk_order_id t \<notin> identifiers (announced_orders bk hs)"
  shows "fold book_response (responses evs) V = fold apply_update (updates evs) V"
    "length (responses evs) \<le> Suc (2 * length (announced_orders bk hs))"
proof -
  define b where "b = (tk_side t = BUY)"
  obtain q1 tid1 ms1 evs1 where m: "match_spec clk t q tid (Suc n) (bk (\<not> b)) = (q1, tid1, ms1, evs1)"
    by (cases "match_spec clk t q tid (Suc n) (bk (\<not> b))") auto
  let ?k = "Suc n + length evs1" and ?old = "bk (\<not> b) @ bk b @ hs"
  obtain a where a: "accepted_event clk t n q = Response a" "rs_type a = ResponseType_ACCEPTED"
    "rs_order_id a = tk_order_id t" "rs_side a = tk_side t" "rs_quantity a = q" "rs_price a = tk_limit t"
    by (simp add: accepted_event_def ClientResponse.defs)
  have rs: "responses evs = a # responses evs1"
    using spec by (auto simp: add_spec_eq [where bk = bk, OF m b_def] a(1) added_event_def split: if_splits)
  have old: "mirrors V ?old" by (rule mirrors_perm [OF V announced_sides [symmetric]])
  have "o_order_id (rest_of clk t ?k q) \<notin> o_order_id ` set ?old"
    using fresh by (cases b) (auto simp: identifiers_def announced_orders_def)
  from mirrors_add [OF old this] old have "mirrors (book_response a V) (remainder clk t ?k q @ ?old)"
    by (simp add: book_response_def a remainder_def)
  from book_match [OF m this] have "mirrors (fold book_response (responses evs) V)
      (remainder clk t ?k q1 @ ms1 @ bk b @ hs)" by (simp add: rs)
  from mirrors_same [OF this feed_remainder(1) [OF m b_def spec V fresh] refl]
  show "fold book_response (responses evs) V = fold apply_update (updates evs) V" .
  have "length (bk (\<not> b)) \<le> length (announced_orders bk hs)" by (cases b) (simp_all add: announced_orders_def)
  then show "length (responses evs) \<le> Suc (2 * length (announced_orders bk hs))"
    using length_responses [OF m] by (simp add: rs)
qed

lemma cancel_streams_agree:
  assumes "cancel_spec clk t n bk = (bk', evs)"
  shows "fold book_response (responses evs) V = fold apply_update (updates evs) V" "length (responses evs) = 1"
  using assms
  by (auto simp: cancel_spec_def Let_def book_response_def apply_update_def ClientResponse.defs
      MarketUpdate.defs split: option.splits)

text \<open>Every resting order belongs to the owner of its identifier.\<close>

definition owned :: "(OrderIdT \<Rightarrow> ClientIdT) \<Rightarrow> (bool \<Rightarrow> Order list) \<Rightarrow> bool" where
  "owned owner bk \<longleftrightarrow> (\<forall>b. \<forall>m \<in> set (bk b). o_client_id m = owner (o_order_id m))"

lemma owned_sub: "(\<And>b. set (bk' b) \<subseteq> set (bk b)) \<Longrightarrow> owned owner bk \<Longrightarrow> owned owner bk'"
  unfolding owned_def by blast

lemma cancel_spec_sub: "cancel_spec clk t n bk = (bk', evs) \<Longrightarrow> set (bk' b) \<subseteq> set (bk b)"
  using set_drop_first [of "is_order (tk_order_id t) (tk_limit t)" "bk b"]
  by (auto simp: cancel_spec_def Let_def split: option.splits)

lemma match_owned:
  assumes "match_spec clk t q tid n ms = (q', tid', ms', evs)"
    and "\<forall>m \<in> set ms. o_client_id m = owner (o_order_id m)" and "tk_client_id t = owner (tk_order_id t)"
  shows "\<forall>m \<in> set ms'. o_client_id m = owner (o_order_id m)"
    "\<forall>r \<in> set (responses evs). rs_client_id r = owner (rs_order_id r)"
proof -
  have "(\<forall>m \<in> set ms. o_client_id m = owner (o_order_id m)) \<longrightarrow>
    (case match_spec clk t q tid n ms of (q', tid', ms', evs) \<Rightarrow>
      (\<forall>m \<in> set ms'. o_client_id m = owner (o_order_id m))
      \<and> (\<forall>r \<in> set (responses evs). rs_client_id r = owner (rs_order_id r)))"
    by (induction rule: match_spec_induct) (auto simp: trade_events_def ClientResponse.defs assms(3))
  with assms show "\<forall>m \<in> set ms'. o_client_id m = owner (o_order_id m)"
    "\<forall>r \<in> set (responses evs). rs_client_id r = owner (rs_order_id r)" by simp_all
qed

lemma add_owned:
  assumes spec: "add_spec shown clk t q tid n bk = (bk', tid', n', evs)" and own: "owned owner bk"
    and t: "tk_client_id t = owner (tk_order_id t)"
  shows "owned owner bk'" "\<forall>r \<in> set (responses evs). rs_client_id r = owner (rs_order_id r)"
proof -
  define b where "b = (tk_side t = BUY)"
  obtain q1 tid1 ms1 evs1 where m: "match_spec clk t q tid (Suc n) (bk (\<not> b)) = (q1, tid1, ms1, evs1)"
    by (cases "match_spec clk t q tid (Suc n) (bk (\<not> b))") auto
  have "\<forall>m \<in> set (bk (\<not> b)). o_client_id m = owner (o_order_id m)" using own by (auto simp: owned_def)
  note mo = match_owned [OF m this t]
  show "owned owner bk'"
    using spec own mo(1) t by (auto simp: add_spec_eq [where bk = bk, OF m b_def] owned_def set_place split: if_splits)
  show "\<forall>r \<in> set (responses evs). rs_client_id r = owner (rs_order_id r)"
    using spec mo(2) t by (auto simp: add_spec_eq [where bk = bk, OF m b_def] accepted_event_def added_event_def
        ClientResponse.defs split: if_splits)
qed

lemma cancel_owned:
  assumes spec: "cancel_spec clk t n bk = (bk', evs)" and own: "owned owner bk"
    and t: "tk_client_id t = owner (tk_order_id t)"
  shows "owned owner bk'" "\<forall>r \<in> set (responses evs). rs_client_id r = owner (rs_order_id r)"
proof -
  show "owned owner bk'"
    using own by (rule cancel_spec_sub [OF spec, THEN owned_sub])
  show "\<forall>r \<in> set (responses evs). rs_client_id r = owner (rs_order_id r)"
    using spec t by (auto simp: cancel_spec_def Let_def ClientResponse.defs split: option.splits)
qed

text \<open>All messages of an operation carry the ticker of the book, and there are at most \<open>n\<close> of each kind.\<close>

definition messages_of :: "TickerIdT \<Rightarrow> nat \<Rightarrow> event list \<Rightarrow> bool" where
  "messages_of t n evs \<longleftrightarrow>
     (\<forall>u \<in> set (updates evs). mu_ticker_id u = t) \<and> (\<forall>r \<in> set (responses evs). rs_ticker_id r = t)
     \<and> length (updates evs) \<le> n \<and> length (responses evs) \<le> n"

lemma match_spec_ticker:
  assumes "match_spec clk t q tid n ms = (q', tid', ms', evs)"
  shows "(\<forall>u \<in> set (updates evs). mu_ticker_id u = tk_ticker t) \<and> (\<forall>r \<in> set (responses evs). rs_ticker_id r = tk_ticker t)"
proof -
  have "case match_spec clk t q tid n ms of (q', tid', ms', evs) \<Rightarrow>
      (\<forall>u \<in> set (updates evs). mu_ticker_id u = tk_ticker t) \<and> (\<forall>r \<in> set (responses evs). rs_ticker_id r = tk_ticker t)"
    by (induction rule: match_spec_induct) (auto simp: trade_events_def ClientResponse.defs MarketUpdate.defs)
  with assms show ?thesis by simp
qed

lemma add_spec_ticker:
  assumes spec: "add_spec shown clk t q tid n bk = (bk', tid', n', evs)"
  shows "(\<forall>u \<in> set (updates evs). mu_ticker_id u = tk_ticker t) \<and> (\<forall>r \<in> set (responses evs). rs_ticker_id r = tk_ticker t)"
proof -
  define b where "b = (tk_side t = BUY)"
  obtain q1 tid1 ms1 evs1 where m: "match_spec clk t q tid (Suc n) (bk (\<not> b)) = (q1, tid1, ms1, evs1)"
    by (cases "match_spec clk t q tid (Suc n) (bk (\<not> b))") auto
  show ?thesis
    using spec match_spec_ticker [OF m]
    by (auto simp: add_spec_eq [where bk = bk, OF m b_def] accepted_event_def added_event_def
        ClientResponse.defs MarketUpdate.defs split: if_splits)
qed

lemma cancel_spec_messages:
  "cancel_spec clk t n bk = (bk', evs) \<Longrightarrow> messages_of (tk_ticker t) 1 evs"
  by (auto simp: messages_of_def cancel_spec_def Let_def ClientResponse.defs MarketUpdate.defs split: option.splits)

section \<open>Operations on a book whose orders have owners\<close>

text \<open>Both the orders on the two sides and those outside the chains.\<close>

definition belong :: "(OrderIdT \<Rightarrow> ClientIdT) \<Rightarrow> Order set \<Rightarrow> bool" where
  "belong owner M \<longleftrightarrow> (\<forall>m \<in> M. o_client_id m = owner (o_order_id m))"

definition owned_book :: "(OrderIdT \<Rightarrow> ClientIdT) \<Rightarrow> BookState \<Rightarrow> bool" where
  "owned_book owner s \<longleftrightarrow>
     (\<exists>c f. book_ok s c f \<and> owned owner (resting s c f) \<and> belong owner (off_chain s c f))"

lemma off_chain_unique:
  assumes "book_rep s c f" and "book_rep s c' f'"
  shows "off_chain s c' f' = off_chain s c f"
  unfolding book_rep_unique(1) [OF assms]
  by (rule off_chain_cong) (auto simp: orphans_def book_rep_unique(2) [OF assms])

lemma owned_bookD:
  assumes "owned_book owner s" and "book_ok s c f"
  shows "owned owner (resting s c f)" "belong owner (off_chain s c f)"
proof -
  obtain c' f' where ok: "book_ok s c' f'" and own: "owned owner (resting s c' f')" "belong owner (off_chain s c' f')"
    using assms(1) by (auto simp: owned_book_def)
  have rep: "book_rep s c f" "book_rep s c' f'" using ok assms(2) by (simp_all add: book_ok_def)
  show "owned owner (resting s c f)" "belong owner (off_chain s c f)"
    using own unfolding book_rep_unique(3) [OF rep] off_chain_unique [OF rep] by simp_all
qed

lemma owned_bookI:
  "book_ok s c f \<Longrightarrow> owned owner (resting s c f) \<Longrightarrow> belong owner (off_chain s c f) \<Longrightarrow> owned_book owner s"
  by (auto simp: owned_book_def)

lemma owned_book_frame:
  assumes "owned_book owner s" and bk: "book s' = book s"
    and q: "lf_ok (client_response_queue s')" "lf_ok (market_update_queue s')"
  shows "owned_book owner s'"
proof -
  obtain c f where ok: "book_ok s c f" and own: "owned owner (resting s c f)" "belong owner (off_chain s c f)"
    using assms(1) by (auto simp: owned_book_def)
  note same = book_ok_book [OF ok bk q]
  show ?thesis by (rule owned_bookI [OF same(1)]) (use own in \<open>simp_all add: same(2,3)\<close>)
qed

text \<open>
  \<open>tells owner t n V evs\<close>: the messages carry the ticker \<open>t\<close>, there are at most \<open>n\<close> of a kind,
  and the responses take the ledgers along with the map \<open>V\<close>.
\<close>

definition tells :: "(OrderIdT \<Rightarrow> ClientIdT) \<Rightarrow> TickerIdT \<Rightarrow> nat \<Rightarrow> feed \<Rightarrow> event list \<Rightarrow> bool" where
  "tells owner t n V evs \<longleftrightarrow> messages_of t n evs
     \<and> fold deliver (responses evs) (divided owner V) = divided owner (fold apply_update (updates evs) V)"

lemma held_back_belongs:
  "tk_client_id t = owner (tk_order_id t) \<Longrightarrow> belong owner (set (held_back shown clk t q tid n bk))"
  by (auto simp: held_back_def belong_def split: prod.splits)

lemma add_tells:
  assumes s: "sound P k s" "Suc k < MAX_ORDER_IDS" "lim \<in> P" and tr: "tracks ids k V s" and own: "owned_book owner s"
    and oid: "oid \<notin> ids" and run: "OrderBook_add oid (owner oid) side q lim s = ret s1"
  shows "\<exists>evs. sends s s1 evs \<and> tracks (insert oid ids) (Suc k) (fold apply_update (updates evs) V) s1
    \<and> owned_book owner s1 \<and> tells owner (ob_ticker_id (book s)) (Suc (2 * k)) V evs"
proof (rule tracks_add_spec [OF s tr oid run])
  let ?t = "taker s oid (owner oid) side lim"
  fix c f hs shown bk' tid' m evs c' f'
  assume ok: "book_ok s c f"
    and h: "mirrors V (announced_orders (resting s c f) hs)" "length (announced_orders (resting s c f) hs) \<le> k"
      "identifiers (announced_orders (resting s c f) hs) \<subseteq> ids" "set hs = off_chain s c f"
      "tk_order_id ?t \<notin> identifiers (announced_orders (resting s c f) hs)"
    and spec: "add_spec shown (clock s) ?t q (next_trade_id s) (ticks s) (resting s c f) = (bk', tid', m, evs)"
    and ok': "book_ok s1 c' f'" "resting s1 c' f' = bk'"
      "off_chain s1 c' f' = set (held_back shown (clock s) ?t q (next_trade_id s) (ticks s) (resting s c f)) \<union> off_chain s c f" and sent: "sends s s1 evs"
  note tr' = tracks_added [OF spec h ok'] and agree = add_streams_agree [OF spec h(1,5)]
  have t: "tk_client_id ?t = owner (tk_order_id ?t)" by simp
  note owned = add_owned [OF spec owned_bookD(1) [OF own ok] t]
  have "belong owner (off_chain s1 c' f')"
    using held_back_belongs [of ?t owner, OF t] owned_bookD(2) [OF own ok] unfolding ok'(3) belong_def by blast
  then have "owned_book owner s1" by (intro owned_bookI [OF ok'(1)]) (use owned(1) ok'(2) in simp_all)
  moreover have "tells owner (ob_ticker_id (book s)) (Suc (2 * k)) V evs"
    using add_spec_ticker [OF spec] tr'(2) agree h(2) fold_deliver_divided [OF owned(2)]
    by (simp add: tells_def messages_of_def taker_def)
  ultimately show ?thesis using sent tr'(1) by auto
qed

lemma cancel_tells:
  assumes tr: "tracks ids k V s" and own: "owned_book owner s" and on: "level_reachable s lim"
    and run: "OrderBook_cancel (owner oid) oid side lim s = ret s1"
  shows "\<exists>evs. sends s s1 evs \<and> tracks ids k (fold apply_update (updates evs) V) s1
    \<and> owned_book owner s1 \<and> tells owner (ob_ticker_id (book s)) 1 V evs"
proof (rule tracks_cancel_spec [OF tr on run])
  let ?t = "taker s oid (owner oid) side lim"
  fix c f hs bk' evs c' f'
  assume ok: "book_ok s c f"
    and h: "mirrors V (announced_orders (resting s c f) hs)" "length (announced_orders (resting s c f) hs) \<le> k"
      "identifiers (announced_orders (resting s c f) hs) \<subseteq> ids" "set hs = off_chain s c f"
    and spec: "cancel_spec (clock s) ?t (ticks s) (resting s c f) = (bk', evs)"
    and ok': "book_ok s1 c' f'" "resting s1 c' f' = bk'" "off_chain s1 c' f' = off_chain s c f" and sent: "sends s s1 evs"
  have t: "tk_client_id ?t = owner (tk_order_id ?t)" by simp
  note owned = cancel_owned [OF spec owned_bookD(1) [OF own ok] t]
  have "owned_book owner s1"
    by (rule owned_bookI [OF ok'(1)]) (use owned(1) ok'(2,3) owned_bookD(2) [OF own ok] in simp_all)
  moreover have "tells owner (ob_ticker_id (book s)) 1 V evs"
    using cancel_spec_messages [OF spec] cancel_streams_agree [OF spec] fold_deliver_divided [OF owned(2)]
    by (simp add: tells_def taker_def)
  ultimately show ?thesis using sent tracks_cancelled(1) [OF spec h ok'] by blast
qed

section \<open>Histories with readers of both queues\<close>

text \<open>
  The subscriber and the clients read at any time; an operation finds room for its messages in both
  queues. New orders bring identifiers that were not used before, and only the owner of an
  identifier uses it.
\<close>

definition both_have_place :: "nat \<Rightarrow> BookState \<Rightarrow> bool" where
  "both_have_place n s \<longleftrightarrow> has_place n (market_update_queue s) \<and> has_place n (client_response_queue s)"

inductive streamed ::
  "(OrderIdT \<Rightarrow> ClientIdT) \<Rightarrow> PriceT set \<Rightarrow> BookState \<Rightarrow> OrderIdT set \<Rightarrow> nat \<Rightarrow> ledgers \<Rightarrow> feed \<Rightarrow> BookState \<Rightarrow> bool"
  for owner P s0 where
  start: "streamed owner P s0 {} 0 (\<lambda>_. Map.empty) Map.empty s0"
| add: "streamed owner P s0 ids k L V s \<Longrightarrow> oid \<notin> ids \<Longrightarrow> lim \<in> P \<Longrightarrow> both_have_place (Suc (2 * k)) s \<Longrightarrow>
    OrderBook_add oid (owner oid) side q lim s = ret s' \<Longrightarrow> streamed owner P s0 (insert oid ids) (Suc k) L V s'"
| cancel: "streamed owner P s0 ids k L V s \<Longrightarrow> level_reachable s lim \<Longrightarrow> both_have_place 1 s \<Longrightarrow>
    OrderBook_cancel (owner oid) oid side lim s = ret s' \<Longrightarrow> streamed owner P s0 ids k L V s'"
| read: "streamed owner P s0 ids k L V s \<Longrightarrow> read_feed n s V = (V', s') \<Longrightarrow> streamed owner P s0 ids k L V' s'"
| receive: "streamed owner P s0 ids k L V s \<Longrightarrow> read_responses n s L = (L', s') \<Longrightarrow> streamed owner P s0 ids k L' V s'"

definition streaming :: "(OrderIdT \<Rightarrow> ClientIdT) \<Rightarrow> OrderIdT set \<Rightarrow> nat \<Rightarrow> ledgers \<Rightarrow> feed \<Rightarrow> BookState \<Rightarrow> bool" where
  "streaming owner ids k L V s \<longleftrightarrow>
     tracks ids k (after_reading s V) s \<and> owned_book owner s \<and> after_receiving s L = divided owner (after_reading s V)"

text \<open>An operation appends its messages to both queues.\<close>

lemma streaming_sent:
  assumes st: "streaming owner ids k L V s" and sent: "sends s s1 evs" and place: "both_have_place n s"
    and q: "lf_ok (client_response_queue s)" "lf_ok (market_update_queue s)"
    and tr: "tracks ids' k' (fold apply_update (updates evs) (after_reading s V)) s1" and own: "owned_book owner s1"
    and te: "tells owner t n (after_reading s V) evs"
  shows "streaming owner ids' k' L V s1"
proof -
  have len: "length (updates evs) \<le> n" "length (responses evs) \<le> n"
    using te by (simp_all add: tells_def messages_of_def)
  have V: "after_reading s1 V = fold apply_update (updates evs) (after_reading s V)"
    using after_reading_sent [OF sent q(2) _ len(1)] place by (simp add: both_have_place_def)
  have "contents (client_response_queue s1) = contents (client_response_queue s) @ responses evs"
    using contents_sent [OF q(1) _ len(2)] place sent by (simp add: both_have_place_def sends_def)
  then have "after_receiving s1 L = fold deliver (responses evs) (after_receiving s L)"
    by (simp add: after_receiving_def)
  then show ?thesis using st te tr own by (simp add: streaming_def V tells_def)
qed

lemma streaming_read:
  assumes st: "streaming owner ids k L V s" and s: "sound P k s" and read: "read_feed n s V = (V', s')"
  shows "streaming owner ids k L V' s'"
proof -
  note r = read_feed_keeps [OF s read] and q = sound_queues [OF s]
  have "after_receiving s' L = after_receiving s L" by (simp add: after_receiving_def r(5))
  then show ?thesis
    using st tracks_frame [of ids k "after_reading s V" s s' ids k] owned_book_frame [of owner s s'] r(2-5) q
    by (simp add: streaming_def)
qed

lemma streaming_receive:
  assumes st: "streaming owner ids k L V s" and s: "sound P k s" and read: "read_responses n s L = (L', s')"
  shows "streaming owner ids k L' V s' \<and> sound P k s'"
proof -
  obtain rs q where q: "drain pop slot n (client_response_queue s) = (rs, q)" by (metis prod.exhaust)
  then have s': "L' = fold deliver rs L" "s' = s\<lparr>client_response_queue := q\<rparr>"
    using read by (simp_all add: read_responses_def)
  note qs = sound_queues [OF s]
  have "lf_ok (client_response_queue s)" using qs by simp
  from drain_fold [OF this q, of deliver L] have d: "lf_ok q" "after_receiving s' L' = after_receiving s L"
    by (simp_all add: s' after_receiving_def)
  have "after_reading s' V = after_reading s V" by (simp add: after_reading_def s'(2))
  then show ?thesis
    using st tracks_frame [of ids k "after_reading s V" s s' ids k] owned_book_frame [of owner s s'] d s'(2) qs
      sound_book [OF s, of s']
    by (simp add: streaming_def)
qed

lemma streamed_streaming:
  assumes "streamed owner P s0 ids k L V s" and "sound P 0 s0" and "streaming owner {} 0 (\<lambda>_. Map.empty) Map.empty s0"
    and "k < MAX_ORDER_IDS"
  shows "sound P k s \<and> streaming owner ids k L V s"
  using assms
proof (induction)
  case start
  then show ?case by simp
next
  case (add ids k L V s oid lim side q s')
  then have s: "sound P k s" "Suc k < MAX_ORDER_IDS" and st: "streaming owner ids k L V s" by simp_all
  then have tr: "tracks ids k (after_reading s V) s" and own: "owned_book owner s" by (simp_all add: streaming_def)
  obtain evs where "sends s s' evs" "tracks (insert oid ids) (Suc k) (fold apply_update (updates evs) (after_reading s V)) s'"
    "owned_book owner s'" "tells owner (ob_ticker_id (book s)) (Suc (2 * k)) (after_reading s V) evs"
    using add_tells [OF s add.hyps(3) tr own add.hyps(2,5)] by blast
  moreover have "sound P (Suc k) s'" using add_sound [OF s add.hyps(3), of oid "owner oid" side q] add.hyps(5) by auto
  ultimately show ?case using streaming_sent [OF st _ add.hyps(4)] sound_queues [OF s(1)] by blast
next
  case (cancel ids k L V s lim oid side s')
  then have s: "sound P k s" and st: "streaming owner ids k L V s" by simp_all
  then have tr: "tracks ids k (after_reading s V) s" and own: "owned_book owner s" by (simp_all add: streaming_def)
  obtain evs where "sends s s' evs" "tracks ids k (fold apply_update (updates evs) (after_reading s V)) s'"
    "owned_book owner s'" "tells owner (ob_ticker_id (book s)) 1 (after_reading s V) evs"
    using cancel_tells [OF tr own cancel.hyps(2,4)] by blast
  moreover have "sound P k s'"
    using cancel_sound [OF s cancel.hyps(2), of "owner oid" oid side] cancel.hyps(4) by auto
  ultimately show ?case using streaming_sent [OF st _ cancel.hyps(3)] sound_queues [OF s] by blast
next
  case (read ids k L V s n V' s')
  then show ?case using streaming_read [OF _ _ read.hyps(2)] read_feed_keeps(1) [OF _ read.hyps(2)] by blast
next
  case (receive ids k L V s n L' s')
  then show ?case using streaming_receive [OF _ _ receive.hyps(2)] by blast
qed

lemma owned_opened:
  assumes "lf_ok rq" and "lf_ok uq"
  shows "owned_book owner (opened ticker rq uq tid clk n)"
  by (rule owned_bookI [OF opened_ok [OF assms, where f = "\<lambda>_. []"]])
    (simp_all add: owned_def resting_def belong_def off_chain_def)

lemma divided_empty [simp]: "divided owner Map.empty = (\<lambda>_. Map.empty)"
  by (simp add: divided_def)

lemma mirrors_own:
  assumes V: "mirrors V ms" and own: "\<forall>m \<in> set ms. o_client_id m = owner (o_order_id m)"
  shows "mirrors (divided owner V c) (filter (\<lambda>m. o_client_id m = c) ms)"
proof -
  let ?ms = "filter (\<lambda>m. o_client_id m = c) ms"
  let ?M = "map_of (map (\<lambda>m. (o_order_id m, entry m)) ?ms)"
  have M: "mirrors ?M ?ms" using V by (simp add: mirrors_def distinct_map_filter)
  have same: "divided owner V c k = Some e \<longleftrightarrow> ?M k = Some e" for k e
    using mirrors_Some [OF M, of k e] mirrors_Some [OF V, of k e] own
    by (auto simp: divided_def restrict_map_def)
  have "divided owner V c k = ?M k" for k
    using same [of k "the (?M k)"] same [of k "the (divided owner V c k)"]
    by (cases "?M k"; cases "divided owner V c k") auto
  then have "divided owner V c = ?M" by (rule ext)
  with M show ?thesis by simp
qed

section \<open>The properties\<close>

text \<open>
  C12. The private and the public messages tell the same story, provided that orders are cancelled
  by the clients that added them, which the book does not check. Take a history of additions
  with new identifiers and of such cancellations, at prices whose level, if there is one, is on a
  chain, in which the operations find room for their messages, and in which the clients and a
  subscriber read their queues at any time; consider what all of them know once they have read
  what is left in the queues. The ledger that a client keeps from its responses is the part of
  the subscriber's map that belongs to it, and it holds exactly the open orders of the client,
  those outside the chains included, with the quantities that are left of them.
\<close>

theorem ledgers_divide_the_feed:
  assumes "lf_ok rq" and "contents rq = []" and "lf_ok uq" and "contents uq = []" and "few_prices P"
    and "streamed owner P (opened ticker rq uq tid clk n) ids k L V s" and "k < MAX_ORDER_IDS"
    and "L' = fold deliver (contents (client_response_queue s)) L"
    and "V' = fold apply_update (contents (market_update_queue s)) V"
  shows "L' c = V' |` {oid. owner oid = c}
    \<and> (\<exists>cs f hidden. book_ok s cs f \<and> set hidden = off_chain s cs f
       \<and> mirrors (L' c) (filter (\<lambda>m. o_client_id m = c) (resting s cs f True @ resting s cs f False @ hidden))
       \<and> ((\<forall>i \<in> listed s. on_chain s i) \<longrightarrow> hidden = []))"
proof -
  let ?s0 = "opened ticker rq uq tid clk n"
  have "streaming owner {} 0 (\<lambda>_. Map.empty) Map.empty ?s0"
    using tracks_opened [OF assms(1,3)] owned_opened [OF assms(1,3)] assms(2,4)
    by (simp add: streaming_def after_reading_def after_receiving_def)
  from streamed_streaming [OF assms(6) sound_opened [OF assms(1,3,5)] this assms(7)]
  have tr: "tracks ids k V' s" and own: "owned_book owner s" and L: "L' = divided owner V'"
    by (simp_all add: streaming_def after_reading_def after_receiving_def assms(8,9))
  from tracks_mirrors [OF tr] obtain cs f hidden where ok: "book_ok s cs f"
    and V: "mirrors V' (resting s cs f True @ resting s cs f False @ hidden)"
    and h: "set hidden = off_chain s cs f" "(\<forall>i \<in> listed s. on_chain s i) \<longrightarrow> hidden = []" by blast
  have "\<forall>m \<in> set (resting s cs f True @ resting s cs f False @ hidden). o_client_id m = owner (o_order_id m)"
    using owned_bookD [OF own ok] h(1) by (auto simp: owned_def belong_def)
  from mirrors_own [OF V this, of c] show ?thesis using ok L h by (auto simp: divided_def)
qed

lemma small_streamed:
  "\<exists>s. streamed (\<lambda>_. 7) {100} (opened 0 small_rq small_uq 1 int 0) {1} 1 (\<lambda>_. Map.empty) Map.empty s"
proof -
  let ?s = "opened 0 small_rq small_uq 1 int 0" and ?P = "{100} :: PriceT set"
  have "sound ?P 0 ?s" by (rule sound_opened [OF small_queues]) (simp add: few_prices_def constants)
  then obtain s where "OrderBook_add 1 7 BUY 10 100 ?s = ret s"
    using add_sound [of ?P 0 ?s 100 1 7 BUY 10] by (auto simp: constants)
  then have "streamed (\<lambda>_. 7) ?P ?s (insert 1 {}) (Suc 0) (\<lambda>_. Map.empty) Map.empty s"
    by (intro streamed.add [OF streamed.start]) (simp_all add: both_have_place_def has_place_def room_def)
  then show ?thesis by auto
qed

theorem ledgers_divide_the_feed_witness:
  "\<exists>L V s. streamed (\<lambda>_. 7) {100} (opened 0 small_rq small_uq 1 int 0) {1} 1 (\<lambda>_. Map.empty) Map.empty s
     \<and> L = fold deliver (contents (client_response_queue s)) (\<lambda>_. Map.empty)
     \<and> V = fold apply_update (contents (market_update_queue s)) Map.empty
     \<and> L 7 = V |` {oid. (7 :: ClientIdT) = 7} \<and> L 8 = V |` {oid. (7 :: ClientIdT) = 8}"
proof -
  obtain s where h: "streamed (\<lambda>_. 7) {100} (opened 0 small_rq small_uq 1 int 0) {1} 1 (\<lambda>_. Map.empty) Map.empty s"
    using small_streamed by blast
  have "fold deliver (contents (client_response_queue s)) (\<lambda>_. Map.empty) c
      = fold apply_update (contents (market_update_queue s)) Map.empty |` {oid. (7 :: ClientIdT) = c}" for c
    using ledgers_divide_the_feed [OF small_queues(1) _ small_queues(2) _ _ h _ refl refl, of c]
    by (simp add: few_prices_def constants)
  with h show ?thesis by blast
qed

section \<open>Cancellations are not authorised\<close>

text \<open>
  C15. The owner of an order does not matter when it is cancelled. Any client that names the
  identifier and the price of a resting order takes it from the book, whatever side it claims;
  the only response of the operation goes to that client, and the owner of the order is not told.
\<close>

theorem cancel_ignores_owner:
  assumes "book_ok s c f" and "level_reachable s lim"
    and "m \<in> set (resting s c f b)" and "is_order oid lim m"
    and "\<forall>d. \<forall>m' \<in> set (resting s c f d). o_order_id m' = oid \<longrightarrow> m' = m"
  shows "\<exists>s' c' f'. OrderBook_cancel cid oid side lim s = ret s' \<and> book_ok s' c' f'
    \<and> (\<forall>d. resting s' c' f' d = drop_first (is_order oid lim) (resting s c f d))
    \<and> client_response_queue s' = push_slot (ClientResponse.make ResponseType_CANCELED (ob_ticker_id (book s)) cid oid
         side (o_quantity m) lim (clock s (ticks s))) (client_response_queue s)"
proof -
  let ?hit = "is_order oid lim" and ?t = "taker s oid cid side lim"
  have "m \<in> set (resting s c f True @ resting s c f False)" using assms(3) by (cases b) auto
  then obtain m' where find: "List.find ?hit (resting s c f True @ resting s c f False) = Some m'"
    using assms(4) find_None_iff [of ?hit "resting s c f True @ resting s c f False"]
    by (cases "List.find ?hit (resting s c f True @ resting s c f False)") blast+
  then have "m' \<in> set (resting s c f True @ resting s c f False)" "?hit m'"
    by (metis find_Some_iff nth_mem)+
  then have "m' = m" using assms(5) by (auto simp: is_order_def)
  with find have "cancel_spec (clock s) ?t (ticks s) (resting s c f) = (\<lambda>d. drop_first ?hit (resting s c f d),
      [Response (ClientResponse.make ResponseType_CANCELED (ob_ticker_id (book s)) cid oid side (o_quantity m) lim
         (clock s (ticks s))),
       Update (MarketUpdate.make UpdateType_REMOVE (ob_ticker_id (book s)) oid TradeId_INVALID side (o_quantity m) lim
         (clock s (ticks s)))])"
    by (simp add: cancel_spec_def)
  with OrderBook_cancel_refines [OF assms(1) refl off_chain_prices [OF assms(1,2)], of oid cid side]
  obtain s' c' f' where "OrderBook_cancel cid oid side lim s = ret s'" "book_ok s' c' f'"
    "resting s' c' f' = (\<lambda>d. drop_first ?hit (resting s c f d))"
    "client_response_queue s' = push_slot (ClientResponse.make ResponseType_CANCELED (ob_ticker_id (book s)) cid oid
       side (o_quantity m) lim (clock s (ticks s))) (client_response_queue s)"
    by (auto simp: cancelled_def sends_def)
  then show ?thesis by (intro exI [of _ s'] exI [of _ c'] exI [of _ f']) simp
qed

theorem cancel_ignores_owner_witness:
  "\<exists>s' c' f'. OrderBook_cancel 99 3 BUY 105 example_book = ret s' \<and> book_ok s' c' f' \<and> resting s' c' f' False = []
    \<and> client_response_queue s' = push_slot (ClientResponse.make ResponseType_CANCELED 0 99 3 BUY 8 105 0)
        (LFQueue_new 16 ClientResponse_default)"
proof -
  have on: "level_reachable example_book 105"
    using on_chain.best [of SELL example_book 1] by (auto simp: level_reachable_def)
  have one: "\<forall>d. \<forall>m' \<in> set (resting example_book example_chains example_lists d).
      o_order_id m' = 3 \<longrightarrow> m' = Order_new 0 3 7 0 SELL 8 105"
  proof
    fix d show "\<forall>m' \<in> set (resting example_book example_chains example_lists d).
      o_order_id m' = 3 \<longrightarrow> m' = Order_new 0 3 7 0 SELL 8 105"
      by (cases d) (simp_all add: example_resting example_defs)
  qed
  from cancel_ignores_owner [OF example_ok on _ _ one, of False 99 BUY] show ?thesis
    by (fastforce simp: example_resting is_order_def Order_new_def Order_default_def)
qed

end
