(* ===== verification/Exchange_Feed.thy ===== *)
theory Exchange_Feed
  imports Exchange_Thread Client_Ledger
begin

text \<open>
  What an exchange tells the outside. All its books write to the same two queues; a subscriber
  keeps one map for each ticker and a client one ledger for each ticker, sorted by the ticker
  that every message carries. Under every interleaving of the thread of the exchange with the
  threads that submit requests, start and stop it and read the two queues, the maps and the
  ledgers are in step with all the books at once.
\<close>

section \<open>The readers\<close>

type_synonym market = "TickerIdT \<Rightarrow> feed"

type_synonym accounts = "TickerIdT \<Rightarrow> ledgers"

definition read_market :: "nat \<Rightarrow> Exchange \<Rightarrow> market \<Rightarrow> market \<times> Exchange" where
  "read_market n ex M =
     (case drain pop slot n (ex_update_queue ex) of
        (us, q) \<Rightarrow> (fold (keyed mu_ticker_id apply_update) us M, ex\<lparr>ex_update_queue := q\<rparr>))"

definition read_accounts :: "nat \<Rightarrow> Exchange \<Rightarrow> accounts \<Rightarrow> accounts \<times> Exchange" where
  "read_accounts n ex A =
     (case drain pop slot n (ex_response_queue ex) of
        (rs, q) \<Rightarrow> (fold (keyed rs_ticker_id deliver) rs A, ex\<lparr>ex_response_queue := q\<rparr>))"

text \<open>What they will know when they have read what is in the queues.\<close>

definition final_market :: "Exchange \<Rightarrow> market \<Rightarrow> market" where
  "final_market ex M = fold (keyed mu_ticker_id apply_update) (contents (ex_update_queue ex)) M"

definition final_accounts :: "Exchange \<Rightarrow> accounts \<Rightarrow> accounts" where
  "final_accounts ex A = fold (keyed rs_ticker_id deliver) (contents (ex_response_queue ex)) A"

section \<open>All books of an exchange\<close>

text \<open>
  \<open>told owner k A M ex\<close>: after \<open>k\<close> additions the map and the ledgers of every ticker are in step
  with its book. The identifiers used so far are \<open>1\<close> to \<open>k\<close>.
\<close>

definition used :: "nat \<Rightarrow> OrderIdT set" where
  "used k = of_nat ` {1..k}"

lemma used_Suc: "used (Suc k) = insert (of_nat (Suc k)) (used k)"
  by (simp add: used_def atLeastAtMostSuc_conv)

lemma used_mono: "k \<le> k' \<Longrightarrow> used k \<subseteq> used k'"
  unfolding used_def by (intro image_mono) simp

lemma next_unused:
  assumes "Suc k < 2 ^ 32"
  shows "(of_nat (Suc k) :: OrderIdT) \<notin> used k"
proof
  assume "(of_nat (Suc k) :: OrderIdT) \<in> used k"
  then obtain j where j: "j \<le> k" "(of_nat (Suc k) :: OrderIdT) = of_nat j" unfolding used_def by auto
  then have "take_bit 32 (Suc k) = take_bit 32 j" by (simp add: word_of_nat_eq_iff del: of_nat_Suc)
  then show False using j(1) assms by (simp add: take_bit_nat_eq_self)
qed

definition told :: "(OrderIdT \<Rightarrow> ClientIdT) \<Rightarrow> nat \<Rightarrow> accounts \<Rightarrow> market \<Rightarrow> Exchange \<Rightarrow> bool" where
  "told owner k A M ex \<longleftrightarrow>
     next_order_id ex = of_nat (Suc k)
     \<and> (\<forall>t ob. map_of (order_books_map ex) t = Some (Some ob) \<longrightarrow>
          tracks (used k) k (M t) (book_state ex ob) \<and> owned_book owner (book_state ex ob)
          \<and> A t = divided owner (M t))"

text \<open>The two queues may change as long as they stay well formed, and so may everything else.\<close>

lemma told_frame:
  assumes "told owner k A M ex" and "order_books_map ex' = order_books_map ex"
    and "next_order_id ex' = next_order_id ex" and "queues_ok ex'"
  shows "told owner k A M ex'"
  unfolding told_def
proof (intro conjI allI impI)
  fix t ob assume "map_of (order_books_map ex') t = Some (Some ob)"
  then have t: "tracks (used k) k (M t) (book_state ex ob)" "owned_book owner (book_state ex ob)" "A t = divided owner (M t)"
    using assms(1,2) by (simp_all add: told_def)
  have q: "lf_ok (client_response_queue (book_state ex' ob))" "lf_ok (market_update_queue (book_state ex' ob))"
    using assms(4) by (simp_all add: queues_ok_def)
  show "tracks (used k) k (M t) (book_state ex' ob)" by (rule tracks_frame [OF t(1) _ q]) simp_all
  show "owned_book owner (book_state ex' ob)" by (rule owned_book_frame [OF t(2) _ q]) simp
  show "A t = divided owner (M t)" by (rule t(3))
qed (use assms in \<open>simp add: told_def\<close>)

text \<open>An operation on the book of \<open>t\<close>: its messages concern this ticker, the other books stay.\<close>

lemma told_op:
  assumes to: "told owner k A M ex" and ob: "map_of (order_books_map ex) t = Some (Some ob)"
    and te: "tells owner t n (M t) evs" and tr: "tracks (used k') k' (fold apply_update (updates evs) (M t)) s"
    and own: "owned_book owner s" and ex1: "ex1 = store_book t s ex0" "order_books_map ex0 = order_books_map ex" "queues_ok ex1"
    and k': "next_order_id ex0 = of_nat (Suc k')" "k \<le> k'"
  shows "told owner k' (fold (keyed rs_ticker_id deliver) (responses evs) A)
    (fold (keyed mu_ticker_id apply_update) (updates evs) M) ex1"
    "dom (map_of (order_books_map ex1)) = dom (map_of (order_books_map ex))"
proof -
  let ?V = "fold apply_update (updates evs) (M t)"
  have M: "fold (keyed mu_ticker_id apply_update) (updates evs) M = M(t := ?V)"
    by (rule fold_keyed) (use te in \<open>simp add: tells_def messages_of_def\<close>)
  have "fold (keyed rs_ticker_id deliver) (responses evs) A = A(t := fold deliver (responses evs) (A t))"
    by (rule fold_keyed) (use te in \<open>simp add: tells_def messages_of_def\<close>)
  moreover have "A t = divided owner (M t)" using to ob by (simp add: told_def)
  ultimately have A: "fold (keyed rs_ticker_id deliver) (responses evs) A = A(t := divided owner ?V)"
    using te by (simp add: tells_def)
  have "tracks (used k') k' ((M(t := ?V)) u) (book_state ex1 ob') \<and> owned_book owner (book_state ex1 ob')
      \<and> (A(t := divided owner ?V)) u = divided owner ((M(t := ?V)) u)"
    if u: "map_of (order_books_map ex1) u = Some (Some ob')" for u ob'
  proof -
    have q: "lf_ok (client_response_queue (book_state ex1 ob'))" "lf_ok (market_update_queue (book_state ex1 ob'))"
      using ex1(3) by (simp_all add: queues_ok_def)
    show ?thesis
    proof (cases "u = t")
      case True
      then have "book (book_state ex1 ob') = book s" using u by (simp add: ex1(1))
      from tracks_frame [OF tr this q] owned_book_frame [OF own this q] show ?thesis using True by simp
    next
      case False
      then have o: "tracks (used k) k (M u) (book_state ex ob')" "owned_book owner (book_state ex ob')"
        "A u = divided owner (M u)" using to u by (simp_all add: told_def ex1(1,2))
      have bk: "book (book_state ex1 ob') = book (book_state ex ob')" by simp
      from tracks_frame [OF o(1) bk q used_mono [OF k'(2)] k'(2)] owned_book_frame [OF o(2) bk q]
      show ?thesis using False o(3) by simp
    qed
  qed
  then show "told owner k' (fold (keyed rs_ticker_id deliver) (responses evs) A)
    (fold (keyed mu_ticker_id apply_update) (updates evs) M) ex1"
    using k'(1) by (simp add: told_def M A ex1(1))
  show "dom (map_of (order_books_map ex1)) = dom (map_of (order_books_map ex))"
    using ob by (auto simp: ex1(1,2))
qed

section \<open>Serving a request\<close>

text \<open>\<open>owner\<close> says to whom an identifier is going to belong; a client cancels its own orders only.\<close>

definition own_request :: "(OrderIdT \<Rightarrow> ClientIdT) \<Rightarrow> Exchange \<Rightarrow> ClientRequest \<Rightarrow> bool" where
  "own_request owner ex r \<longleftrightarrow>
     (case rq_type r of
        RequestType_INVALID \<Rightarrow> True
      | RequestType_ADD \<Rightarrow> owner (next_order_id ex) = rq_client_id r
      | RequestType_CANCEL \<Rightarrow> owner (rq_order_id r) = rq_client_id r)"

definition room_for :: "nat \<Rightarrow> Exchange \<Rightarrow> bool" where
  "room_for n ex \<longleftrightarrow> has_place n (ex_update_queue ex) \<and> has_place n (ex_response_queue ex)"

lemma room_for_less: "room_for n ex \<Longrightarrow> m \<le> n \<Longrightarrow> room_for m ex"
  by (simp add: room_for_def has_place_def)

text \<open>The state of the readers and the exchange: what they will know is in step with the books.\<close>

definition in_step :: "(OrderIdT \<Rightarrow> ClientIdT) \<Rightarrow> PriceT set \<Rightarrow> nat \<Rightarrow> accounts \<Rightarrow> market \<Rightarrow> Exchange \<Rightarrow> bool" where
  "in_step owner P k A M ex \<longleftrightarrow> ex_sound P k ex \<and> told owner k (final_accounts ex A) (final_market ex M) ex"

lemma in_step_frame:
  assumes "in_step owner P k A M ex" and "ex_sound P k ex'" and "order_books_map ex' = order_books_map ex"
    and "next_order_id ex' = next_order_id ex" and "ex_update_queue ex' = ex_update_queue ex"
    and "ex_response_queue ex' = ex_response_queue ex"
  shows "in_step owner P k A M ex'"
  using assms told_frame [OF _ assms(3,4) ex_sound_queues [OF assms(2)]]
  by (simp add: in_step_def final_accounts_def final_market_def)

lemma finals_sent:
  assumes q: "queues_ok ex" and sent: "sends (book_state ex ob) s evs" and room: "room_for n ex" and te: "tells owner t n V evs"
  shows "final_market (store_book t s ex0) M = fold (keyed mu_ticker_id apply_update) (updates evs) (final_market ex M)"
    "final_accounts (store_book t s ex0) A = fold (keyed rs_ticker_id deliver) (responses evs) (final_accounts ex A)"
proof -
  have "contents (market_update_queue s) = contents (ex_update_queue ex) @ updates evs"
    "contents (client_response_queue s) = contents (ex_response_queue ex) @ responses evs"
    using contents_sent [of "ex_update_queue ex" n "updates evs"] contents_sent [of "ex_response_queue ex" n "responses evs"]
      assms by (simp_all add: queues_ok_def sends_def room_for_def tells_def messages_of_def)
  then show "final_market (store_book t s ex0) M = fold (keyed mu_ticker_id apply_update) (updates evs) (final_market ex M)"
    "final_accounts (store_book t s ex0) A = fold (keyed rs_ticker_id deliver) (responses evs) (final_accounts ex A)"
    by (simp_all add: final_market_def final_accounts_def)
qed

lemma in_step_add:
  assumes st: "in_step owner P k A M ex" and t: "known ex t" and k: "Suc k < MAX_ORDER_IDS" and lim: "lim \<in> P"
    and room: "room_for (Suc (2 * k)) ex" and own: "owner (next_order_id ex) = cid"
    and run: "addOrder t cid side q lim ex = ret ex1"
  shows "in_step owner P (Suc k) A M ex1 \<and> dom (map_of (order_books_map ex1)) = dom (map_of (order_books_map ex))"
proof -
  have ex: "ex_sound P k ex" and to: "told owner k (final_accounts ex A) (final_market ex M) ex"
    using st by (simp_all add: in_step_def)
  let ?id = "next_order_id ex" and ?ex0 = "ex\<lparr>next_order_id := next_order_id ex + 1\<rparr>" and ?V = "final_market ex M t"
  obtain ob s where ob: "map_of (order_books_map ex) t = Some (Some ob)"
    and s: "OrderBook_add ?id (owner ?id) side q lim (book_state ex ob) = ret s"
    and ex1: "ex1 = store_book t s ?ex0" "ex_sound P (Suc k) ex1"
    using addOrder_known [OF ex t k lim, of cid side q] run own by auto
  have b: "ob_ticker_id ob = t" "sound P k (book_state ex ob)" using ex_sound_book [OF ex ob] by auto
  have tr: "tracks (used k) k ?V (book_state ex ob)" and ow: "owned_book owner (book_state ex ob)"
    and id: "?id = of_nat (Suc k)" using to ob by (simp_all add: told_def)
  have new: "?id \<notin> used k" using next_unused [of k] k by (simp add: id constants)
  obtain evs where evs: "sends (book_state ex ob) s evs" "tells owner t (Suc (2 * k)) ?V evs" "owned_book owner s"
    "tracks (used (Suc k)) (Suc k) (fold apply_update (updates evs) ?V) s"
    using add_tells [OF b(2) k lim tr ow new s] b(1) by (auto simp: used_Suc id)
  note qs = ex_sound_queues [OF ex1(2)]
  have "next_order_id ?ex0 = of_nat (Suc (Suc k))" by (simp add: id)
  from told_op [OF to ob evs(2,4,3) ex1(1) _ qs this] finals_sent [OF ex_sound_queues [OF ex] evs(1) room evs(2), of ?ex0]
  show ?thesis using ex1 by (simp add: in_step_def)
qed

lemma in_step_cancel:
  assumes st: "in_step owner P k A M ex" and ob: "map_of (order_books_map ex) t = Some (Some ob)"
      "level_reachable (book_state ex ob) lim"
    and room: "room_for 1 ex" and own: "owner oid = cid" and run: "cancelOrder t cid oid side lim ex = ret ex1"
  shows "in_step owner P k A M ex1 \<and> dom (map_of (order_books_map ex1)) = dom (map_of (order_books_map ex))"
proof -
  have ex: "ex_sound P k ex" and to: "told owner k (final_accounts ex A) (final_market ex M) ex"
    using st by (simp_all add: in_step_def)
  let ?V = "final_market ex M t"
  obtain s where s: "OrderBook_cancel (owner oid) oid side lim (book_state ex ob) = ret s"
    and ex1: "ex1 = store_book t s ex" "ex_sound P k ex1"
    using cancelOrder_known [OF ex ob, of cid oid side] run own by auto
  have b: "ob_ticker_id ob = t" using ex_sound_book [OF ex ob(1)] by auto
  have tr: "tracks (used k) k ?V (book_state ex ob)" and ow: "owned_book owner (book_state ex ob)"
    and id: "next_order_id ex = of_nat (Suc k)" using to ob(1) by (simp_all add: told_def)
  obtain evs where evs: "sends (book_state ex ob) s evs" "tells owner t 1 ?V evs" "owned_book owner s"
    "tracks (used k) k (fold apply_update (updates evs) ?V) s"
    using cancel_tells [OF tr ow ob(2) s] b by auto
  note qs = ex_sound_queues [OF ex1(2)]
  from told_op [OF to ob(1) evs(2,4,3) ex1(1) _ qs id] finals_sent [OF ex_sound_queues [OF ex] evs(1) room evs(2), of ex]
  show ?thesis using ex1 by (simp add: in_step_def)
qed

lemma in_step_serve:
  assumes st: "in_step owner P k A M ex" and r: "safe_request P ex r" "own_request owner ex r"
    and k: "k + additions [r] < MAX_ORDER_IDS" and room: "room_for (Suc (2 * k)) ex" and run: "serve r ex = ret ex1"
  shows "in_step owner P (k + additions [r]) A M ex1
    \<and> dom (map_of (order_books_map ex1)) = dom (map_of (order_books_map ex))"
proof (cases "rq_type r")
  case RequestType_INVALID
  then show ?thesis using run st by (simp add: serve_def)
next
  case RequestType_ADD
  then have h: "known ex (rq_ticker_id r)" "rq_limit_price r \<in> P" "owner (next_order_id ex) = rq_client_id r"
    "Suc k < MAX_ORDER_IDS" and run': "addOrder (rq_ticker_id r) (rq_client_id r) (rq_side r) (rq_quantity r)
      (rq_limit_price r) ex = ret ex1"
    using r k run by (simp_all add: safe_request_def own_request_def serve_def)
  from in_step_add [OF st h(1,4,2) room h(3) run'] show ?thesis using RequestType_ADD by simp
next
  case RequestType_CANCEL
  then obtain ob where ob: "map_of (order_books_map ex) (rq_ticker_id r) = Some (Some ob)"
    "level_reachable (book_state ex ob) (rq_limit_price r)"
    using r by (auto simp: safe_request_def split: option.splits)
  have run': "cancelOrder (rq_ticker_id r) (rq_client_id r) (rq_order_id r) (rq_side r) (rq_limit_price r) ex = ret ex1"
    and own: "owner (rq_order_id r) = rq_client_id r"
    using RequestType_CANCEL r run by (simp_all add: own_request_def serve_def)
  have "room_for 1 ex" by (rule room_for_less [OF room]) simp
  from in_step_cancel [OF st ob this own run'] show ?thesis using RequestType_CANCEL by simp
qed

section \<open>Histories of the exchange and its readers\<close>

text \<open>When the loop is about to serve a request, it is one it can serve, and the messages have room.\<close>

definition ready :: "(OrderIdT \<Rightarrow> ClientIdT) \<Rightarrow> PriceT set \<Rightarrow> nat \<Rightarrow> Exchange \<Rightarrow> bool" where
  "ready owner P k ex \<longleftrightarrow>
     (run_thread ex = Run_Body \<longrightarrow>
        (case contents (ex_request_queue ex) of
           [] \<Rightarrow> True
         | r # rs \<Rightarrow> safe_request P ex r \<and> own_request owner ex r \<and> room_for (Suc (2 * k)) ex))"

text \<open>
  Steps of the exchange's thread and of the threads that submit requests and start, stop and join
  it (\<open>exchange_step\<close>), interleaved with reads of both queues.
\<close>

inductive observed ::
  "(OrderIdT \<Rightarrow> ClientIdT) \<Rightarrow> PriceT set \<Rightarrow> Exchange \<Rightarrow> nat \<Rightarrow> accounts \<Rightarrow> market \<Rightarrow> Exchange \<Rightarrow> bool"
  for owner P ex0 where
  start: "observed owner P ex0 0 (\<lambda>_ _. Map.empty) (\<lambda>_. Map.empty) ex0"
| step: "observed owner P ex0 k A M ex \<Longrightarrow> (run_step ex = ret ex' \<Longrightarrow> ready owner P k ex) \<Longrightarrow> exchange_step n ex ex' \<Longrightarrow>
    observed owner P ex0 (k + n) A M ex'"
| read: "observed owner P ex0 k A M ex \<Longrightarrow> read_market n ex M = (M', ex') \<Longrightarrow> observed owner P ex0 k A M' ex'"
| receive: "observed owner P ex0 k A M ex \<Longrightarrow> read_accounts n ex A = (A', ex') \<Longrightarrow> observed owner P ex0 k A' M ex'"

lemma in_step_body:
  assumes st: "in_step owner P k A M ex" and re: "ready owner P k ex" "run_thread ex = Run_Body"
    and k: "k + head_additions ex < MAX_ORDER_IDS" and run: "run_body ex = ret ex1"
  shows "in_step owner P (k + head_additions ex) A M ex1
    \<and> dom (map_of (order_books_map ex1)) = dom (map_of (order_books_map ex))"
proof -
  have ex: "ex_sound P k ex" using st by (simp add: in_step_def)
  have q: "lf_ok (ex_request_queue ex)" using ex_sound_queues [OF ex] by (simp add: queues_ok_def)
  show ?thesis
  proof (cases "contents (ex_request_queue ex)")
    case Nil
    then have "ex1 = ex\<lparr>next_request := None\<rparr>" using run_body_idle [OF q] run by simp
    then show ?thesis
      using Nil in_step_frame [OF st, of ex1] ex_sound_dequeue(2) [OF ex] by (simp add: head_additions_def)
  next
    case (Cons r rs)
    then have r: "safe_request P ex r" "own_request owner ex r" "room_for (Suc (2 * k)) ex"
      and n: "head_additions ex = additions [r]" using re by (simp_all add: ready_def head_additions_def)
    from run_body_head [OF q Cons] obtain i q' where
      serve: "serve r (ex\<lparr>next_request := Some i, ex_request_queue := q'\<rparr>) = ret ex1" and q': "lf_ok q'"
      using run by auto
    let ?ex = "ex\<lparr>next_request := Some i, ex_request_queue := q'\<rparr>"
    have "in_step owner P k A M ?ex" using in_step_frame [OF st ex_sound_dequeue(1) [OF ex q']] by simp
    moreover have "own_request owner ?ex r" using r(2) by (simp add: own_request_def split: RequestType.splits)
    moreover have "room_for (Suc (2 * k)) ?ex" using r(3) by (simp add: room_for_def)
    ultimately show ?thesis using in_step_serve [OF _ _ _ _ _ serve, of owner P k A M] r(1) k by (simp add: n)
  qed
qed

lemma in_step_thread:
  assumes st: "in_step owner P k A M ex" and re: "ready owner P k ex" and k: "k + taken ex < MAX_ORDER_IDS"
    and run: "run_step ex = ret ex'"
  shows "in_step owner P (k + taken ex) A M ex' \<and> dom (map_of (order_books_map ex')) = dom (map_of (order_books_map ex))"
proof (cases "run_thread ex = Run_Body")
  case True
  then obtain ex1 where ex1: "run_body ex = ret ex1" "ex' = ex1\<lparr>run_thread := Run_Test\<rparr>"
    using run by (auto simp: run_step_def obind_eq_ret)
  from in_step_body [OF st re True _ ex1(1)] k True have i: "in_step owner P (k + taken ex) A M ex1"
    "dom (map_of (order_books_map ex1)) = dom (map_of (order_books_map ex))" by (simp_all add: taken_def)
  have "ex_sound P (k + taken ex) ex'" using i(1) ex_sound_dequeue(5) by (simp add: in_step_def ex1(2))
  from in_step_frame [OF i(1) this] i(2) show ?thesis by (simp add: ex1(2))
next
  case False
  then have "\<exists>p. ex' = ex\<lparr>run_thread := p\<rparr>"
    using run by (cases "run_thread ex") (auto simp: run_step_def intro: exI [of _ "run_thread ex"])
  then obtain p where p: "ex' = ex\<lparr>run_thread := p\<rparr>" by blast
  then have "ex_sound P k ex'" using st ex_sound_dequeue(5) by (simp add: in_step_def)
  from in_step_frame [OF st this] False show ?thesis by (simp add: p taken_def)
qed

lemma in_step_step:
  assumes step: "exchange_step n ex ex'" and st: "in_step owner P k A M ex"
    and re: "run_step ex = ret ex' \<Longrightarrow> ready owner P k ex"
    and k: "k + n < MAX_ORDER_IDS"
  shows "in_step owner P (k + n) A M ex' \<and> dom (map_of (order_books_map ex')) = dom (map_of (order_books_map ex))"
  using step
proof (cases rule: exchange_stepE [consumes 1, case_names loop request start stop join])
  case loop
  then show ?thesis using in_step_thread [OF st re] k by simp
next
  case (request r)
  then have n: "n = 0" and s: "exchange_step 0 ex ex'" by (auto intro: exchange_step.request)
  have "lf_ok (ex_request_queue ex)" using st ex_sound_queues [of P k ex] by (simp add: in_step_def queues_ok_def)
  then have ex': "ex' = ex\<lparr>ex_request_queue := push_slot r (ex_request_queue ex)\<rparr>" "ex_sound P k ex'"
    using request st ex_sound_dequeue(3) [of P k ex] by (auto simp: submit_def in_step_def)
  from in_step_frame [OF st ex'(2)] show ?thesis by (simp add: ex'(1) n)
next
  case start
  then have ex': "n = 0" "ex' = ex\<lparr>running := True, run_thread := Run_Test\<rparr>"
    by (auto simp: Exchange_start_def split: if_splits)
  have "ex_sound P k ex'"
    using st ex_sound_dequeue(5) [OF ex_sound_dequeue(4)] by (simp add: in_step_def ex'(2))
  from in_step_frame [OF st this] show ?thesis by (simp add: ex')
next
  case stop
  then have ex': "n = 0" "ex' = ex\<lparr>running := False\<rparr>" by (simp_all add: Exchange_stop_def)
  have "ex_sound P k ex'" using st ex_sound_dequeue(4) by (simp add: in_step_def ex'(2))
  from in_step_frame [OF st this] show ?thesis by (simp add: ex')
next
  case (join ended)
  then have "n = 0 \<and> (\<exists>p. ex' = ex\<lparr>run_thread := p\<rparr>)"
    by (auto simp: join_run_thread_def split: run_point.splits intro: exI [of _ "run_thread ex"])
  then obtain p where ex': "n = 0" "ex' = ex\<lparr>run_thread := p\<rparr>" by blast
  have "ex_sound P k ex'" using st ex_sound_dequeue(5) by (simp add: in_step_def ex'(2))
  from in_step_frame [OF st this] show ?thesis by (simp add: ex')
qed

text \<open>A read moves messages from a queue to the reader.\<close>

lemma ex_sound_read:
  assumes ex: "ex_sound P k ex" and q: "lf_ok uq" "lf_ok rq"
  shows "ex_sound P k (ex\<lparr>ex_update_queue := uq, ex_response_queue := rq\<rparr>)"
  unfolding ex_sound_iff
proof (intro conjI allI impI)
  let ?ex = "ex\<lparr>ex_update_queue := uq, ex_response_queue := rq\<rparr>"
  fix t p assume "map_of (order_books_map ?ex) t = Some p"
  with ex_sound_book [OF ex, of t p] obtain ob where ob: "p = Some ob" "ob_ticker_id ob = t" "sound P k (book_state ex ob)"
    by auto
  moreover have "sound P k (book_state ?ex ob)" by (rule sound_book [OF ob(3)]) (use q in simp_all)
  ultimately show "\<exists>ob. p = Some ob \<and> ob_ticker_id ob = t \<and> sound P k (book_state ?ex ob)" by blast
qed (use ex q in \<open>simp_all add: ex_sound_def queues_ok_def\<close>)

lemma in_step_read:
  assumes st: "in_step owner P k A M ex" and ex': "ex' = ex\<lparr>ex_update_queue := uq, ex_response_queue := rq\<rparr>"
    and q: "lf_ok uq" "lf_ok rq" and same: "final_market ex' M' = final_market ex M" "final_accounts ex' A' = final_accounts ex A"
  shows "in_step owner P k A' M' ex'"
proof -
  have ex: "ex_sound P k ex'" using st ex_sound_read [OF _ q] by (simp add: in_step_def ex')
  have "told owner k (final_accounts ex A) (final_market ex M) ex'"
    by (rule told_frame [OF _ _ _ ex_sound_queues [OF ex]]) (use st in \<open>simp_all add: in_step_def ex'\<close>)
  then show ?thesis using ex by (simp add: in_step_def same)
qed

lemma in_step_reads:
  assumes st: "in_step owner P k A M ex"
  shows "read_market n ex M = (M', ex') \<Longrightarrow> in_step owner P k A M' ex' \<and> order_books_map ex' = order_books_map ex"
    and "read_accounts n ex A = (A', ex') \<Longrightarrow> in_step owner P k A' M ex' \<and> order_books_map ex' = order_books_map ex"
proof -
  have qs: "lf_ok (ex_update_queue ex)" "lf_ok (ex_response_queue ex)"
    using st ex_sound_queues by (auto simp: in_step_def queues_ok_def)
  assume read: "read_market n ex M = (M', ex')"
  obtain us q where q: "drain pop slot n (ex_update_queue ex) = (us, q)" by (metis prod.exhaust)
  with read have ex': "M' = fold (keyed mu_ticker_id apply_update) us M" "ex' = ex\<lparr>ex_update_queue := q\<rparr>"
    by (simp_all add: read_market_def)
  from drain_fold [OF qs(1) q, of "keyed mu_ticker_id apply_update" M] have d: "lf_ok q"
    "final_market ex' M' = final_market ex M" by (simp_all add: ex' final_market_def)
  show "in_step owner P k A M' ex' \<and> order_books_map ex' = order_books_map ex"
    using in_step_read [OF st, where ex' = ex' and uq = q and rq = "ex_response_queue ex"] d qs(2) by (simp add: ex'(2) final_accounts_def)
next
  have qs: "lf_ok (ex_update_queue ex)" "lf_ok (ex_response_queue ex)"
    using st ex_sound_queues by (auto simp: in_step_def queues_ok_def)
  assume read: "read_accounts n ex A = (A', ex')"
  obtain rs q where q: "drain pop slot n (ex_response_queue ex) = (rs, q)" by (metis prod.exhaust)
  with read have ex': "A' = fold (keyed rs_ticker_id deliver) rs A" "ex' = ex\<lparr>ex_response_queue := q\<rparr>"
    by (simp_all add: read_accounts_def)
  from drain_fold [OF qs(2) q, of "keyed rs_ticker_id deliver" A] have d: "lf_ok q"
    "final_accounts ex' A' = final_accounts ex A" by (simp_all add: ex' final_accounts_def)
  show "in_step owner P k A' M ex' \<and> order_books_map ex' = order_books_map ex"
    using in_step_read [OF st, where ex' = ex' and uq = "ex_update_queue ex" and rq = q] d qs(1) by (simp add: ex'(2) final_market_def)
qed

lemma observed_in_step:
  assumes "observed owner P ex0 k A M ex" and "in_step owner P 0 (\<lambda>_ _. Map.empty) (\<lambda>_. Map.empty) ex0"
    and "k < MAX_ORDER_IDS"
  shows "in_step owner P k A M ex \<and> dom (map_of (order_books_map ex)) = dom (map_of (order_books_map ex0))"
  using assms
proof (induction)
  case start
  then show ?case by simp
next
  case (step k A M ex n ex')
  then have "in_step owner P k A M ex" "dom (map_of (order_books_map ex)) = dom (map_of (order_books_map ex0))" by simp_all
  then show ?case using in_step_step [OF step.hyps(3) _ step.hyps(2)] step.prems(2) by simp
next
  case (read k A M ex n M' ex')
  then have "in_step owner P k A M ex" "dom (map_of (order_books_map ex)) = dom (map_of (order_books_map ex0))" by simp_all
  with in_step_reads(1) [OF this(1) read.hyps(2)] show ?case by simp
next
  case (receive k A M ex n A' ex')
  then have "in_step owner P k A M ex" "dom (map_of (order_books_map ex)) = dom (map_of (order_books_map ex0))" by simp_all
  with in_step_reads(2) [OF this(1) receive.hyps(2)] show ?case by simp
qed

section \<open>The property\<close>

lemma in_step_new:
  assumes "Exchange_new rq rsq muq clk j ts = ret ex" and "lf_ok rq" and "lf_ok rsq" and "lf_ok muq"
    and "contents rsq = []" and "contents muq = []" and "distinct ts" and "length ts \<le> MAX_TICKERS" and "few_prices P"
  shows "in_step owner P 0 (\<lambda>_ _. Map.empty) (\<lambda>_. Map.empty) ex" "dom (map_of (order_books_map ex)) = set ts"
proof -
  let ?ex0 = "\<lparr>running = False, run_thread = No_Thread, next_order_id = 1, ex_next_trade_id = 1, order_books_map = [],
        next_request = None, ex_request_queue = rq, ex_response_queue = rsq,
        ex_update_queue = muq, ex_clock = clk, ex_ticks = j\<rparr>"
  have "ex_sound P 0 ?ex0" using assms(2-4) by (simp add: ex_sound_def queues_ok_def)
  from addTickers_new [OF this assms(9,7) _ _ refl] assms(1,8)
  have ex: "ex_sound P 0 ex" "ex = ?ex0\<lparr>order_books_map := map (\<lambda>t. (t, Some (OrderBook_new t))) ts\<rparr>"
    by (auto simp: Exchange_new_def)
  show "dom (map_of (order_books_map ex)) = set ts" by (simp add: ex(2) dom_map_of_conv_image_fst image_image)
  have "tracks (used 0) 0 Map.empty (book_state ex ob) \<and> owned_book owner (book_state ex ob)"
    if "map_of (order_books_map ex) t = Some (Some ob)" for t ob
  proof -
    have "ob = OrderBook_new t" using map_of_SomeD [OF that] by (auto simp: ex(2))
    then have "book_state ex ob = opened t rsq muq 1 clk j" by (simp add: ex(2) book_state_def opened_def)
    then show ?thesis using tracks_opened [OF assms(3,4)] owned_opened [OF assms(3,4)] by (simp add: used_def)
  qed
  then have "told owner 0 (\<lambda>_ _. Map.empty) (\<lambda>_. Map.empty) ex" by (simp add: told_def ex(2))
  moreover have "ex_update_queue ex = muq" "ex_response_queue ex = rsq" by (simp_all add: ex(2))
  ultimately show "in_step owner P 0 (\<lambda>_ _. Map.empty) (\<lambda>_. Map.empty) ex"
    using ex(1) assms(5,6) by (simp add: in_step_def final_market_def final_accounts_def)
qed

text \<open>
  C11. What an exchange tells the outside is the state of its books, for all of them at once. Take
  any interleaving of the thread of a new exchange with threads that submit requests, start and
  stop it and read its two outgoing queues in any portions, in which, whenever the loop takes up a
  request, the request can be served (it names a registered ticker, a new order a price of a set
  that the pool of levels can hold, a cancellation a price whose level, if there is one, is on a
  chain), a cancellation comes from the client that added the order, and the messages of the round
  have room. Once the readers have applied what is left in the queues, the subscriber's map for a
  ticker holds side, price and quantity left of exactly these orders of the book of this ticker:
  those on its two sides and those in levels outside its chains, and the latter do not exist if all
  its levels are on a chain. The ledger of a client for this ticker is the part of the map that
  belongs to the client.
\<close>

theorem exchange_messages_mirror_books:
  assumes "Exchange_new rq rsq muq clk j ts = ret ex0" and "lf_ok rq" and "lf_ok rsq" and "lf_ok muq"
    and "contents rsq = []" and "contents muq = []" and "distinct ts" and "length ts \<le> MAX_TICKERS" and "few_prices P"
    and "observed owner P ex0 k A M ex" and "k < MAX_ORDER_IDS" and "t \<in> set ts"
    and "A' = final_accounts ex A" and "M' = final_market ex M"
  shows "\<exists>ob c f hidden. map_of (order_books_map ex) t = Some (Some ob) \<and> book_ok (book_state ex ob) c f
    \<and> mirrors (M' t) (resting (book_state ex ob) c f True @ resting (book_state ex ob) c f False @ hidden)
    \<and> set hidden = off_chain (book_state ex ob) c f
    \<and> ((\<forall>i \<in> listed (book_state ex ob). on_chain (book_state ex ob) i) \<longrightarrow> hidden = [])
    \<and> (\<forall>cl. A' t cl = M' t |` {oid. owner oid = cl})"
proof -
  note new = in_step_new [OF assms(1-9)]
  from observed_in_step [OF assms(10) new(1) assms(11)] have ex: "ex_sound P k ex" and to: "told owner k A' M' ex"
    and "dom (map_of (order_books_map ex)) = set ts"
    using new(2) by (simp_all add: in_step_def assms(13,14))
  then obtain ob where ob: "map_of (order_books_map ex) t = Some (Some ob)"
    using ex_sound_book [OF ex, of t] assms(12) by blast
  then have tr: "tracks (used k) k (M' t) (book_state ex ob)" and A: "A' t = divided owner (M' t)"
    using to by (simp_all add: told_def)
  from tracks_mirrors [OF tr] obtain c f hidden where "book_ok (book_state ex ob) c f"
    "mirrors (M' t) (resting (book_state ex ob) c f True @ resting (book_state ex ob) c f False @ hidden)"
    "set hidden = off_chain (book_state ex ob) c f"
    "(\<forall>i \<in> listed (book_state ex ob). on_chain (book_state ex ob) i) \<longrightarrow> hidden = []" by blast
  moreover have "\<forall>cl. A' t cl = M' t |` {oid. owner oid = cl}" by (simp add: A divided_def)
  ultimately show ?thesis using ob by blast
qed

text \<open>A history of the small exchange: a request arrives, the exchange is started and serves it.\<close>

lemma small_observed:
  obtains ex0 ex where
    "Exchange_new small_request_queue small_response_queue small_update_queue int 0 [1, 2] = ret ex0"
    "observed (\<lambda>_. 7) {100} ex0 1 (\<lambda>_ _. Map.empty) (\<lambda>_. Map.empty) ex"
proof -
  let ?obs = "\<lambda>ex0. observed (\<lambda>_. 7) {100} ex0 0 (\<lambda>_ _. Map.empty) (\<lambda>_. Map.empty)"
  obtain ex0 where new: "Exchange_new small_request_queue small_response_queue small_update_queue int 0 [1, 2] = ret ex0"
    "ex_sound {100} 0 ex0" "known ex0 1" "ex_request_queue ex0 = small_request_queue" "run_thread ex0 = No_Thread"
    by (rule small_exchange)
  have qs: "ex_response_queue ex0 = small_response_queue" "ex_update_queue ex0 = small_update_queue"
    using new(1) addTickers_queues [of "[1, 2]" _ ex0] unfolding Exchange_new_def by fastforce+
  let ?ex1 = "ex0\<lparr>ex_request_queue := push_slot small_request small_request_queue\<rparr>"
  let ?ex2 = "?ex1\<lparr>running := True, run_thread := Run_Test\<rparr>" and ?ex3 = "?ex1\<lparr>running := True, run_thread := Run_Body\<rparr>"
  have c: "contents (ex_request_queue ?ex3) = [small_request]"
    using contents_push [OF small_exchange_queues(1)] by simp
  have "submit small_request ex0 = ret ?ex1" using small_exchange_queues(1) new(4) by (simp add: submit_def)
  from observed.step [OF observed.start _ exchange_step.request [OF this]] new(5)
  have "?obs ex0 ?ex1" by (simp add: ready_def)
  moreover have "exchange_step 0 ?ex1 ?ex2" by (rule exchange_step.start) (simp add: Exchange_start_def new(5))
  ultimately have "?obs ex0 ?ex2" using observed.step [of "\<lambda>_. 7" "{100}" ex0 0 _ _ ?ex1 ?ex2 0] new(5) by (simp add: ready_def)
  moreover have "exchange_step (taken ?ex2) ?ex2 ?ex3" by (rule exchange_step.loop) (simp add: run_step_def)
  ultimately have o3: "?obs ex0 ?ex3"
    using observed.step [of "\<lambda>_. 7" "{100}" ex0 0 _ _ ?ex2 ?ex3 "taken ?ex2"] by (simp add: ready_def taken_def)
  have safe: "safe_request {100} ?ex3 small_request" "own_request (\<lambda>_. 7) ?ex3 small_request"
    using new(3) by (simp_all add: safe_request_def own_request_def known_def ClientRequest.make_def)
  have re: "ready (\<lambda>_. 7) {100} 0 ?ex3"
    using safe c by (simp add: ready_def room_for_def has_place_def qs room_def)
  have s3: "ex_sound {100} 0 ?ex3"
    using ex_sound_dequeue(3-5) new(2) small_exchange_queues(1) by simp
  have one: "taken ?ex3 = 1" using c by (simp add: taken_def head_additions_def ClientRequest.make_def)
  then obtain ex where "run_step ?ex3 = ret ex"
    using run_step_served [OF s3] safe(1) c by (auto simp: can_go_on_def served_def constants)
  from observed.step [OF o3 re exchange_step.loop [OF this]] one show thesis using that new(1) by simp
qed

theorem exchange_messages_mirror_books_witness:
  "\<exists>ex0 ex ob. observed (\<lambda>_. 7) {100} ex0 1 (\<lambda>_ _. Map.empty) (\<lambda>_. Map.empty) ex
     \<and> map_of (order_books_map ex) 1 = Some (Some ob)
     \<and> final_accounts ex (\<lambda>_ _. Map.empty) 1 7 = final_market ex (\<lambda>_. Map.empty) 1 |` {oid. (7 :: ClientIdT) = 7}"
proof -
  obtain ex0 ex where
    new: "Exchange_new small_request_queue small_response_queue small_update_queue int 0 [1, 2] = ret ex0"
    and h: "observed (\<lambda>_. 7) {100} ex0 1 (\<lambda>_ _. Map.empty) (\<lambda>_. Map.empty) ex" by (rule small_observed)
  from exchange_messages_mirror_books [OF new small_exchange_queues _ _ _ _ small_exchange_prices h _ _ refl refl, of 1]
  obtain ob where "map_of (order_books_map ex) 1 = Some (Some ob)"
    "final_accounts ex (\<lambda>_ _. Map.empty) 1 7 = final_market ex (\<lambda>_. Map.empty) 1 |` {oid. (7 :: ClientIdT) = 7}"
    by (auto simp: constants)
  with h show ?thesis by blast
qed

end
