(* ===== verification/Order_Book_Wear.thy ===== *)
theory Order_Book_Wear
  imports Order_Book_Example
begin

text \<open>
  How the pool of orders is used up. An addition takes one block if a rest of the order is
  announced and none otherwise, and no operation gives a block back. A client that adds and
  cancels one order over and over therefore stops the process, although the book is empty after
  every round. On the way, two lemmas on orders that the book accepts without a check.
\<close>

section \<open>The last block\<close>

text \<open>With one free block left, the next order that rests faults.\<close>

lemma add_needs_a_block:
  assumes ok: "book_ok s c f" and b: "b = (side = BUY)" and t: "t = taker s oid cid side lim"
    and spec: "add_spec shown (clock s) t q (next_trade_id s) (ticks s) (resting s c f) = (bk', tid', n', evs)"
    and rests: "announces evs" and levels: "card (insert lim (prices s)) < capacity (lpool s)"
    and full: "Suc (card (live (opool s))) = capacity (opool s)"
  shows "OrderBook_add oid cid side q lim s = throw (Assertion ''Buffer is full.'')"
proof -
  obtain q1 tid1 ms1 evs1 where
    m: "match_spec (clock s) t q (next_trade_id s) (Suc (ticks s)) (resting s c f (\<not> b)) = (q1, tid1, ms1, evs1)"
    by (cases "match_spec (clock s) t q (next_trade_id s) (Suc (ticks s)) (resting s c f (\<not> b))") auto
  have "b = (tk_side t = BUY)" using b t by simp
  note eq = add_spec_eq [where bk = "resting s c f", OF m this]
  have q1: "q1 \<noteq> 0"
    using spec rests match_spec_announces [OF m] by (auto simp: eq accepted_event_def)
  from add_matches [OF ok b t m] q1 obtain s1 s2 c2 f2 where
    run: "emit_response (ClientResponse.make ResponseType_ACCEPTED (ob_ticker_id (book s)) cid oid side q lim) s = ret s1"
      "checkForMatch oid cid side q lim s1 = ret (q1, s2)"
    and ok2: "book_ok s2 c2 f2" and tr: "traded s c f s2 c2 f2 (\<not> b)"
    and free: "\<forall>k \<in> set (c2 (\<not> b)). price_level (levels s2 k) \<noteq> lim" by blast
  have rep2: "book_rep s2 c2 f2" using ok2 by (simp add: book_ok_def)
  have pools: "live (opool s2) = live (opool s)" "capacity (opool s2) = capacity (opool s)"
    "capacity (lpool s2) = capacity (lpool s)"
    using tr by (simp_all add: traded_def)
  have "card (insert lim (prices s2)) \<le> card (insert lim (prices s))"
    by (rule card_mono) (use traded_pools(1) [OF tr ok ok2] in auto)
  then have "card (insert lim (prices s2)) < capacity (lpool s2)" using levels pools(3) by simp
  from getPriceLevel_create [OF rep2 b free this] obtain i s3 c3 f3 where
    level: "getPriceLevel lim side True s2 = ret (Some i, s3)" and "level_opened s2 c2 f2 s3 c3 f3 i b lim"
    by blast
  then have "opool s3 = opool s2" using level_openedD(4) by (auto simp: outside_eq_def)
  moreover have "pool_ok (opool s2)" using book_repD(1) [OF rep2] by (simp add: infra_def)
  moreover have "\<not> Suc (card (live (opool s2))) < capacity (opool s2)" using full pools by simp
  ultimately have "getObject x (opool s3) = throw (Assertion ''Buffer is full.'')" for x
    using getObject_full [of "opool s2" x] spare_block_iff [of "opool s2"] by metis
  then show ?thesis
    using run q1 level by (simp add: OrderBook_add_def Let_def getCurrentNsTimestamp_def)
qed

section \<open>Adding and cancelling one order\<close>

text \<open>An empty book that has used \<open>j\<close> blocks.\<close>

definition worn :: "nat \<Rightarrow> BookState \<Rightarrow> bool" where
  "worn j s \<longleftrightarrow>
     (\<exists>f. book_ok s (\<lambda>_. []) f) \<and> orphans s (\<lambda>_. []) = {} \<and> card (live (opool s)) = j
     \<and> capacity (opool s) = MAX_ORDER_IDS \<and> capacity (lpool s) = MAX_PRICE_LEVELS"

lemma worn_empty:
  assumes "worn j s"
  shows "live (lpool s) = {}" "best side s = None" "card (insert lim (prices s)) < capacity (lpool s)"
proof -
  obtain f where rep: "book_rep s (\<lambda>_. []) f" using assms by (auto simp: worn_def book_ok_def)
  have "listed s = {}" using assms by (simp add: worn_def orphans_def)
  then show "live (lpool s) = {}" using book_repD(4) [OF rep] by simp
  then show "card (insert lim (prices s)) < capacity (lpool s)"
    using assms by (simp add: worn_def constants book_rep_prices [OF rep])
  show "best side s = None" using book_rep_chain(1) [OF rep, of "side = BUY"] by simp
qed

lemma worn_room: "worn j s \<Longrightarrow> Suc j < MAX_ORDER_IDS \<Longrightarrow> has_room s lim"
  using worn_empty(3) by (simp add: has_room_def worn_def)

lemma worn_opened:
  assumes "lf_ok rq" and "lf_ok uq"
  shows "worn 0 (opened ticker rq uq tid clk n)"
  using opened_ok [OF assms] by (auto simp: worn_def orphans_def)

text \<open>On an empty book an order rests at once, and its cancellation finds it.\<close>

lemma add_spec_empty:
  assumes "q \<noteq> 0" and "bk = (\<lambda>_. [])" and "add_spec True clk t q tid n bk = (bk', tid', n', evs)"
  shows "bk' = bk(tk_side t = BUY := [rest_of clk t (Suc n) q])" "announces evs"
  using assms(1,2) assms(3) [symmetric]
  by (simp_all add: add_spec_def place_def Let_def announces_def accepted_event_def added_event_def
      MarketUpdate.defs fun_eq_iff)

lemma churn_round:
  assumes w: "worn j s" and j: "Suc j < MAX_ORDER_IDS" and q: "q \<noteq> 0"
  shows "\<exists>s1 s2. OrderBook_add oid cid side q lim s = ret s1 \<and> OrderBook_cancel cid oid side lim s1 = ret s2
    \<and> worn (Suc j) s2"
proof -
  let ?b = "side = BUY" and ?t = "taker s oid cid side lim" and ?none = "\<lambda>_ :: bool. [] :: nat list"
  obtain f where ok: "book_ok s ?none f" using w by (auto simp: worn_def)
  have none: "resting s ?none f = (\<lambda>_. [])" by (simp add: fun_eq_iff resting_def)
  have shown: "placeable s ?none ?b lim" using w by (simp add: placeable_def goes_front_def worn_def)
  have room: "has_room s lim" by (rule worn_room [OF w j])
  obtain bk' tid' n' evs where
    spec: "add_spec True (clock s) ?t q (next_trade_id s) (ticks s) (resting s ?none f) = (bk', tid', n', evs)"
    by (metis prod_cases4)
  note empty = add_spec_empty [OF q none spec]
  from OrderBook_add_refines [OF ok room refl refl _ spec] shown empty(2) obtain s1 c1 f1 where
    s1: "OrderBook_add oid cid side q lim s = ret s1" "book_ok s1 c1 f1" "resting s1 c1 f1 = bk'"
      "pools_step lim s s1" "orphans s1 c1 = {}" "card (live (opool s1)) = Suc j"
    using w by (auto simp: worn_def)
  let ?t1 = "taker s1 oid cid side lim" and ?m = "rest_of (clock s) ?t (Suc (ticks s)) q"
  have m: "bk' = (\<lambda>_. [])(?b := [?m])" using empty(1) by (simp add: none)
  have hit: "is_order oid lim ?m" by (simp add: is_order_def rest_of_def Order_new_def)
  have "fst (cancel_spec (clock s1) ?t1 (ticks s1) bk') = (\<lambda>_. [])"
    using cancel_spec_hit [of bk' ?b "[]" ?m "[]" ?t1 "clock s1" "ticks s1"] hit by (simp add: m fun_eq_iff)
  with OrderBook_cancel_refines [OF s1(2) refl, of lim oid cid side] s1(3,5) obtain s2 c2 f2 where
    s2: "OrderBook_cancel cid oid side lim s1 = ret s2" "book_ok s2 c2 f2" "resting s2 c2 f2 = (\<lambda>_. [])"
      "orphans s2 c2 = {}" "live (opool s2) = live (opool s1)" "capacity (opool s2) = capacity (opool s1)"
      "capacity (lpool s2) = capacity (lpool s1)"
    by (auto simp: cancelled_def)
  have "c2 d = []" for d
    using s2(2) fun_cong [OF s2(3), of d] by (auto simp: book_ok_def elim: resting_cases [of s2 c2 f2 d])
  then have "c2 = ?none" by (simp add: fun_eq_iff)
  then have "worn (Suc j) s2"
    using s2 s1(4,6) w by (auto simp: worn_def pools_step_def)
  then show ?thesis using s1(1) s2(1) by blast
qed

fun churn ::
  "OrderIdT \<Rightarrow> ClientIdT \<Rightarrow> OrderSide \<Rightarrow> QuantityT \<Rightarrow> PriceT \<Rightarrow> nat \<Rightarrow> BookState \<Rightarrow> BookState outcome" where
  "churn oid cid side q lim 0 s = ret s"
| "churn oid cid side q lim (Suc k) s =
     obind (OrderBook_add oid cid side q lim s) (\<lambda>s1.
     obind (OrderBook_cancel cid oid side lim s1) (churn oid cid side q lim k))"

lemma churn_worn:
  assumes "worn j s" and "j + k < MAX_ORDER_IDS" and "q \<noteq> 0"
  shows "\<exists>s'. churn oid cid side q lim k s = ret s' \<and> worn (j + k) s'"
  using assms(1,2)
proof (induction k arbitrary: j s)
  case (Suc k)
  then have "Suc j < MAX_ORDER_IDS" by simp
  from churn_round [OF Suc.prems(1) this assms(3)] obtain s1 s2 where
    "OrderBook_add oid cid side q lim s = ret s1" "OrderBook_cancel cid oid side lim s1 = ret s2" "worn (Suc j) s2"
    by blast
  then show ?case using Suc.IH [of "Suc j" s2] Suc.prems(2) by simp
qed simp

lemma churn_stops:
  assumes w: "worn j s" and full: "MAX_ORDER_IDS \<le> j + k" and j: "j < MAX_ORDER_IDS" and q: "q \<noteq> 0"
  shows "churn oid cid side q lim k s = throw (Assertion ''Buffer is full.'')"
  using w full j
proof (induction k arbitrary: j s)
  case (Suc k)
  show ?case
  proof (cases "Suc j < MAX_ORDER_IDS")
    case True
    from churn_round [OF Suc.prems(1) this q] obtain s1 s2 where
      "OrderBook_add oid cid side q lim s = ret s1" "OrderBook_cancel cid oid side lim s1 = ret s2" "worn (Suc j) s2"
      by blast
    then show ?thesis using Suc.IH [of "Suc j" s2] Suc.prems(2) True by simp
  next
    case False
    let ?t = "taker s oid cid side lim" and ?none = "\<lambda>_ :: bool. [] :: nat list"
    obtain f where ok: "book_ok s ?none f" using Suc.prems(1) by (auto simp: worn_def)
    have none: "resting s ?none f = (\<lambda>_. [])" by (simp add: fun_eq_iff resting_def)
    obtain bk' tid' n' evs where
      spec: "add_spec True (clock s) ?t q (next_trade_id s) (ticks s) (resting s ?none f) = (bk', tid', n', evs)"
      by (metis prod_cases4)
    have "Suc (card (live (opool s))) = capacity (opool s)"
      using Suc.prems(1,3) False by (simp add: worn_def)
    from add_needs_a_block [OF ok refl refl spec add_spec_empty(2) [OF q none spec] worn_empty(3) [OF Suc.prems(1)] this]
    show ?thesis by simp
  qed
qed simp

section \<open>Orders that are not checked\<close>

text \<open>An order of quantity 0 is accepted, although nothing of it can trade or rest.\<close>

lemma zero_order_is_accepted:
  assumes "lf_ok (client_response_queue s)"
  shows "OrderBook_add oid cid side 0 lim s = ret (log_response (ClientResponse.make ResponseType_ACCEPTED
    (ob_ticker_id (book s)) cid oid side 0 lim) s)"
  using assms by (simp add: OrderBook_add_def checkForMatch_zero Let_def)

text \<open>An order of the side \<open>INVALID\<close> rests among the asks, where every later buy order can hit it.\<close>

lemma invalid_side_rests_as_ask:
  assumes w: "worn j s" and j: "Suc j < MAX_ORDER_IDS" and q: "q \<noteq> 0"
  shows "\<exists>s' c f m. OrderBook_add oid cid Side_INVALID q lim s = ret s' \<and> book_ok s' c f
    \<and> resting s' c f False = [m] \<and> o_order_id m = oid \<and> o_side m = Side_INVALID"
proof -
  let ?t = "taker s oid cid Side_INVALID lim" and ?none = "\<lambda>_ :: bool. [] :: nat list"
  obtain f where ok: "book_ok s ?none f" using w by (auto simp: worn_def)
  have none: "resting s ?none f = (\<lambda>_. [])" by (simp add: fun_eq_iff resting_def)
  have shown: "placeable s ?none False lim" using w by (simp add: placeable_def goes_front_def worn_def)
  have room: "has_room s lim" by (rule worn_room [OF w j])
  obtain bk' tid' n' evs where
    spec: "add_spec True (clock s) ?t q (next_trade_id s) (ticks s) (resting s ?none f) = (bk', tid', n', evs)"
    by (metis prod_cases4)
  from OrderBook_add_refines [OF ok room _ refl _ spec, of False] shown obtain s' c' f' where
    "OrderBook_add oid cid Side_INVALID q lim s = ret s'" "book_ok s' c' f'" "resting s' c' f' = bk'" by auto
  then show ?thesis using add_spec_empty(1) [OF q none spec]
    by (intro exI [of _ s'] exI [of _ c'] exI [of _ f']) (simp add: taker_def)
qed

section \<open>The property\<close>

text \<open>
  C14. Orders are never released, so that the pool wears out. Whoever adds and cancels one order
  over and over on a new book leaves it empty after each of the first \<open>MAX_ORDER_IDS - 1\<close> rounds;
  the addition of the next round stops the process with \<open>Buffer is full.\<close>, whatever side,
  price and quantity the order has.
\<close>

theorem churn_wears_out_the_pool:
  assumes "lf_ok rq" and "lf_ok uq" and "q \<noteq> 0"
  shows "if k < MAX_ORDER_IDS
    then \<exists>s. churn oid cid side q lim k (opened ticker rq uq tid clk n) = ret s \<and> best BUY s = None \<and> best SELL s = None
    else churn oid cid side q lim k (opened ticker rq uq tid clk n) = throw (Assertion ''Buffer is full.'')"
proof (cases "k < MAX_ORDER_IDS")
  case True
  then show ?thesis
    using churn_worn [OF worn_opened [OF assms(1,2)], of k q] assms(3) worn_empty(2) by fastforce
next
  case False
  then show ?thesis
    using churn_stops [OF worn_opened [OF assms(1,2)], of k q] assms(3) by (simp add: constants)
qed

theorem churn_wears_out_the_pool_witness:
  "churn 1 7 SELL 10 100 MAX_ORDER_IDS (opened 0 small_rq small_uq 1 int 0) = throw (Assertion ''Buffer is full.'')
     \<and> (\<exists>s. churn 1 7 SELL 10 100 1000 (opened 0 small_rq small_uq 1 int 0) = ret s \<and> best BUY s = None)"
  using churn_wears_out_the_pool [OF small_queues, of 10 MAX_ORDER_IDS 1 7 SELL 100 0 1 int 0]
    churn_wears_out_the_pool [OF small_queues, of 10 1000 1 7 SELL 100 0 1 int 0]
  by (auto simp: constants)

end
