(* ===== verification/Price_Hack.thy ===== *)
theory Price_Hack
  imports Order_Book_Example
begin

text \<open>
  The price hack of the section with this name in \<open>README.md\<close>: in the book that the program is
  modelled after, a second sell order can land on the price level of a first one, at a
  quite different price and behind it, so that a buy order does not find it. In
  \<open>include/cppexchange/orderbook.h\<close> the levels are kept in a map from prices.
\<close>

section \<open>Orders in front of a side\<close>

lemma goes_front_resting:
  assumes "book_ok s c f" and "\<And>m ms. resting s c f b = m # ms \<Longrightarrow> better b p (o_limit_price m)"
  shows "goes_front s (c b) b p"
proof -
  have rep: "book_rep s c f" and set: "settled s f" using assms(1) by (simp_all add: book_ok_def)
  show ?thesis
    by (rule resting_cases [OF rep set, of b]) (use assms(2) in \<open>auto simp: goes_front_def\<close>)
qed

lemma place_front: "(\<And>x xs. ms = x # xs \<Longrightarrow> better b (o_limit_price m) (o_limit_price x)) \<Longrightarrow> place b m ms = m # ms"
  by (cases ms) (simp_all add: place_def)

text \<open>A sell order below all others rests in front of them, in a book without bids and hidden levels.\<close>

lemma sell_in_front:
  assumes ok: "book_ok s c f" and room: "has_room s p" and off: "orphans s c = {}" and q: "q \<noteq> 0"
    and bids: "resting s c f True = []" and asks: "\<And>m ms. resting s c f False = m # ms \<Longrightarrow> p < o_limit_price m"
  shows "\<exists>s' c' f'. OrderBook_add oid cid SELL q p s = ret s' \<and> book_ok s' c' f' \<and> orphans s' c' = {}
    \<and> resting s' c' f' True = []
    \<and> resting s' c' f' False = rest_of (clock s) (taker s oid cid SELL p) (Suc (ticks s)) q # resting s c f False
    \<and> next_trade_id s' = next_trade_id s \<and> ob_ticker_id (book s') = ob_ticker_id (book s)
    \<and> ticks s' = ticks s + 3 \<and> clock s' = clock s"
proof -
  let ?t = "taker s oid cid SELL p" and ?bk = "resting s c f"
  let ?r = "rest_of (clock s) ?t (Suc (ticks s)) q"
  have front: "goes_front s (c False) False p"
    by (rule goes_front_resting [OF ok]) (simp add: better_def asks)
  then have shown: "placeable s c False p" using off by (simp add: placeable_def)
  have m: "match_spec (clock s) ?t q (next_trade_id s) (Suc (ticks s)) (?bk (\<not> False)) = (q, next_trade_id s, [], [])"
    using bids by simp
  have r: "o_limit_price ?r = p" by (simp add: rest_of_def Order_new_def taker_def)
  have "place False ?r (?bk False) = ?r # ?bk False" by (rule place_front) (simp add: r better_def asks)
  then have spec: "add_spec True (clock s) ?t q (next_trade_id s) (ticks s) ?bk
      = (?bk(False := ?r # ?bk False), next_trade_id s, Suc (ticks s) + 2,
         [accepted_event (clock s) ?t (ticks s) q, added_event (clock s) ?t (Suc (Suc (ticks s))) q])"
    using add_spec_eq [where bk = ?bk and b = False and n = "ticks s", OF m] q bids by (simp add: taker_def fun_upd_idem)
  have "False = (SELL = BUY)" "True = placeable s c False p" using shown by simp_all
  from OrderBook_add_refines [OF ok room this(1) refl this(2) spec] obtain s' c' f' where
    "OrderBook_add oid cid SELL q p s = ret s'" "book_ok s' c' f'" "resting s' c' f' = ?bk(False := ?r # ?bk False)"
    "next_trade_id s' = next_trade_id s" "orphans s' c' = orphans s c" "ob_ticker_id (book s') = ob_ticker_id (book s)"
    "ticks s' = Suc (ticks s) + 2" "clock s' = clock s"
    unfolding sends_def by blast
  then show ?thesis using off bids by (intro exI [of _ s'] exI [of _ c'] exI [of _ f']) simp
qed

text \<open>An order that is not larger than the first acceptable one trades with it only.\<close>

lemma match_spec_exhausted: "match_spec clk t 0 tid n ms = (0, tid, ms, [])"
  by (cases ms) simp_all

lemma match_spec_first:
  assumes "acceptable (tk_side t) (tk_limit t) (o_limit_price m)" and "0 < q" and "q \<le> o_quantity m"
  shows "match_spec clk t q tid n (m # ms)
    = (0, tid + 1, if q = o_quantity m then ms else filled q m # ms, trade_events clk t tid n q (filled q m))"
proof -
  have min: "min q (o_quantity m) = q" using assms(3) by (simp add: min_def)
  have "o_quantity (filled q m) = 0 \<longleftrightarrow> q = o_quantity m" by (auto simp: min)
  then show ?thesis using assms(1,2) min by (simp add: Let_def match_spec_exhausted del: filled_simps) auto
qed

section \<open>The documented scenario\<close>

lemma rest_of_sel [simp]:
  "o_order_id (rest_of clk (taker s oid cid side p) k q) = oid" "o_quantity (rest_of clk (taker s oid cid side p) k q) = q"
  "o_limit_price (rest_of clk (taker s oid cid side p) k q) = p"
  "o_client_id (rest_of clk (taker s oid cid side p) k q) = cid" "o_side (rest_of clk (taker s oid cid side p) k q) = side"
  by (simp_all add: rest_of_def Order_new_def taker_def)

text \<open>Two sell orders in a new book, the second one below the first.\<close>

lemma two_sells:
  assumes "sound P 0 s" and "book_ok s c f" and "orphans s c = {}" and "\<And>b. resting s c f b = []"
    and "p < p'" and "{p, p'} \<subseteq> P" and "q1 \<noteq> 0" and "q2 \<noteq> 0"
  shows "\<exists>s1 s2 c2 f2 m1 m2. OrderBook_add 1 x SELL q1 p' s = ret s1 \<and> OrderBook_add 2 y SELL q2 p s1 = ret s2
    \<and> book_ok s2 c2 f2 \<and> sound P 2 s2 \<and> next_trade_id s2 = next_trade_id s
    \<and> ob_ticker_id (book s2) = ob_ticker_id (book s) \<and> ticks s2 = ticks s + 6 \<and> clock s2 = clock s
    \<and> resting s2 c2 f2 True = [] \<and> resting s2 c2 f2 False = [m2, m1]
    \<and> o_order_id m1 = 1 \<and> o_quantity m1 = q1 \<and> o_limit_price m1 = p'
    \<and> o_order_id m2 = 2 \<and> o_quantity m2 = q2 \<and> o_limit_price m2 = p \<and> o_client_id m2 = y \<and> o_side m2 = SELL"
proof -
  have k: "Suc 0 < MAX_ORDER_IDS" "Suc (Suc 0) < MAX_ORDER_IDS" by (simp_all add: constants)
  have P: "p \<in> P" "p' \<in> P" using assms(6) by simp_all
  from sell_in_front [OF assms(2) sound_room [OF assms(1) k(1) P(2)] assms(3,7,4), of 1 x] assms(4) obtain s1 c1 f1 where
    s1: "OrderBook_add 1 x SELL q1 p' s = ret s1" "book_ok s1 c1 f1" "orphans s1 c1 = {}" "resting s1 c1 f1 True = []"
      "resting s1 c1 f1 False = [rest_of (clock s) (taker s 1 x SELL p') (Suc (ticks s)) q1]"
      "next_trade_id s1 = next_trade_id s" "ob_ticker_id (book s1) = ob_ticker_id (book s)"
      "ticks s1 = ticks s + 3" "clock s1 = clock s"
    by auto
  have sound1: "sound P (Suc 0) s1" using add_sound [OF assms(1) k(1) P(2), of 1 x SELL q1] s1(1) by auto
  from sell_in_front [OF s1(2) sound_room [OF sound1 k(2) P(1)] s1(3) assms(8) s1(4), of 2 y] s1(5) assms(5) obtain s2 c2 f2 where
    s2: "OrderBook_add 2 y SELL q2 p s1 = ret s2" "book_ok s2 c2 f2" "resting s2 c2 f2 True = []"
      "resting s2 c2 f2 False = rest_of (clock s1) (taker s1 2 y SELL p) (Suc (ticks s1)) q2 # resting s1 c1 f1 False"
      "next_trade_id s2 = next_trade_id s1" "ob_ticker_id (book s2) = ob_ticker_id (book s1)"
      "ticks s2 = ticks s1 + 3" "clock s2 = clock s1"
    by auto
  have "sound P (Suc (Suc 0)) s2" using add_sound [OF sound1 k(2) P(1), of 2 y SELL q2] s2(1) by auto
  then have "sound P 2 s2" by (simp add: numeral_2_eq_2)
  with s1 s2 show ?thesis by (intro exI conjI) (assumption | simp)+
qed

text \<open>
  The messages of the buy order, when it trades with the second order only: it is accepted, and
  the trade, the change of the resting order and both fills carry the price of that order. \<open>left\<close>
  is the quantity left of the resting order and \<open>k\<close> the clock reading of the acceptance.
\<close>

definition trade_updates ::
  "TickerIdT \<Rightarrow> TradeIdT \<Rightarrow> QuantityT \<Rightarrow> QuantityT \<Rightarrow> PriceT \<Rightarrow> (nat \<Rightarrow> NsTimestampT) \<Rightarrow> nat \<Rightarrow> MarketUpdate list" where
  "trade_updates ticker tid q left p clk k =
     [MarketUpdate.make UpdateType_TRADE ticker OrderId_INVALID tid BUY q p (clk (k + 1)),
      if left = 0 then MarketUpdate.make UpdateType_REMOVE ticker 2 TradeId_INVALID SELL q p (clk (k + 2))
      else MarketUpdate.make UpdateType_MODIFY ticker 2 TradeId_INVALID SELL left p (clk (k + 2))]"

definition trade_responses ::
  "TickerIdT \<Rightarrow> ClientIdT \<Rightarrow> ClientIdT \<Rightarrow> QuantityT \<Rightarrow> PriceT \<Rightarrow> PriceT \<Rightarrow> (nat \<Rightarrow> NsTimestampT) \<Rightarrow> nat
    \<Rightarrow> ClientResponse list" where
  "trade_responses ticker y z q p lim clk k =
     [ClientResponse.make ResponseType_ACCEPTED ticker z 3 BUY q lim (clk k),
      ClientResponse.make ResponseType_FILLED ticker y 2 SELL q p (clk (k + 3)),
      ClientResponse.make ResponseType_FILLED ticker z 3 BUY q p (clk (k + 4))]"

lemma trade_messages:
  assumes "t = taker s 3 z BUY lim" and "ob_ticker_id (book s) = ticker"
    and "o_order_id m = 2" and "o_side m = SELL" and "o_client_id m = y" and "o_limit_price m = p"
    and "evs = accepted_event clk t k q # trade_events clk t tid (Suc k) q m"
  shows "updates evs = trade_updates ticker tid q (o_quantity m) p clk k"
    "responses evs = trade_responses ticker y z q p lim clk k"
  using assms by (simp_all add: accepted_event_def trade_events_def trade_updates_def trade_responses_def taker_def eval_nat_numeral)

text \<open>
  C24. The price hack is closed. After two sell orders in a new book, the second one at any lower price, a buy
  order whose limit reaches the lower price and that is not larger than the second order trades
  with that order only, at its price: the one trade that is published and the fills that both
  clients are sent carry this price, not the limit of the buy order. The first order stays as it
  was. The documented buy order, with a limit below the first price, is one of them.
\<close>

theorem price_hack_is_closed:
  assumes "lf_ok rq" and "lf_ok uq" and "p < p'" and "p \<le> lim"
    and "q1 \<noteq> 0" and "0 < q" and "q \<le> q2"
  shows "\<exists>s1 s2 s3 c f m1 m2. OrderBook_add 1 x SELL q1 p' (opened ticker rq uq tid clk n) = ret s1
    \<and> OrderBook_add 2 y SELL q2 p s1 = ret s2 \<and> OrderBook_add 3 z BUY q lim s2 = ret s3
    \<and> (\<exists>evs. sends s2 s3 evs \<and> updates evs = trade_updates ticker tid q (q2 - q) p clk (n + 6)
         \<and> responses evs = trade_responses ticker y z q p lim clk (n + 6))
    \<and> book_ok s3 c f \<and> next_trade_id s3 = tid + 1 \<and> resting s3 c f True = []
    \<and> resting s3 c f False = (if q = q2 then [m1] else [m2, m1])
    \<and> o_order_id m1 = 1 \<and> o_quantity m1 = q1 \<and> o_limit_price m1 = p'
    \<and> o_order_id m2 = 2 \<and> o_quantity m2 = q2 - q \<and> o_limit_price m2 = p"
proof -
  let ?P = "{p, p', lim}" and ?s0 = "opened ticker rq uq tid clk n"
  have "card ?P \<le> 3" using card_length [of "[p, p', lim]"] by simp
  then have "few_prices ?P" by (simp add: few_prices_def constants)
  from sound_opened [OF assms(1,2) this] have s0: "sound ?P 0 ?s0" .
  have new: "book_ok ?s0 (\<lambda>_. []) (\<lambda>_. [])" by (rule opened_ok [OF assms(1,2)])
  have start: "orphans ?s0 (\<lambda>_. []) = {}" "resting ?s0 (\<lambda>_. []) (\<lambda>_. []) b = []" for b
    by (simp_all add: orphans_def resting_def)
  have fields: "next_trade_id ?s0 = tid" "ob_ticker_id (book ?s0) = ticker" "ticks ?s0 = n" "clock ?s0 = clk"
    by (simp_all add: opened_def OrderBook_new_def)
  have "{p, p'} \<subseteq> ?P" "q2 \<noteq> 0" using assms(6,7) by auto
  from two_sells [OF s0 new start(1,2) assms(3) this(1) assms(5) this(2), of x y] obtain s1 s2 c2 f2 m1 m2 where
    s2: "OrderBook_add 1 x SELL q1 p' ?s0 = ret s1" "OrderBook_add 2 y SELL q2 p s1 = ret s2" "book_ok s2 c2 f2"
      "sound ?P 2 s2" "next_trade_id s2 = tid" "resting s2 c2 f2 True = []" "resting s2 c2 f2 False = [m2, m1]"
    and at: "ob_ticker_id (book s2) = ticker" "ticks s2 = n + 6" "clock s2 = clk"
    and m: "o_order_id m1 = 1" "o_quantity m1 = q1" "o_limit_price m1 = p'"
      "o_order_id m2 = 2" "o_quantity m2 = q2" "o_limit_price m2 = p" "o_client_id m2 = y" "o_side m2 = SELL"
    unfolding fields by blast
  have room: "has_room s2 lim" by (rule sound_room [OF s2(4)]) (simp_all add: constants)
  let ?t = "taker s2 3 z BUY lim" and ?m = "filled q m2" and ?ms = "if q = q2 then [m1] else [filled q m2, m1]"
  have "acceptable (tk_side ?t) (tk_limit ?t) (o_limit_price m2)" using assms(4) m(6) by (simp add: acceptable_def taker_def)
  from match_spec_first [OF this assms(6), of "clock s2" "next_trade_id s2" "Suc (ticks s2)" "[m1]"] assms(7)
  have t: "match_spec (clock s2) ?t q (next_trade_id s2) (Suc (ticks s2)) (resting s2 c2 f2 (\<not> True))
      = (0, next_trade_id s2 + 1, ?ms, trade_events (clock s2) ?t (next_trade_id s2) (Suc (ticks s2)) q ?m)"
    unfolding m(5) using s2(7) by auto
  let ?evs = "accepted_event clk ?t (n + 6) q # trade_events clk ?t tid (Suc (n + 6)) q ?m"
  have "add_spec (placeable s2 c2 True lim) (clock s2) ?t q (next_trade_id s2) (ticks s2) (resting s2 c2 f2)
      = ((resting s2 c2 f2)(False := ?ms), next_trade_id s2 + 1, Suc (ticks s2) + 4, ?evs)"
    unfolding at(2,3) [symmetric] s2(5) [symmetric]
    using add_spec_eq [where bk = "resting s2 c2 f2" and b = True and n = "ticks s2", OF t] by (simp add: taker_def fun_upd_idem)
  from OrderBook_add_refines [OF s2(3) room _ refl refl this] obtain s3 c3 f3 where
    s3: "OrderBook_add 3 z BUY q lim s2 = ret s3" "book_ok s3 c3 f3" "next_trade_id s3 = next_trade_id s2 + 1"
      "resting s3 c3 f3 = (resting s2 c2 f2)(False := ?ms)" "sends s2 s3 ?evs" by auto
  have left: "o_order_id ?m = 2" "o_side ?m = SELL" "o_client_id ?m = y" "o_limit_price ?m = p" "o_quantity ?m = q2 - q"
    using assms(7) by (simp_all add: m min_def)
  have "updates ?evs = trade_updates ticker tid q (q2 - q) p clk (n + 6)"
    "responses ?evs = trade_responses ticker y z q p lim clk (n + 6)"
    by (simp_all only: trade_messages [OF refl at(1) left(1-4) refl] left(5))
  then have "\<exists>evs. sends s2 s3 evs \<and> updates evs = trade_updates ticker tid q (q2 - q) p clk (n + 6)
      \<and> responses evs = trade_responses ticker y z q p lim clk (n + 6)" using s3(5) by blast
  then show ?thesis using s2(1,2,5,6) s3(1-4) m(1-3) left
    by (intro exI [of _ s1] exI [of _ s2] exI [of _ s3] exI [of _ c3] exI [of _ f3] exI [of _ m1] exI [of _ ?m] conjI) simp_all
qed

text \<open>With the prices of the documentation, \<open>i + MAX_PRICE_LEVELS\<close> and \<open>i\<close>, for \<open>i = 100\<close>.\<close>

theorem price_hack_is_closed_witness:
  "\<exists>s1 s2 s3. OrderBook_add 1 7 SELL 5 (100 + of_nat MAX_PRICE_LEVELS)
       (opened 1 (LFQueue_new 8 ClientResponse_default) (LFQueue_new 8 MarketUpdate_default) 1 int 0) = ret s1
     \<and> OrderBook_add 2 8 SELL 5 100 s1 = ret s2 \<and> OrderBook_add 3 9 BUY 5 150 s2 = ret s3 \<and> next_trade_id s3 = 2"
  using price_hack_is_closed [of "LFQueue_new 8 ClientResponse_default" "LFQueue_new 8 MarketUpdate_default"
      100 "100 + of_nat MAX_PRICE_LEVELS" 150 5 5 5 7 1 1 int 0 8 9]
  by (auto simp: constants lf_ok_new)

end
