(* ===== verification/Memory_Layout.thy ===== *)
theory Memory_Layout
  imports Main "HOL-Library.Multiset"
begin

text \<open>
  The memory layout that \<open>standalone/investigation/alignment.cpp\<close> prints. Members are placed in
  the order of their declaration, each at the next multiple of its alignment, and the size of a
  structure is rounded up to its own alignment; \<open>#pragma pack(1)\<close> of \<open>messages.h\<close> lowers every
  alignment to one. Sizes and alignments of the scalar types are those of the two 64-bit
  targets of the project, x86-64 and ARM64.
\<close>

section \<open>Structures\<close>

datatype ctype = Pointer | Uint8 | Uint32 | Uint64 | Long_Long

fun sizeof :: "ctype \<Rightarrow> nat" where
  "sizeof Pointer = 8"
| "sizeof Uint8 = 1"
| "sizeof Uint32 = 4"
| "sizeof Uint64 = 8"
| "sizeof Long_Long = 8"

definition alignof :: "ctype \<Rightarrow> nat" where
  "alignof t = sizeof t"

type_synonym members = "(string \<times> ctype) list"

definition round_up :: "nat \<Rightarrow> nat \<Rightarrow> nat" where
  "round_up a n = (n + a - 1) div a * a"

text \<open>The pragma in force, if any, bounds the alignment of a member.\<close>

definition member_align :: "nat option \<Rightarrow> ctype \<Rightarrow> nat" where
  "member_align pack t = (case pack of None \<Rightarrow> alignof t | Some p \<Rightarrow> min p (alignof t))"

fun offsets_from :: "nat option \<Rightarrow> nat \<Rightarrow> members \<Rightarrow> nat list" where
  "offsets_from pack n [] = []"
| "offsets_from pack n ((x, t) # ms) =
     (let p = round_up (member_align pack t) n in p # offsets_from pack (p + sizeof t) ms)"

fun end_from :: "nat option \<Rightarrow> nat \<Rightarrow> members \<Rightarrow> nat" where
  "end_from pack n [] = n"
| "end_from pack n ((x, t) # ms) = end_from pack (round_up (member_align pack t) n + sizeof t) ms"

fun struct_align :: "nat option \<Rightarrow> members \<Rightarrow> nat" where
  "struct_align pack [] = 1"
| "struct_align pack ((x, t) # ms) = max (member_align pack t) (struct_align pack ms)"

definition struct_size :: "nat option \<Rightarrow> members \<Rightarrow> nat" where
  "struct_size pack ms = round_up (struct_align pack ms) (end_from pack 0 ms)"

definition offset_of :: "nat option \<Rightarrow> members \<Rightarrow> string \<Rightarrow> nat" where
  "offset_of pack ms x = the (map_of (zip (map fst ms) (offsets_from pack 0 ms)) x)"

section \<open>The structures of the exchange\<close>

definition Order_members :: members where
  "Order_members =
     [(''previous'', Pointer), (''next'', Pointer), (''ticker_id'', Uint32), (''order_id'', Uint32),
      (''client_id'', Uint32), (''quantity'', Uint32), (''executed'', Uint32),
      (''ns_timestamp'', Long_Long), (''limit_price'', Uint64), (''side'', Uint8)]"

definition ClientRequest_members :: members where
  "ClientRequest_members =
     [(''type'', Uint8), (''ticker_id'', Uint32), (''client_id'', Uint32), (''order_id'', Uint32),
      (''side'', Uint8), (''quantity'', Uint32), (''limit_price'', Uint64)]"

definition ClientResponse_members :: members where
  "ClientResponse_members =
     [(''type'', Uint8), (''ticker_id'', Uint32), (''client_id'', Uint32), (''order_id'', Uint32),
      (''side'', Uint8), (''quantity'', Uint32), (''price'', Uint64), (''ns_timestamp'', Long_Long)]"

definition MarketUpdate_members :: members where
  "MarketUpdate_members =
     [(''type'', Uint8), (''ticker_id'', Uint32), (''order_id'', Uint32), (''trade_id'', Uint32),
      (''side'', Uint8), (''quantity'', Uint32), (''price'', Uint64), (''ns_timestamp'', Long_Long)]"

text \<open>The numbers of the five lines that the program prints.\<close>

definition checkOrderMemoryAlignment :: "nat list list" where
  "checkOrderMemoryAlignment =
     [[alignof Pointer, alignof Pointer, alignof Uint32, alignof Uint32, alignof Uint32, alignof Uint32,
       alignof Uint32, alignof Long_Long, alignof Uint64, alignof Uint8],
      [sizeof Pointer, sizeof Pointer, sizeof Uint32, sizeof Uint32, sizeof Uint32, sizeof Uint32,
       sizeof Uint32, sizeof Long_Long, sizeof Uint64, sizeof Uint8, struct_size None Order_members],
      map (offset_of None Order_members)
        [''previous'', ''next'', ''ticker_id'', ''order_id'', ''client_id'', ''quantity'', ''executed'',
         ''ns_timestamp'', ''limit_price'', ''side''],
      [sizeof Uint8, sizeof Uint32, sizeof Uint32, sizeof Uint32, sizeof Uint8, sizeof Uint32, sizeof Uint64,
       sizeof Long_Long],
      map (offset_of (Some 1) ClientResponse_members)
        [''type'', ''ticker_id'', ''client_id'', ''order_id'', ''side'', ''quantity'', ''price'', ''ns_timestamp'']]"

section \<open>Placement\<close>

lemma sizeof_pos [simp]: "0 < sizeof t"
  by (cases t) simp_all

lemma member_align_pos: "pack \<noteq> Some 0 \<Longrightarrow> 0 < member_align pack t"
  by (auto simp: member_align_def alignof_def split: option.splits)

lemma round_up:
  assumes "0 < a"
  shows "a dvd round_up a n" "n \<le> round_up a n" "round_up a n < n + a"
    and "a dvd m \<Longrightarrow> n \<le> m \<Longrightarrow> round_up a n \<le> m"
proof -
  let ?k = "n + a - 1"
  have split: "round_up a n + ?k mod a = ?k" by (simp add: round_up_def)
  have "?k mod a < a" using assms by simp
  with split show "n \<le> round_up a n" "round_up a n < n + a" using assms by linarith+
  show dvd: "a dvd round_up a n" by (simp add: round_up_def)
  assume m: "a dvd m" "n \<le> m"
  show "round_up a n \<le> m"
  proof (rule ccontr)
    assume "\<not> round_up a n \<le> m"
    then have "a \<le> round_up a n - m" using dvd_imp_le [OF dvd_diff_nat [OF dvd m(1)]] by simp
    with m(2) \<open>round_up a n < n + a\<close> assms show False by linarith
  qed
qed

lemma struct_align_pos: "0 < struct_align pack ms"
  by (induction pack ms rule: struct_align.induct) (auto simp: max_def)

lemma end_from_bound: "pack \<noteq> Some 0 \<Longrightarrow> n + sum_list (map (sizeof \<circ> snd) ms) \<le> end_from pack n ms"
proof (induction pack n ms rule: end_from.induct)
  case (2 pack n x t ms)
  then show ?case using round_up(2) [OF member_align_pos [of pack t], of n] by simp
qed simp

lemma struct_align_mset:
  assumes "mset ms = mset ms'"
  shows "struct_align pack ms = struct_align pack ms'"
proof -
  have "struct_align pack ms = Max (insert 1 ((member_align pack \<circ> snd) ` set ms))" for ms
  proof (induction ms)
    case (Cons m ms)
    obtain x t where m: "m = (x, t)" by (cases m)
    let ?A = "insert 1 ((member_align pack \<circ> snd) ` set ms)"
    have A: "insert 1 ((member_align pack \<circ> snd) ` set (m # ms)) = insert (member_align pack t) ?A"
      by (auto simp: m)
    have "Max (insert (member_align pack t) ?A) = max (member_align pack t) (Max ?A)" by (rule Max_insert) simp_all
    then show ?case unfolding A by (simp only: Cons m struct_align.simps)
  qed simp
  then show ?thesis using mset_eq_setD [OF assms] by simp
qed

section \<open>Properties\<close>

text \<open>
  C40. The numbers that the alignment program prints. An order takes 64 bytes, eleven of them
  padding. No order of its members takes fewer than 56 bytes, and moving \<open>side\<close> behind
  \<open>executed\<close> reaches that. Responses are packed, so their price and time are not aligned.
\<close>

theorem order_layout:
  "checkOrderMemoryAlignment =
     [[8, 8, 4, 4, 4, 4, 4, 8, 8, 1], [8, 8, 4, 4, 4, 4, 4, 8, 8, 1, 64],
      [0, 8, 16, 20, 24, 28, 32, 40, 48, 56], [1, 4, 4, 4, 1, 4, 8, 8], [0, 1, 5, 9, 13, 14, 18, 26]]
   \<and> struct_size None (take 7 Order_members @ (''side'', Uint8) # take 2 (drop 7 Order_members)) = 56
   \<and> (\<forall>ms. mset ms = mset Order_members \<longrightarrow> 56 \<le> struct_size None ms)"
proof (intro conjI allI impI)
  fix ms assume ms: "mset ms = mset Order_members"
  have a: "struct_align None ms = 8"
    by (simp add: struct_align_mset [OF ms] Order_members_def member_align_def alignof_def)
  have "sum_list (map (sizeof \<circ> snd) ms) = sum_mset (image_mset (sizeof \<circ> snd) (mset ms))"
    by (simp add: sum_mset_sum_list [symmetric])
  also have "\<dots> = 53" by (simp add: ms Order_members_def)
  finally have "53 \<le> struct_size None ms"
    using end_from_bound [of None 0 ms] round_up(2) [OF struct_align_pos, of "end_from None 0 ms" None ms]
    by (simp add: struct_size_def)
  moreover have "8 dvd struct_size None ms"
    using round_up(1) [OF struct_align_pos, of None ms] by (simp add: struct_size_def a)
  ultimately show "56 \<le> struct_size None ms" by (elim dvdE) simp
qed (simp_all add: checkOrderMemoryAlignment_def Order_members_def ClientResponse_members_def alignof_def
    offset_of_def struct_size_def member_align_def round_up_def Let_def)

text \<open>
  The messages are packed: they have no padding; without the pragma each would have six bytes.
\<close>

theorem message_layout:
  "map (struct_size (Some 1)) [ClientRequest_members, ClientResponse_members, MarketUpdate_members] = [26, 34, 34]
   \<and> map (struct_size None) [ClientRequest_members, ClientResponse_members, MarketUpdate_members] = [32, 40, 40]"
  by (simp add: ClientRequest_members_def ClientResponse_members_def MarketUpdate_members_def alignof_def
      struct_size_def member_align_def round_up_def)

theorem order_layout_witness:
  "56 \<le> struct_size None (rev Order_members) \<and> mset (rev Order_members) = mset Order_members"
  using order_layout by simp

end
