(* ===== verification/Singleton.thy ===== *)
theory Singleton
  imports Exchange_Prelude
begin

text \<open>
  The lazily created instance of \<open>include/utils/singleton.h\<close>, first as a call and then split at
  its accesses to the static member, for threads that call it at the same time. The default
  constructed object is a parameter.
\<close>

record 't singleton =
  the_instance :: ptr
  created :: "'t list"

definition Singleton_init :: "'t singleton" where
  "Singleton_init = \<lparr>the_instance = None, created = []\<rparr>"

definition new_instance :: "'t \<Rightarrow> 't singleton \<Rightarrow> 't singleton" where
  "new_instance T s = \<lparr>the_instance = Some (length (created s)), created = created s @ [T]\<rparr>"

definition getInstance :: "'t \<Rightarrow> 't singleton \<Rightarrow> (nat \<times> 't singleton) outcome" where
  "getInstance T s =
     (let s1 = (if the_instance s = None then new_instance T s else s)
      in obind (deref (the_instance s1)) (\<lambda>x. ret (x, s1)))"

text \<open>\<open>At_Test\<close>, \<open>At_New\<close> and \<open>At_Return\<close> are the three statements of the call.\<close>

datatype caller = At_Test | At_New | At_Return | Has nat

inductive get_step :: "'t \<Rightarrow> (nat \<Rightarrow> caller) \<times> 't singleton \<Rightarrow> (nat \<Rightarrow> caller) \<times> 't singleton \<Rightarrow> bool" for T where
  test: "pc i = At_Test \<Longrightarrow>
    get_step T (pc, s) (pc(i := if the_instance s = None then At_New else At_Return), s)"
| create: "pc i = At_New \<Longrightarrow> get_step T (pc, s) (pc(i := At_Return), new_instance T s)"
| return: "pc i = At_Return \<Longrightarrow> the_instance s = Some x \<Longrightarrow> get_step T (pc, s) (pc(i := Has x), s)"

inductive_cases get_stepE: "get_step T (pc, s) st"

section \<open>Calls one after the other\<close>

definition single :: "'t singleton \<Rightarrow> bool" where
  "single s \<longleftrightarrow> (case the_instance s of None \<Rightarrow> created s = [] | Some x \<Rightarrow> x = 0 \<and> length (created s) = 1)"

lemma single_init: "single Singleton_init"
  by (simp add: single_def Singleton_init_def)

theorem calls_return_one_instance:
  assumes "single s"
  shows "\<exists>s'. getInstance T s = ret (0, s') \<and> single s' \<and> length (created s') = 1
    \<and> getInstance T' s' = ret (0, s')"
  using assms by (cases "the_instance s")
    (auto simp: single_def getInstance_def new_instance_def deref_def)

section \<open>Calls at the same time\<close>

definition callers_ok :: "(nat \<Rightarrow> caller) \<times> 't singleton \<Rightarrow> bool" where
  "callers_ok = (\<lambda>(pc, s). (\<forall>x. the_instance s = Some x \<longrightarrow> x < length (created s))
     \<and> (\<forall>i. pc i = At_Return \<longrightarrow> the_instance s \<noteq> None) \<and> (\<forall>i x. pc i = Has x \<longrightarrow> x < length (created s)))"

lemma get_step_ok: "get_step T st st' \<Longrightarrow> callers_ok st \<Longrightarrow> callers_ok st'"
  by (induction rule: get_step.induct) (fastforce simp: callers_ok_def new_instance_def less_Suc_eq split: if_splits)+

text \<open>No caller reads through the null pointer, and each gets an object that was created.\<close>

theorem callers_get_an_instance:
  assumes "(get_step T)\<^sup>*\<^sup>* (\<lambda>_. At_Test, Singleton_init) (pc, s)"
  shows "(pc i = Has x \<longrightarrow> x < length (created s)) \<and> (pc i = At_Return \<longrightarrow> the_instance s \<noteq> None)"
proof -
  have "callers_ok (\<lambda>_. At_Test, Singleton_init)" by (simp add: callers_ok_def Singleton_init_def)
  with assms have "callers_ok (pc, s)" by (induction rule: rtranclp_induct) (auto intro: get_step_ok)
  then show ?thesis by (auto simp: callers_ok_def)
qed

text \<open>Two callers that test before either has created the object get different objects.\<close>

lemma two_callers_race:
  "\<exists>pc s. (get_step T)\<^sup>*\<^sup>* (\<lambda>_. At_Test, Singleton_init) (pc, s) \<and> pc 0 = Has 0 \<and> pc 1 = Has 1 \<and> length (created s) = 2"
proof -
  let ?s0 = "Singleton_init" and ?p = "\<lambda>_. At_Test"
  let ?s1 = "new_instance T ?s0" and ?p2 = "(\<lambda>_. At_Test)(0 := At_New, 1 := At_New)"
  let ?s2 = "new_instance T ?s1"
  have "get_step T (?p, ?s0) (?p(0 := At_New), ?s0)"
    using get_step.test [of ?p 0 T ?s0] by (simp add: Singleton_init_def)
  moreover have "get_step T (?p(0 := At_New), ?s0) (?p2, ?s0)"
    using get_step.test [of "?p(0 := At_New)" 1 T ?s0] by (simp add: Singleton_init_def)
  moreover have "get_step T (?p2, ?s0) (?p2(0 := At_Return), ?s1)" by (rule get_step.create) simp
  moreover have "get_step T (?p2(0 := At_Return), ?s1) (?p2(0 := At_Return, 0 := Has 0), ?s1)"
    by (rule get_step.return) (simp_all add: new_instance_def Singleton_init_def)
  moreover have "get_step T (?p2(0 := At_Return, 0 := Has 0), ?s1) (?p2(0 := At_Return, 0 := Has 0, 1 := At_Return), ?s2)"
    by (rule get_step.create) simp
  moreover have "get_step T (?p2(0 := At_Return, 0 := Has 0, 1 := At_Return), ?s2)
      (?p2(0 := At_Return, 0 := Has 0, 1 := At_Return, 1 := Has 1), ?s2)"
    by (rule get_step.return) (simp_all add: new_instance_def Singleton_init_def)
  ultimately have "(get_step T)\<^sup>*\<^sup>* (?p, ?s0) (?p2(0 := At_Return, 0 := Has 0, 1 := At_Return, 1 := Has 1), ?s2)"
    by (meson converse_rtranclp_into_rtranclp r_into_rtranclp)
  then show ?thesis
    by (intro exI [of _ "?p2(0 := At_Return, 0 := Has 0, 1 := At_Return, 1 := Has 1)"] exI [of _ ?s2])
      (simp add: new_instance_def Singleton_init_def)
qed

end
