(* ===== verification/Thread_Utils.thy ===== *)
theory Thread_Utils
  imports Exchange_Prelude
begin

text \<open>
  The helper \<open>createAndStartThread\<close> of \<open>include/utils/thread_utils.h\<close>. Its closure refers to the
  function and the arguments of the caller, which the caller may destroy once the helper has
  returned. The function is a parameter that acts on an environment of any type; the helper, its
  caller and the new thread take their steps in any order, and sleeping does not order them.
\<close>

section \<open>The helper and its thread\<close>

datatype helper_point = Create_Thread | Sleeping | Helper_Returned | Objects_Destroyed

datatype thread_point = Not_Created | Not_Entered | Thread_Ended

record ('a, 'e) helper =
  helper_pc :: helper_point
  thread_pc :: thread_point
  arguments :: "'a option"
  environment :: 'e

definition helper_called :: "'a \<Rightarrow> 'e \<Rightarrow> ('a, 'e) helper" where
  "helper_called args e =
     \<lparr>helper_pc = Create_Thread, thread_pc = Not_Created, arguments = Some args, environment = e\<rparr>"

definition caller_step :: "('a, 'e) helper \<Rightarrow> ('a, 'e) helper" where
  "caller_step h =
     (case helper_pc h of
        Create_Thread \<Rightarrow> h\<lparr>thread_pc := Not_Entered, helper_pc := Sleeping\<rparr>
      | Sleeping \<Rightarrow> h\<lparr>helper_pc := Helper_Returned\<rparr>
      | _ \<Rightarrow> h\<lparr>arguments := None, helper_pc := Objects_Destroyed\<rparr>)"

definition thread_step :: "('a \<Rightarrow> 'e \<Rightarrow> 'e outcome) \<Rightarrow> ('a, 'e) helper \<Rightarrow> ('a, 'e) helper outcome" where
  "thread_step func h =
     (if thread_pc h = Not_Entered then
        (case arguments h of
           None \<Rightarrow> throw Dangling_Pointer
         | Some args \<Rightarrow> obind (func args (environment h)) (\<lambda>e. ret (h\<lparr>environment := e, thread_pc := Thread_Ended\<rparr>)))
      else ret h)"

inductive helper_step :: "('a \<Rightarrow> 'e \<Rightarrow> 'e outcome) \<Rightarrow> ('a, 'e) helper \<Rightarrow> ('a, 'e) helper \<Rightarrow> bool" for func where
  caller: "helper_step func h (caller_step h)"
| new_thread: "thread_step func h = ret h' \<Longrightarrow> helper_step func h h'"

inductive_cases helper_stepE: "helper_step func h h'"

section \<open>What the thread does\<close>

lemma thread_step_once:
  assumes "thread_step func h = ret h'"
  shows "h' = h \<and> thread_pc h \<noteq> Not_Entered
    \<or> thread_pc h = Not_Entered \<and> (\<exists>args e. arguments h = Some args \<and> func args (environment h) = ret e
      \<and> h' = h\<lparr>environment := e, thread_pc := Thread_Ended\<rparr>)"
  using assms by (auto simp: thread_step_def obind_eq_ret split: if_splits option.splits)

text \<open>The function is called at most once, with the arguments of the caller and on its environment.\<close>

definition helper_inv :: "('a \<Rightarrow> 'e \<Rightarrow> 'e outcome) \<Rightarrow> 'a \<Rightarrow> 'e \<Rightarrow> ('a, 'e) helper \<Rightarrow> bool" where
  "helper_inv func args e h \<longleftrightarrow>
     (arguments h = (if helper_pc h = Objects_Destroyed then None else Some args))
     \<and> (thread_pc h = Not_Created \<longleftrightarrow> helper_pc h = Create_Thread)
     \<and> (if thread_pc h = Thread_Ended then func args e = ret (environment h) else environment h = e)"

lemma helper_inv_step:
  assumes "helper_step func h h'" and "helper_inv func args e h"
  shows "helper_inv func args e h'"
  using assms(1)
proof (cases rule: helper_stepE [consumes 1, case_names caller new_thread])
  case caller
  then show ?thesis using assms(2)
    by (cases "helper_pc h") (auto simp: caller_step_def helper_inv_def)
next
  case new_thread
  then show ?thesis using thread_step_once [OF new_thread] assms(2)
    by (auto simp: helper_inv_def split: if_splits)
qed

lemma helper_inv_reachable:
  "(helper_step func)\<^sup>*\<^sup>* (helper_called args e) h \<Longrightarrow> helper_inv func args e h"
proof (induction rule: rtranclp_induct)
  case base
  then show ?case by (simp add: helper_inv_def helper_called_def)
qed (rule helper_inv_step)

lemma thread_calls_function:
  assumes "(helper_step func)\<^sup>*\<^sup>* (helper_called args e) h"
  shows "thread_pc h = Thread_Ended \<Longrightarrow> func args e = ret (environment h)"
    and "thread_pc h = Not_Entered \<Longrightarrow> helper_pc h \<noteq> Objects_Destroyed \<Longrightarrow>
      thread_step func h = obind (func args e) (\<lambda>e'. ret (h\<lparr>environment := e', thread_pc := Thread_Ended\<rparr>))"
  using helper_inv_reachable [OF assms] by (simp_all add: helper_inv_def thread_step_def)

text \<open>
  If the scheduler does not run the thread before the helper has returned and its caller has
  destroyed the arguments, the thread reads through a dangling reference.
\<close>

lemma late_thread_reads_destroyed_objects:
  "\<exists>h. (helper_step func)\<^sup>*\<^sup>* (helper_called args e) h \<and> thread_step func h = throw Dangling_Pointer"
proof -
  let ?h = "caller_step (caller_step (caller_step (helper_called args e)))"
  have "(helper_step func)\<^sup>*\<^sup>* (helper_called args e) ?h"
    by (meson helper_step.caller rtranclp.rtrancl_into_rtrancl rtranclp.rtrancl_refl)
  moreover have "thread_step func ?h = throw Dangling_Pointer"
    by (simp add: helper_called_def caller_step_def thread_step_def)
  ultimately show ?thesis by blast
qed

end
