(* ===== verification/Spec2Isabelle.thy ===== *)
theory Spec2Isabelle
  imports Order_Book_Properties Fifo_Sequencer Exchange_Thread LF_Queue_Linearizable Socket_Example Dotenv_Properties
    Benchmark_Statistics Exchange_Feed Order_Book_Wear Price_Hack Memory_Layout Singleton Thread_Utils
begin

text \<open>
  A verification of the C++ exchange.

  \<^bold>\<open>The program.\<close> A matching engine for limit orders, written as headers under \<open>src/include\<close>.
  Network threads put client requests into a sequencer (\<open>communication/fifo_sequencer.h\<close>), which
  publishes them in the order of their receive times to a lock-free ring
  (\<open>communication/lf_queue.h\<close>). The exchange (\<open>cppexchange/cppexchange.h\<close>) runs a loop that pops
  requests and passes them to the order book of their ticker (\<open>cppexchange/orderbook.h\<close>). A book
  keeps its orders and price levels (\<open>cppexchange/order.h\<close>) in pre-allocated pools
  (\<open>utils/object_pool.h\<close>), matches incoming orders against the other side and writes responses and
  market updates (\<open>cppexchange/messages.h\<close>) to two more rings. The network layer
  (\<open>communication/tcp_server.h\<close>, \<open>tcp_socket.h\<close>, \<open>socket_utils.h\<close>) accepts connections and moves
  bytes between the kernel and buffers that callbacks read; settings are loaded from a file into
  the environment (\<open>cppexchange/dotenv.h\<close>).

  \<^bold>\<open>How the code is modelled.\<close> Every operation is a function on explicit state whose result has
  type \<open>outcome\<close>: it returns a value, it faults (\<open>Assertion\<close> for \<open>ASSERT\<close> and \<open>FATAL\<close>, which stop
  the process; \<open>Uncaught\<close> for an exception; \<open>Null_Dereference\<close>, \<open>Dangling_Pointer\<close>, \<open>Out_Of_Range\<close>
  and \<open>Invalid_Free\<close> for undefined behaviour the sources do not guard against), or, as \<open>None\<close>, it
  never returns. Loops over pointers are partial functions in this type, so that termination is
  part of what is proved and no fuel is needed. Identifiers, quantities and prices are words of
  the widths in \<open>cppexchange/typedefs.h\<close>; timestamps are integers. Pointers to orders and to price
  levels are indices into their pools. The system clock is a function from the number of readings
  so far to a time; the kernel under the sockets and the contents of a settings file are
  arguments.

  \<^bold>\<open>The theories.\<close>
    \<^item> \<open>Exchange_Prelude\<close>: outcomes, faults, vectors of fixed size, null pointers
      (\<open>utils/macros.h\<close>).
    \<^item> \<open>Object_Pool\<close>: \<open>getObject\<close>, \<open>updateNextFree\<close>, \<open>releaseObject\<close>. The locale \<open>allocator\<close> is the
      contract of a pool; it is interpreted on the model of the class.
    \<^item> \<open>LF_Queue\<close>: \<open>push\<close>, \<open>pop\<close>, \<open>empty\<close>, each call taken as a whole; the list a ring holds; the
      locale \<open>bounded_fifo\<close>, interpreted on the model.
    \<^item> \<open>LF_Queue_Concurrent\<close>: the same ring with \<open>push\<close>, \<open>empty\<close> and \<open>pop\<close> split at every load and
      store (\<open>producer_step\<close>, \<open>consumer_step\<close>), the interleavings \<open>shared_step\<close> of one producer
      and one consumer, and their invariant. \<open>LF_Queue_Linearizable\<close>: the histories of calls
      (\<open>effect_of\<close>) and their simulation by the sequential ring.
    \<^item> \<open>Exchange_Types\<close>, \<open>Messages\<close>: the typedefs, constants and message structures.
    \<^item> \<open>Orders\<close>: \<open>Order\<close>, \<open>OrdersPriceLevel\<close> and its circular list of orders; adding appends to the
      list, cancelling removes from it.
    \<^item> \<open>Order_Book\<close>: all operations of the class \<open>OrderBook\<close>, translated one by one.
      \<open>Order_Book_State\<close> has the rules for reading and writing its state.
    \<^item> \<open>Order_Book_Spec\<close>: the specification, two sorted lists of orders; \<open>match_spec\<close>, \<open>add_spec\<close>
      and \<open>cancel_spec\<close> keep them sorted and uncrossed and conserve quantity.
    \<^item> \<open>Order_Book_Rep\<close>: \<open>book_rep s c f\<close>, the lists that the pointers of \<open>s\<close> represent.
      \<open>Order_Book_Levels\<close>, \<open>Order_Book_Matching\<close>, \<open>Order_Book_Add\<close> and \<open>Order_Book_Cancel\<close> show
      that the operations on pointers return and compute the specification on lists.
    \<^item> \<open>Order_Book_Run\<close>: a new book, sequences of operations (\<open>book_step\<close>, \<open>book_runs\<close>) and the
      locale \<open>book_service\<close>, what the exchange relies on, interpreted on the book.
    \<^item> \<open>Order_Book_Example\<close>, \<open>Order_Book_Properties\<close>: a concrete book; the properties of the book
      with their application to it.
    \<^item> \<open>Market_Feed\<close>: a subscriber that applies the market updates (\<open>apply_update\<close>) and reads the
      ring at any time; \<open>tracks\<close> says that its map is in step with a book, \<open>followed\<close> are the
      histories of a book with such a reader.
    \<^item> \<open>Client_Ledger\<close>: the ledgers that the clients keep from their responses (\<open>book_response\<close>),
      read beside the market updates (\<open>streamed\<close>). \<open>Exchange_Feed\<close>: the same readers on all books
      of an exchange at once, interleaved with its thread (\<open>observed\<close>).
    \<^item> \<open>Order_Book_Wear\<close>: how the pool of orders is used up (\<open>worn\<close>, \<open>churn\<close>).
    \<^item> \<open>Price_Hack\<close>: the scenario that \<open>README.md\<close> describes under this name.
    \<^item> \<open>Fifo_Sequencer\<close>: \<open>addRequest\<close> and \<open>sequenceAndPublish\<close>; \<open>std::sort\<close> is a parameter with its
      documented promise (a sorted permutation) as the locale \<open>std_sort\<close>.
    \<^item> \<open>Exchange_Model\<close>: tickers, routing of requests, the thread with its loop, and what the loop
      does to the books by value (\<open>serve\<close>, \<open>serve_all\<close>, \<open>servable\<close>). \<open>Exchange_Thread\<close>: the step
      relation \<open>exchange_step\<close> that interleaves the loop with the threads that submit requests and
      that start and stop the exchange; what \<open>stop\<close> achieves (\<open>winds_down\<close>).
    \<^item> \<open>Socket_Utils\<close>: \<open>createSocket\<close> with all its checks and the arguments it computes for the
      system calls, whose results are a record of functions (\<open>socket_calls\<close>).
    \<^item> \<open>Tcp_Socket\<close>: the buffered socket, with the locale \<open>recv_handler\<close> for receive callbacks,
      interpreted on the two callbacks of \<open>standalone/socket_example.cpp\<close>.
    \<^item> \<open>Tcp_Server\<close>: \<open>listen\<close>, \<open>poll\<close> and \<open>sendAndRecv\<close> of the server; the events, connections and
      bytes come from the kernel as arguments.
    \<^item> \<open>Socket_Example\<close>: the program \<open>standalone/socket_example.cpp\<close>, a server and two clients, on a
      kernel that is a parameter; \<open>loopback\<close> states what a loopback network does.
    \<^item> \<open>Dotenv\<close>: the loader of environment files, and its \<open>setenv\<close> for Windows. \<open>Dotenv_Properties\<close>
      has the reference definition \<open>expand\<close> of a text with variable references and the proofs.
    \<^item> \<open>Benchmark\<close>: the threads of \<open>standalone/benchmark_exchange_mt.cpp\<close> as functions from program
      point to program point, interleaved with the loop of the exchange by \<open>bench_step\<close>.
      \<open>Benchmark_Exchange\<close>, \<open>Benchmark_Steps\<close> and \<open>Benchmark_Properties\<close> have the invariant and
      the proofs. \<open>Percentile_Index\<close> and \<open>Benchmark_Statistics\<close>: the percentiles printed at the
      end, with the index computed in double precision.
    \<^item> \<open>Memory_Layout\<close>: sizes and offsets of structures as \<open>standalone/investigation/alignment.cpp\<close>
      prints them.
    \<^item> \<open>Singleton\<close>: the lazily created instance of \<open>utils/singleton.h\<close>, as a call and split at its
      accesses to the static member (\<open>get_step\<close>).
    \<^item> \<open>Thread_Utils\<close>: the helper of \<open>utils/thread_utils.h\<close>, its caller and the thread it starts.

  \<^bold>\<open>What is shown.\<close> Matching terminates and implements price-time priority; it conserves quantity,
  respects limits and leaves no tradable order behind. Adding and cancelling refine their
  specifications, with all messages. Books reached by additions and by cancellations of orders on
  the chains are sorted, uncrossed and never fault while the pools have room: for fewer than
  \<open>MAX_ORDER_IDS\<close> additions, since each takes at most one order from its pool, none is given back
  by a cancellation and one block of a pool is never handed out, over fewer than
  \<open>MAX_PRICE_LEVELS\<close> different prices, since a price has at most one level and a level at most one
  price. The market updates determine the book: a subscriber that reads them at any time knows,
  once it has caught up, exactly the resting orders of both sides with their quantities and the
  orders that the book keeps outside its chains (\<open>off_chain\<close>). The private responses agree with
  them, as long as clients cancel only their own orders: the ledger that a client keeps from the
  responses addressed to it is the part of the public map that belongs to it. Both are shown for
  histories that cancel on the chains only and leave room for the messages. This holds for one
  book and for all books of an exchange, under every interleaving of its thread with the readers
  and the other threads. The price hack of the documentation is closed, and the messages of the
  trade carry the price of the resting order. The exchange keeps all its books sound under every
  interleaving of its threads in which the requests that its loop takes up can be served
  (\<open>can_go_on\<close>); what the sequencer publishes has the effect of serving the requests one after the
  other by receive time (\<open>serve_all\<close>). \<open>stop\<close> ends the loop after at most the round that has
  begun, and leaves the other requests in the queue. The ring is a queue for whole calls, and for
  a producer and a consumer that interleave between single loads and stores it is free of data
  races, delivers what was sent and is linearizable, while pushes start only when there is room.
  Requests and replies make the round trip through two sockets; a server keeps track of its
  connections and answers each of them; on a loopback network the example program runs to its end,
  and each client reads the replies to its first four messages. A settings file is read back as it
  was printed, the loop that replaces references ends and computes its reference definition for
  all strings shorter than \<open>2 ^ 64\<close>, the range of a position. The benchmark keeps at most one
  order under way, serves all 5005000 orders without a fault and can always be run to its end; the
  values it prints are percentiles of its latencies.

  \<^bold>\<open>What does not hold.\<close> \<open>insertPriceLevel\<close> never links a level behind an existing one. The model
  keeps this: such levels are registered but off the chain (\<open>orphans\<close>). Their orders are announced
  but cannot trade, and cancelling the last of them reads through a null pointer
  (\<open>order_behind_best_is_hidden\<close>, \<open>cancel_off_chain_faults\<close>). Further: a ring and a pool hold one
  item less than their size, a full ring loses everything, orders are never released, so that
  adding and cancelling one order over and over stops the process (\<open>churn_wears_out_the_pool\<close>),
  any client can cancel any order, of which its owner is not told (\<open>cancel_ignores_owner\<close>), an
  order of quantity 0 is accepted (\<open>zero_order_is_accepted\<close>), one whose side is \<open>INVALID\<close> becomes
  an ask (\<open>invalid_side_rests_as_ask\<close>), and a request for an unknown ticker reads through a null
  pointer. A short write drops the rest of the send buffer (\<open>short_write_loses_data\<close>), a closed
  connection stays registered and is deleted twice (\<open>closed_connection_is_freed_twice\<close>), and a
  failed \<open>connect\<close> is not noticed (\<open>failed_connect_is_not_noticed\<close>); neither is a failure to read
  the flags of a descriptor (\<open>failed_getfl_is_not_noticed\<close>), and a port beyond 16 bits wraps
  around (\<open>port_wraps\<close>). The clients of the example print 0 as the length of every message and
  never read the last reply. Two threads can get different instances of a singleton
  (\<open>two_callers_race\<close>). A thread started by \<open>createAndStartThread\<close> may run only after the objects
  it refers to are gone (\<open>late_thread_reads_destroyed_objects\<close>), and a second \<open>start\<close> of a running
  exchange ends the program (\<open>stop_ends_the_loop\<close>).

  \<^bold>\<open>Not modelled.\<close> The exchange calls the ring as a whole: the steps inside a call are interleaved
  in \<open>LF_Queue_Concurrent\<close> only, and \<open>ring_linearizable\<close> relates the two. Weak memory orders are
  not modelled; the atomics of the ring are sequentially consistent or acquire loads. The body of
  the loop of the exchange is one step of the benchmark, although the response is in the ring
  before it ends; its banner, the elapsed time and the throughput that it prints are left out, and
  so is \<open>PROJECT_ROOT\<close>, a path of the file system. When the kernel delivers no control message,
  the source reads a time from a buffer it has not set, and the model takes 0 (\<open>kernel_time\<close>); the
  address that \<open>recvmsg\<close> writes to \<open>socket_attrib_\<close> is not stored. Sockets that were deleted do
  not come back under the same address, the number of events that one \<open>poll\<close> reports is up to the
  kernel, and in the example all reads of a round of the server are taken before its sends. What
  else is not translated of the sources are declarations, deleted constructors and getters, which
  are selectors of the records here.
\<close>

section \<open>From the sequencer through the exchange\<close>

text \<open>
  C29. Requests collected by the sequencer and published to the queue of an exchange are served
  completely, in the order of their receive times and behind the requests that wait in the queue.
  Publishing returns, and as many rounds of the loop as there are requests empty the queue without
  a fault and leave the exchange as serving the requests one after the other does, new orders,
  cancellations and invalid requests alike; each new order takes the next order identifier. This
  holds for a sound exchange and a well-formed sequencer, when the ring has room for the pending
  requests, the sort returns a sorted permutation, and the requests can be served at their turn
  (\<open>servable\<close>): they name registered tickers, new orders have prices of a set that the pool of
  levels can hold and are fewer than the pool of orders has blocks left, and a cancellation names a
  price whose level, if it has one, is then on a chain.
\<close>

theorem sequenced_requests_are_served:
  assumes "\<And>xs. mset (srt xs) = mset xs" and "\<And>xs. sorted (map receive_timestamp (srt xs))"
    and "sq_ok sq" and "length (contents (sq_requests sq)) + length (pending sq) \<le> room (sq_requests sq)"
    and "ex_sound P k ex" and "ps = srt (pending sq)" and "rs = contents (sq_requests sq) @ map request ps"
    and "servable P rs ex" and "k + additions rs < MAX_ORDER_IDS"
  shows "mset ps = mset (pending sq) \<and> sorted (map receive_timestamp ps)
    \<and> (\<exists>sq' ex1 ex'. sequenceAndPublish srt sq = ret sq' \<and> pending sq' = [] \<and> contents (sq_requests sq') = rs
         \<and> serve_all rs ex = ret ex1
         \<and> run_times (length rs) (ex\<lparr>ex_request_queue := sq_requests sq'\<rparr>) = ret ex'
         \<and> ex' = ex1\<lparr>next_request := next_request ex', ex_request_queue := ex_request_queue ex'\<rparr>
         \<and> contents (ex_request_queue ex') = [] \<and> ex_sound P (k + additions rs) ex'
         \<and> next_order_id ex' = next_order_id ex + of_nat (additions rs))"
proof -
  have "lf_length (sq_requests sq) + length (pending sq) \<le> room (sq_requests sq)"
    using assms(3,4) length_contents [of "sq_requests sq"] by (simp add: sq_ok_def)
  from std_sort.publishes [OF std_sortI [OF assms(1,2)] assms(3) this] obtain sq' where
    sq': "sequenceAndPublish srt sq = ret sq'" "sq_ok sq'" "pending sq' = []" "contents (sq_requests sq') = rs"
    unfolding assms(6,7) by blast
  let ?ex = "ex\<lparr>next_request := next_request ex, ex_request_queue := sq_requests sq'\<rparr>"
  have "lf_ok (sq_requests sq')" using sq'(2) by (simp add: sq_ok_def)
  from ex_sound_dequeue(1) [OF assms(5) this] have s: "ex_sound P k ?ex" .
  from run_times_serves [OF s _ servable_dequeue [OF assms(8)] assms(9)] obtain ex2 p q where ex2: "serve_all rs ?ex = ret ex2"
    "run_times (length rs) ?ex = ret (ex2\<lparr>next_request := p, ex_request_queue := q\<rparr>)" "contents q = []"
    "ex_sound P (k + additions rs) (ex2\<lparr>next_request := p, ex_request_queue := q\<rparr>)"
    "next_order_id ex2 = next_order_id ?ex + of_nat (additions rs)" using sq'(4) by auto
  have "serve_all rs ex = ret (ex2\<lparr>next_request := next_request ex, ex_request_queue := ex_request_queue ex\<rparr>)"
    using serve_all_dequeue [OF ex2(1), where p = "next_request ex" and q = "ex_request_queue ex"] by simp
  then show ?thesis
    using sq'(1,3,4) ex2(2-5) assms(1,2) [of "pending sq"] unfolding assms(6)
    by (intro conjI exI [of _ sq'] exI [of _ "ex2\<lparr>next_request := next_request ex, ex_request_queue := ex_request_queue ex\<rparr>"]
        exI [of _ "ex2\<lparr>next_request := p, ex_request_queue := q\<rparr>"]) simp_all
qed

text \<open>
  Two requests that arrive out of order: a new order received at time 5 and, collected after it,
  a cancellation received at time 3.
\<close>

abbreviation early_cancel :: ClientRequest where
  "early_cancel \<equiv> ClientRequest.make RequestType_CANCEL 1 7 1 BUY 0 100"

lemma two_collected:
  obtains sq where "sq_ok sq" "sq_requests sq = small_request_queue"
    "pending sq = [\<lparr>receive_timestamp = 5, request = small_request\<rparr>, \<lparr>receive_timestamp = 3, request = early_cancel\<rparr>]"
proof -
  let ?sq = "FifoSequencer_new small_request_queue"
  have new: "sq_ok ?sq" "pending ?sq = []" "sq_requests ?sq = small_request_queue"
    using sq_ok_new [OF small_exchange_queues(1)] by (simp_all add: FifoSequencer_new_def)
  obtain sq1 where sq1: "sq_ok sq1" "pending sq1 = [\<lparr>receive_timestamp = 5, request = small_request\<rparr>]"
    "sq_requests sq1 = small_request_queue"
    using addRequest_room [OF new(1), of small_request 5] new(2,3)
    by (auto simp: MAX_PENDING_REQUESTS_def simp del: length_pending)
  then have "length (pending sq1) < MAX_PENDING_REQUESTS" by (simp add: MAX_PENDING_REQUESTS_def del: length_pending)
  from addRequest_room [OF sq1(1) this, of early_cancel 3] sq1 that show thesis by auto
qed

lemma two_servable:
  obtains ex where "ex_sound {100} 0 ex" "servable {100} [early_cancel, small_request] ex"
proof -
  from exchange_construction [OF small_exchange_queues, of "[1, 2]" "{100}" int 0] small_exchange_prices obtain ex where
    ex: "ex_sound {100} 0 ex" "order_books_map ex = map (\<lambda>t. (t, Some (OrderBook_new t))) [1, 2]"
    by (auto simp: constants)
  have safe: "safe_request {100} ex early_cancel"
    by (simp add: safe_request_def ex(2) ClientRequest.make_def level_reachable_def OrderBook_new_def)
  from serve_safe [OF ex(1) safe] obtain ex1 where ex1: "serve early_cancel ex = ret ex1" "ex_sound {100} 0 ex1"
    "dom (map_of (order_books_map ex1)) = dom (map_of (order_books_map ex))"
    by (auto simp: constants ClientRequest.make_def)
  have "1 \<in> dom (map_of (order_books_map ex1))" unfolding ex1(3) ex(2) by auto
  then have "known ex1 1" by (auto simp: known_def)
  then have "servable {100} [small_request] ex1"
    by (intro servable_additions [OF ex1(2)]) (simp_all add: ClientRequest.make_def constants)
  with safe show thesis using that [OF ex(1)] unfolding servable_Cons [OF ex1(1)] by blast
qed

theorem sequenced_requests_are_served_witness:
  "\<exists>ex sq sq' ex1 ex'. map request (pending sq) = [small_request, early_cancel]
     \<and> sequenceAndPublish stable_sort sq = ret sq' \<and> contents (sq_requests sq') = [early_cancel, small_request]
     \<and> serve_all [early_cancel, small_request] ex = ret ex1
     \<and> run_times 2 (ex\<lparr>ex_request_queue := sq_requests sq'\<rparr>) = ret ex'
     \<and> order_books_map ex' = order_books_map ex1 \<and> next_order_id ex' = next_order_id ex + 1"
proof -
  obtain ex where ex: "ex_sound {100} 0 ex" "servable {100} [early_cancel, small_request] ex" by (rule two_servable)
  obtain sq where sq: "sq_ok sq" "sq_requests sq = small_request_queue"
    "pending sq = [\<lparr>receive_timestamp = 5, request = small_request\<rparr>, \<lparr>receive_timestamp = 3, request = early_cancel\<rparr>]"
    by (rule two_collected)
  have ps: "map request (stable_sort (pending sq)) = [early_cancel, small_request]"
    by (simp add: sq(3) stable_sort_def)
  have q: "contents (sq_requests sq) = []" "length (contents (sq_requests sq)) + length (pending sq) \<le> room (sq_requests sq)"
    "0 + additions [early_cancel, small_request] < MAX_ORDER_IDS"
    by (simp_all add: sq(2,3) constants ClientRequest.make_def del: length_pending)
  have rs: "[early_cancel, small_request] = contents (sq_requests sq) @ map request (stable_sort (pending sq))"
    by (simp add: q(1) ps)
  have n: "additions [early_cancel, small_request] = 1" "length [early_cancel, small_request] = 2"
    by (simp_all add: ClientRequest.make_def)
  from sequenced_requests_are_served [OF stable.permutes stable.ordered sq(1) q(2) ex(1) refl rs ex(2) q(3)]
  obtain sq' ex1 ex' where r: "sequenceAndPublish stable_sort sq = ret sq'" "contents (sq_requests sq') = [early_cancel, small_request]"
    "serve_all [early_cancel, small_request] ex = ret ex1"
    "run_times 2 (ex\<lparr>ex_request_queue := sq_requests sq'\<rparr>) = ret ex'"
    "ex' = ex1\<lparr>next_request := next_request ex', ex_request_queue := ex_request_queue ex'\<rparr>"
    "next_order_id ex' = next_order_id ex + 1"
    unfolding n of_nat_1 by blast
  from arg_cong [OF r(5), of order_books_map] have "order_books_map ex' = order_books_map ex1" by simp
  moreover have "map request (pending sq) = [small_request, early_cancel]" by (simp add: sq(3))
  ultimately show ?thesis using r(1-4,6)
    by (intro exI [of _ ex] exI [of _ sq] exI [of _ sq'] exI [of _ ex1] exI [of _ ex'] conjI)
qed

end
